(* ===== verification/Ten_Prelude.thy ===== *)
theory Ten_Prelude
  imports Main "HOL-Library.Word"
begin

text \<open>
  The prelude of the libten development: the machine types of the sources, the
  result type of an operation that may throw, the collections of facts the
  component theories extend, and the generic lemmas on lists, characters and
  words that more than one component uses.

  Text and network data are \<^typ>\<open>char list\<close>: a C \<open>char\<close> and a HOL \<^typ>\<open>char\<close> are both
  eight bits.  Fixed-width integers are words.  An operation that may throw after
  it has changed its object returns both the outcome and the object, as an
  exception leaves the object in the state it had at the throw.
\<close>

section \<open>Machine types\<close>

type_synonym u8 = "8 word"
type_synonym u16 = "16 word"
type_synonym u32 = "32 word"
type_synonym u64 = "64 word"

type_synonym ('e, 's, 'a) outcome = "('e + 'a) \<times> 's"

text \<open>The threads of control the runtime schedules.\<close>

type_synonym task_id = nat

named_theorems ten_defs \<open>definitions that a component's proofs unfold\<close>
named_theorems ten_inv \<open>an operation keeps its component's invariant\<close>

section \<open>Characters\<close>

abbreviation code :: "char \<Rightarrow> nat" where
  "code c \<equiv> of_char c"

lemma code_less_256 [simp]: "code c < 256"
  by (simp add: of_char_mod_256)

section \<open>Lists\<close>

text \<open>The elements of an optional value, as a list.\<close>

primrec set_option_list :: "'a option \<Rightarrow> 'a list" where
  "set_option_list None = []"
| "set_option_list (Some x) = [x]"

text \<open>A region \<open>[lo, hi)\<close> of an array.\<close>

definition slice :: "nat \<Rightarrow> nat \<Rightarrow> 'a list \<Rightarrow> 'a list" where
  "slice lo hi xs = take (hi - lo) (drop lo xs)"

lemma length_slice [simp]: "length (slice lo hi xs) = min (hi - lo) (length xs - lo)"
  by (simp add: slice_def min.commute)

lemma slice_empty [simp]: "hi \<le> lo \<Longrightarrow> slice lo hi xs = []"
  by (simp add: slice_def)

lemma slice_append_slice:
  assumes "lo \<le> mid" and "mid \<le> hi"
  shows "slice lo mid xs @ slice mid hi xs = slice lo hi xs"
proof -
  have "hi - lo = (mid - lo) + (hi - mid)" using assms by simp
  then have "slice lo hi xs = take (mid - lo) (drop lo xs) @ take (hi - mid) (drop (mid - lo) (drop lo xs))"
    by (simp add: slice_def take_add)
  then show ?thesis using assms by (simp add: slice_def)
qed

lemma drop_slice: "drop n (slice lo hi xs) = slice (lo + n) hi xs"
  by (simp add: slice_def drop_take add.commute)

lemma slice_0_append [simp]: "hi \<le> length xs \<Longrightarrow> slice lo hi (xs @ ys) = slice lo hi xs"
  by (cases "lo \<le> length xs") (auto simp: slice_def)

lemma slice_take: "slice lo hi (take hi xs) = slice lo hi xs"
  by (simp add: slice_def drop_take)

text \<open>Strings with a separator between them.\<close>

fun join :: "string \<Rightarrow> string list \<Rightarrow> string" where
  "join d [] = []"
| "join d [x] = x"
| "join d (x # xs) = x @ d @ join d xs"

lemma join_Cons: "join d (x # xs) = x @ concat (map (\<lambda>y. d @ y) xs)"
proof (induction xs arbitrary: x)
  case (Cons y ys)
  then show ?case using Cons.IH [of y] by simp
qed simp

section \<open>Words\<close>

lemma unat_add_no_wrap:
  "unat (a :: u32) + unat b < 2 ^ 32 \<Longrightarrow> unat (a + b) = unat a + unat b"
  by (simp add: unat_word_ariths)

lemma unat_sub_le: "(b :: 'a::len word) \<le> a \<Longrightarrow> unat (a - b) = unat a - unat b"
  by (rule unat_sub)

lemma sint_small:
  assumes "unat (w::u64) < 2 ^ 63"
  shows "sint w = int (unat w)"
proof -
  have "int (unat w) < 2 ^ 63" using assms by (simp only: of_nat_less_numeral_power_cancel_iff)
  moreover have "- (2 ^ 63) \<le> int (unat w)" by (rule order_trans [of _ 0]) simp_all
  moreover have "sint w = signed_take_bit 63 (int (unat w))" by (simp add: sint_uint)
  ultimately show ?thesis by (simp only: signed_take_bit_int_eq_self)
qed

end
