(* ===== verification/Fifo.thy ===== *)
theory Fifo
  imports Ten_Prelude "HOL-Library.Sublist"
begin

text \<open>
  The contract every first-in first-out component of libten promises, stated once.
  A component has a state, operations, and a list of items it holds.  An operation may
  feed items in, and may drain items out; the law says that what was held followed by
  what was fed is what was drained followed by what is held afterwards.  From it follow
  the facts a client needs about whole sessions: nothing is lost, duplicated or
  reordered.  The buffer, the queues and the channel interpret this locale.
\<close>

primrec run_ops :: "('op \<Rightarrow> 's \<Rightarrow> 's) \<Rightarrow> 'op list \<Rightarrow> 's \<Rightarrow> 's" where
  "run_ops step [] s = s"
| "run_ops step (x # xs) s = run_ops step xs (step x s)"

primrec collect :: "('op \<Rightarrow> 's \<Rightarrow> 's) \<Rightarrow> ('op \<Rightarrow> 's \<Rightarrow> 'a list) \<Rightarrow> 'op list \<Rightarrow> 's \<Rightarrow> 'a list" where
  "collect step out [] s = []"
| "collect step out (x # xs) s = out x s @ collect step out xs (step x s)"

primrec all_legal :: "('op \<Rightarrow> 's \<Rightarrow> 's) \<Rightarrow> ('op \<Rightarrow> 's \<Rightarrow> bool) \<Rightarrow> 'op list \<Rightarrow> 's \<Rightarrow> bool" where
  "all_legal step legal [] s \<longleftrightarrow> True"
| "all_legal step legal (x # xs) s \<longleftrightarrow> legal x s \<and> all_legal step legal xs (step x s)"

lemma run_ops_append: "run_ops step (xs @ ys) s = run_ops step ys (run_ops step xs s)"
  by (induction xs arbitrary: s) simp_all

lemma all_legal_True [simp]: "all_legal step (\<lambda>_ _. True) xs s"
  by (induction xs arbitrary: s) simp_all

locale fifo_stream =
  fixes ok :: "'s \<Rightarrow> bool"
    and items :: "'s \<Rightarrow> 'a list"
    and step :: "'op \<Rightarrow> 's \<Rightarrow> 's"
    and fed :: "'op \<Rightarrow> 's \<Rightarrow> 'a list"
    and drained :: "'op \<Rightarrow> 's \<Rightarrow> 'a list"
    and legal :: "'op \<Rightarrow> 's \<Rightarrow> bool"
  assumes step_ok: "ok s \<Longrightarrow> legal x s \<Longrightarrow> ok (step x s)"
    and step_items: "ok s \<Longrightarrow> legal x s \<Longrightarrow> items s @ fed x s = drained x s @ items (step x s)"
begin

lemma session_ok: "ok s \<Longrightarrow> all_legal step legal xs s \<Longrightarrow> ok (run_ops step xs s)"
  by (induction xs arbitrary: s) (auto intro: step_ok)

lemma session_conserves:
  "ok s \<Longrightarrow> all_legal step legal xs s \<Longrightarrow>
     items s @ collect step fed xs s = collect step drained xs s @ items (run_ops step xs s)"
proof (induction xs arbitrary: s)
  case (Cons x xs)
  then have "items s @ fed x s = drained x s @ items (step x s)"
    by (simp add: step_items)
  moreover have "items (step x s) @ collect step fed xs (step x s) =
      collect step drained xs (step x s) @ items (run_ops step xs (step x s))"
    using Cons by (simp add: step_ok)
  ultimately show ?case by (metis append.assoc collect.simps(2) run_ops.simps(2))
qed simp

lemma session_prefix:
  "ok s \<Longrightarrow> items s = [] \<Longrightarrow> all_legal step legal xs s \<Longrightarrow>
     prefix (collect step drained xs s) (collect step fed xs s)"
  using session_conserves [of s xs] by (simp add: prefixI)

lemma session_count:
  "ok s \<Longrightarrow> all_legal step legal xs s \<Longrightarrow>
     length (items s) + length (collect step fed xs s)
       = length (collect step drained xs s) + length (items (run_ops step xs s))"
  using arg_cong [OF session_conserves, of s xs length] by simp

end

end
