(* ===== verification/Buffer.thy ===== *)
theory Buffer
  imports Fifo
begin

text \<open>
  The network buffer of \<open>include/ten/buffer.hh\<close>: a malloced block with a capacity and
  two 32-bit cursors.  Bytes between \<open>front\<close> and \<open>back\<close> are committed, bytes between
  \<open>back\<close> and \<open>capacity\<close> are available.  The cursors are 32-bit words, so every
  subtraction and addition wraps exactly as in the source.  The allocator is a
  parameter: whether a request succeeds and what fresh memory holds.

  The theory shows the cursor invariant and that it is kept, the exact condition under
  which \<open>reserve\<close> delivers the space it promises, and, through the interface locale
  \<open>byte_queue\<close>, that a session of operations is a byte stream: what went in is what
  was removed followed by what is still committed.
\<close>

section \<open>State and operations\<close>

record allocator =
  alloc_ok :: "nat \<Rightarrow> bool"
  junk :: "nat \<Rightarrow> char"

datatype buffer_error = Null_deref | Heap_overflow | Bad_alloc | Commit_too_big | Remove_gt_size

record buffer =
  buf_capacity :: u32
  buf_front :: u32
  buf_back :: u32
  buf_data :: "char list"

text \<open>
  The constructor clears \<open>sizeof(head)\<close>, which is 13 for the packed struct: the three
  cursors and the first data byte.  The block has \<open>12 + capacity\<close> bytes, so for capacity
  0 that write is past its end; the result of \<open>malloc\<close> is not tested.
\<close>

definition buffer_new :: "allocator \<Rightarrow> u32 \<Rightarrow> buffer_error + buffer" where
  "buffer_new A cap =
     (if \<not> alloc_ok A (12 + unat cap) then Inl Null_deref
      else if cap = 0 then Inl Heap_overflow
      else Inr \<lparr>buf_capacity = cap, buf_front = 0, buf_back = 0,
                buf_data = (map (junk A) [0..<unat cap])[0 := CHR 0x00]\<rparr>)"

definition buf_size :: "buffer \<Rightarrow> u32" where
  "buf_size b = buf_back b - buf_front b"

definition available :: "buffer \<Rightarrow> u32" where
  "available b = buf_capacity b - buf_back b"

definition potential :: "buffer \<Rightarrow> u32" where
  "potential b = buf_capacity b - buf_size b"

definition compact :: "buffer \<Rightarrow> buffer" where
  "compact b =
     (if buf_front b \<noteq> 0 then
        b\<lparr>buf_data := slice (unat (buf_front b)) (unat (buf_front b) + unat (buf_size b)) (buf_data b)
                        @ drop (unat (buf_size b)) (buf_data b),
          buf_back := buf_size b,
          buf_front := 0\<rparr>
      else b)"

text \<open>What \<open>realloc\<close> leaves in the data area: the old bytes that still fit, then fresh ones.\<close>

definition realloc_data :: "allocator \<Rightarrow> nat \<Rightarrow> char list \<Rightarrow> char list" where
  "realloc_data A n xs = take n xs @ map (junk A) [length xs..<n]"

definition reserve :: "allocator \<Rightarrow> u32 \<Rightarrow> buffer \<Rightarrow> (buffer_error, buffer, unit) outcome" where
  "reserve A n b =
     (if n > potential b then
        (let b1 = compact b;
             need = n - potential b1;
             newcapacity = buf_capacity b1 + need
         in if alloc_ok A (12 + unat newcapacity)
            then (Inr (), b1\<lparr>buf_capacity := newcapacity,
                             buf_data := realloc_data A (unat newcapacity) (buf_data b1)\<rparr>)
            else (Inl Bad_alloc, b1))
      else if n > available b then (Inr (), compact b)
      else (Inr (), b))"

definition commit :: "u32 \<Rightarrow> buffer \<Rightarrow> (buffer_error, buffer, unit) outcome" where
  "commit n b =
     (if n > available b then (Inl Commit_too_big, b)
      else (Inr (), b\<lparr>buf_back := buf_back b + n\<rparr>))"

definition remove :: "u32 \<Rightarrow> buffer \<Rightarrow> (buffer_error, buffer, unit) outcome" where
  "remove n b =
     (if n > buf_size b then (Inl Remove_gt_size, b)
      else let b1 = b\<lparr>buf_front := buf_front b + n\<rparr>
           in (Inr (), if buf_front b1 = buf_back b1 then b1\<lparr>buf_front := 0, buf_back := 0\<rparr> else b1))"

definition clear :: "buffer \<Rightarrow> (buffer_error, buffer, unit) outcome" where
  "clear b = remove (buf_size b) b"

text \<open>
  \<open>front()\<close> and \<open>back()\<close> hand out pointers into the data area; a caller reads
  \<open>size()\<close> bytes at the first and stores at most \<open>available()\<close> bytes at the second.
\<close>

definition contents :: "buffer \<Rightarrow> char list" where
  "contents b = slice (unat (buf_front b)) (unat (buf_back b)) (buf_data b)"

definition store_back :: "char list \<Rightarrow> buffer \<Rightarrow> buffer" where
  "store_back bs b =
     b\<lparr>buf_data := take (unat (buf_back b)) (buf_data b) @ bs
                     @ drop (unat (buf_back b) + length bs) (buf_data b)\<rparr>"

section \<open>The cursor invariant\<close>

definition buffer_ok :: "buffer \<Rightarrow> bool" where
  "buffer_ok b \<longleftrightarrow> buf_front b \<le> buf_back b \<and> buf_back b \<le> buf_capacity b
     \<and> length (buf_data b) = unat (buf_capacity b)"

lemmas buffer_defs = buffer_ok_def contents_def buf_size_def available_def potential_def
  word_le_nat_alt word_less_nat_alt

lemma buffer_sizes:
  assumes "buffer_ok b"
  shows "unat (buf_size b) = unat (buf_back b) - unat (buf_front b)"
    and "unat (available b) = unat (buf_capacity b) - unat (buf_back b)"
    and "unat (potential b) = unat (buf_capacity b) - unat (buf_size b)"
    and "unat (buf_size b) \<le> unat (buf_back b)"
    and "length (contents b) = unat (buf_size b)"
proof -
  have le: "buf_front b \<le> buf_back b" "buf_back b \<le> buf_capacity b"
    and len: "length (buf_data b) = unat (buf_capacity b)"
    using assms by (auto simp: buffer_ok_def)
  show size: "unat (buf_size b) = unat (buf_back b) - unat (buf_front b)"
    using le by (simp add: buf_size_def unat_sub)
  show "unat (available b) = unat (buf_capacity b) - unat (buf_back b)"
    using le by (simp add: available_def unat_sub)
  show le_back: "unat (buf_size b) \<le> unat (buf_back b)"
    using size by simp
  have "buf_size b \<le> buf_capacity b"
    using le_back le by (simp add: word_le_nat_alt)
  then show "unat (potential b) = unat (buf_capacity b) - unat (buf_size b)"
    by (simp add: potential_def unat_sub)
  show "length (contents b) = unat (buf_size b)"
    using le len size by (simp add: contents_def word_le_nat_alt)
qed

lemma buffer_new_ok [ten_inv]:
  "buffer_new A cap = Inr b \<Longrightarrow> buffer_ok b \<and> contents b = [] \<and> available b = cap"
  by (auto simp: buffer_new_def buffer_defs split: if_splits)

lemma compact_ok [ten_inv]:
  assumes "buffer_ok b"
  shows "buffer_ok (compact b)" and "contents (compact b) = contents b"
    and "buf_capacity (compact b) = buf_capacity b"
    and "buf_size (compact b) = buf_size b"
    and "buf_front (compact b) = 0"
proof -
  note s = buffer_sizes [OF assms]
  have le: "unat (buf_front b) \<le> unat (buf_back b)" "unat (buf_back b) \<le> unat (buf_capacity b)"
    "length (buf_data b) = unat (buf_capacity b)"
    using assms by (auto simp: buffer_ok_def word_le_nat_alt)
  have end_is_back: "unat (buf_front b) + unat (buf_size b) = unat (buf_back b)"
    using s(1) le by simp
  show "buffer_ok (compact b)"
    using assms le s end_is_back
    by (auto simp: compact_def buffer_ok_def word_le_nat_alt)
  show "contents (compact b) = contents b"
    using s le end_is_back by (auto simp: compact_def contents_def slice_def)
qed (auto simp: compact_def buf_size_def)

lemma reserve_cases:
  assumes "buffer_ok b" and "unat (buf_size b) + unat n < 2 ^ 32"
    and "reserve A n b = (Inr (), b')"
  shows "buffer_ok b' \<and> contents b' = contents b \<and> n \<le> available b'"
proof (cases "n > potential b")
  case False
  note s = buffer_sizes [OF assms(1)] and c = compact_ok [OF assms(1)]
  note sc = buffer_sizes [OF c(1)]
  from False have "unat n \<le> unat (potential b)" by (simp add: word_less_nat_alt)
  then show ?thesis
    using False assms(1,3) s c sc
    by (auto simp: reserve_def word_le_nat_alt word_less_nat_alt not_less split: if_splits)
next
  case True
  let ?b1 = "compact b"
  let ?cap = "buf_capacity ?b1 + (n - potential ?b1)"
  note c = compact_ok [OF assms(1)]
  note s = buffer_sizes [OF c(1)]
  have pot: "potential ?b1 = potential b" by (simp add: potential_def c)
  have need: "unat (n - potential ?b1) = unat n - unat (potential ?b1)"
    using True pot by (simp add: unat_sub)
  have le: "unat (buf_size ?b1) \<le> unat (buf_capacity ?b1)"
    using c(1) s(4) by (simp add: buffer_ok_def word_le_nat_alt)
  have "unat (buf_capacity ?b1) + unat (n - potential ?b1) = unat (buf_size b) + unat n"
    using need s(3) le True pot c(4) by (simp add: word_less_nat_alt)
  then have cap: "unat ?cap = unat (buf_size b) + unat n"
    using assms(2) by (simp add: unat_add_no_wrap)
  have bk: "buf_back ?b1 = buf_size b"
    using c(4,5) by (simp add: buf_size_def)
  have b': "b' = ?b1\<lparr>buf_capacity := ?cap, buf_data := realloc_data A (unat ?cap) (buf_data ?b1)\<rparr>"
    using True assms(3) by (auto simp: reserve_def Let_def split: if_splits)
  have grow: "unat (buf_capacity ?b1) \<le> unat ?cap"
    using cap need s(3) le True pot c(4) by (simp add: word_less_nat_alt)
  have len: "length (buf_data ?b1) = unat (buf_capacity ?b1)"
    using c(1) by (simp add: buffer_ok_def)
  have "buffer_ok b'"
    using cap bk len grow c(5) by (simp add: b' buffer_ok_def realloc_data_def word_le_nat_alt)
  moreover have "contents b' = contents ?b1"
    using bk len grow le c(4) by (simp add: b' contents_def realloc_data_def)
  moreover have "n \<le> available b'"
    using cap bk by (simp add: b' available_def word_le_nat_alt unat_sub)
  ultimately show ?thesis using c(2) by simp
qed


text \<open>
  When \<open>reserve\<close> has to grow the block, the new capacity is the committed size plus \<open>n\<close>,
  computed in 32 bits.
\<close>

lemma reserve_grow_capacity:
  assumes "buffer_ok b" and "n > potential b" and "reserve A n b = (Inr (), b')"
  shows "buf_capacity b' = buf_size b + n" and "buf_back b' = buf_size b" and "buf_front b' = 0"
  using assms compact_ok [OF assms(1)]
  by (auto simp: reserve_def Let_def potential_def buf_size_def split: if_splits)

lemma reserve_throw:
  assumes "buffer_ok b" and "reserve A n b = (Inl e, b')"
  shows "e = Bad_alloc" and "buffer_ok b'" and "contents b' = contents b"
  using assms compact_ok [OF assms(1)] by (auto simp: reserve_def Let_def split: if_splits)

lemma store_back_ok [ten_inv]:
  assumes "buffer_ok b" and "length bs \<le> unat (available b)"
  shows "buffer_ok (store_back bs b)" and "contents (store_back bs b) = contents b"
    and "available (store_back bs b) = available b"
  using assms buffer_sizes(2) [OF assms(1)]
  by (auto simp: store_back_def buffer_ok_def contents_def available_def word_le_nat_alt slice_take)

lemma commit_ok [ten_inv]:
  assumes "buffer_ok b" and "n \<le> available b"
  shows "fst (commit n b) = Inr ()" and "buffer_ok (snd (commit n b))"
    and "contents (snd (commit n b)) =
      contents b @ slice (unat (buf_back b)) (unat (buf_back b) + unat n) (buf_data b)"
proof -
  have le: "unat (buf_front b) \<le> unat (buf_back b)" "unat (buf_back b) \<le> unat (buf_capacity b)"
    "length (buf_data b) = unat (buf_capacity b)"
    using assms(1) by (auto simp: buffer_ok_def word_le_nat_alt)
  have n: "unat n \<le> unat (buf_capacity b) - unat (buf_back b)"
    using assms buffer_sizes(2) [OF assms(1)] by (simp add: word_le_nat_alt)
  have "unat (buf_back b) + unat n < 2 ^ 32"
    using n le unsigned_less [of "buf_capacity b", where 'a = nat] by simp
  then have bk: "unat (buf_back b + n) = unat (buf_back b) + unat n"
    by (rule unat_add_no_wrap)
  show "fst (commit n b) = Inr ()" using assms(2) by (simp add: commit_def)
  show "buffer_ok (snd (commit n b))"
    using assms(2) le n bk by (auto simp: commit_def buffer_ok_def word_le_nat_alt)
  show "contents (snd (commit n b)) =
      contents b @ slice (unat (buf_back b)) (unat (buf_back b) + unat n) (buf_data b)"
    using assms(2) le bk by (simp add: commit_def contents_def slice_append_slice)
qed

lemma remove_ok [ten_inv]:
  assumes "buffer_ok b" and "n \<le> buf_size b"
  shows "fst (remove n b) = Inr ()" and "buffer_ok (snd (remove n b))"
    and "contents (snd (remove n b)) = drop (unat n) (contents b)"
proof -
  note s = buffer_sizes [OF assms(1)]
  have le: "unat (buf_front b) \<le> unat (buf_back b)" "unat (buf_back b) \<le> unat (buf_capacity b)"
    "length (buf_data b) = unat (buf_capacity b)"
    using assms(1) by (auto simp: buffer_ok_def word_le_nat_alt)
  have n: "unat n \<le> unat (buf_back b) - unat (buf_front b)"
    using assms(2) s(1) by (simp add: word_le_nat_alt)
  have "unat (buf_front b) + unat n < 2 ^ 32"
    using n le unsigned_less [of "buf_back b", where 'a = nat] by simp
  then have front: "unat (buf_front b + n) = unat (buf_front b) + unat n"
    by (rule unat_add_no_wrap)
  show "fst (remove n b) = Inr ()" using assms(2) by (simp add: remove_def Let_def)
  show "buffer_ok (snd (remove n b))"
    using assms(2) le n front by (auto simp: remove_def Let_def buffer_ok_def word_le_nat_alt)
  show "contents (snd (remove n b)) = drop (unat n) (contents b)"
  proof (cases "buf_front b + n = buf_back b")
    case True
    then have "unat (buf_front b) + unat n = unat (buf_back b)" using front by simp
    with True assms(2) s show ?thesis by (simp add: remove_def contents_def drop_slice)
  next
    case False
    with assms(2) front show ?thesis by (simp add: remove_def contents_def drop_slice)
  qed
qed


section \<open>Sessions\<close>

text \<open>
  One operation of a session.  \<open>Recv bs\<close> is what every client does: let the socket write at
  \<open>back()\<close>, at most \<open>available()\<close> bytes, and commit what was written.
\<close>

datatype buf_op = Reserve u32 | Recv "char list" | Remove u32 | Clear | Compact

definition delivered :: "buffer \<Rightarrow> char list \<Rightarrow> char list" where
  "delivered b bs = take (unat (available b)) bs"

fun buf_step :: "allocator \<Rightarrow> buf_op \<Rightarrow> buffer \<Rightarrow> (buffer_error, buffer, unit) outcome" where
  "buf_step A (Reserve n) b = reserve A n b"
| "buf_step A (Recv bs) b =
     commit (of_nat (length (delivered b bs))) (store_back (delivered b bs) b)"
| "buf_step A (Remove n) b = remove n b"
| "buf_step A Clear b = clear b"
| "buf_step A Compact b = (Inr (), compact b)"

definition buf_next :: "allocator \<Rightarrow> buf_op \<Rightarrow> buffer \<Rightarrow> buffer" where
  "buf_next A x b = snd (buf_step A x b)"

fun buf_fed :: "buf_op \<Rightarrow> buffer \<Rightarrow> char list" where
  "buf_fed (Recv bs) b = delivered b bs"
| "buf_fed _ b = []"

fun buf_drained :: "buf_op \<Rightarrow> buffer \<Rightarrow> char list" where
  "buf_drained (Remove n) b = (if n \<le> buf_size b then take (unat n) (contents b) else [])"
| "buf_drained Clear b = contents b"
| "buf_drained _ b = []"

text \<open>The one use the 32-bit arithmetic does not support: asking for too much in all.\<close>

fun buf_legal :: "buf_op \<Rightarrow> buffer \<Rightarrow> bool" where
  "buf_legal (Reserve n) b \<longleftrightarrow> unat (buf_size b) + unat n < 2 ^ 32"
| "buf_legal _ b \<longleftrightarrow> True"

lemma recv_step:
  assumes "buffer_ok b"
  shows "buffer_ok (buf_next A (Recv bs) b)"
    and "contents (buf_next A (Recv bs) b) = contents b @ delivered b bs"
proof -
  let ?d = "delivered b bs"
  let ?n = "of_nat (length ?d) :: u32"
  have len: "length ?d \<le> unat (available b)" by (simp add: delivered_def)
  then have un: "unat ?n = length ?d"
    using unsigned_less [of "available b", where 'a = nat] by (simp add: unat_of_nat)
  note st = store_back_ok [OF assms len]
  have n: "?n \<le> available (store_back ?d b)"
    using len un st(3) by (simp add: word_le_nat_alt)
  have room: "unat (buf_back b) + length ?d \<le> length (buf_data b)"
    using assms len buffer_sizes(2) [OF assms] by (auto simp: buffer_ok_def word_le_nat_alt)
  then have stored: "slice (unat (buf_back b)) (unat (buf_back b) + length ?d)
      (buf_data (store_back ?d b)) = ?d"
    by (simp add: store_back_def slice_def)
  show "buffer_ok (buf_next A (Recv bs) b)"
    using commit_ok(2) [OF st(1) n] by (simp add: buf_next_def)
  show "contents (buf_next A (Recv bs) b) = contents b @ ?d"
    using commit_ok(3) [OF st(1) n] stored un st(2) by (simp add: buf_next_def store_back_def)
qed

lemma remove_step:
  assumes "buffer_ok b"
  shows "buffer_ok (snd (remove n b))"
    and "contents b = (if n \<le> buf_size b then take (unat n) (contents b) else []) @
      contents (snd (remove n b))"
proof -
  have throw: "remove n b = (Inl Remove_gt_size, b)" if "\<not> n \<le> buf_size b"
    using that by (simp add: remove_def not_le)
  show "buffer_ok (snd (remove n b))"
    using assms throw remove_ok(2) [OF assms, of n] by (cases "n \<le> buf_size b") auto
  show "contents b = (if n \<le> buf_size b then take (unat n) (contents b) else []) @
      contents (snd (remove n b))"
    using throw remove_ok(3) [OF assms, of n] by auto
qed

lemma buf_step_ok:
  assumes "buffer_ok b" and "buf_legal x b"
  shows "buffer_ok (buf_next A x b)"
    and "contents b @ buf_fed x b = buf_drained x b @ contents (buf_next A x b)"
proof -
  have "buffer_ok (buf_next A x b) \<and>
      contents b @ buf_fed x b = buf_drained x b @ contents (buf_next A x b)"
  proof (cases x)
    case (Reserve n)
    obtain r b' where r: "reserve A n b = (r, b')" by fastforce
    show ?thesis
      using assms r reserve_cases [of b n A b'] reserve_throw [of b A n _ b'] Reserve
      by (cases r) (auto simp: buf_next_def)
  next
    case (Recv bs)
    then show ?thesis using recv_step [OF assms(1)] by simp
  next
    case (Remove n)
    then show ?thesis using remove_step [OF assms(1), of n] by (simp add: buf_next_def)
  next
    case Clear
    then show ?thesis
      using remove_step [OF assms(1), of "buf_size b"] buffer_sizes(5) [OF assms(1)]
      by (simp add: buf_next_def clear_def)
  next
    case Compact
    then show ?thesis using compact_ok [OF assms(1)] by (simp add: buf_next_def)
  qed
  then show "buffer_ok (buf_next A x b)"
    and "contents b @ buf_fed x b = buf_drained x b @ contents (buf_next A x b)" by auto
qed

interpretation buf: fifo_stream buffer_ok contents "buf_next A" buf_fed buf_drained buf_legal
  for A
  by unfold_locales (simp_all add: buf_step_ok)


section \<open>Properties\<close>

lemma reserve_wraps:
  assumes "buffer_ok b" and "reserve A n b = (Inr (), b')"
    and "2 ^ 32 \<le> unat (buf_size b) + unat n"
  shows "\<not> buffer_ok b'"
proof -
  note s = buffer_sizes [OF assms(1)]
  have le: "unat (buf_size b) \<le> unat (buf_capacity b)"
    using assms(1) s(4) by (simp add: buffer_ok_def word_le_nat_alt)
  have "unat (buf_capacity b) < 2 ^ 32"
    using unsigned_less [of "buf_capacity b", where 'a = nat] by simp
  then have grow: "n > potential b"
    using assms(3) s(3) le by (simp add: word_less_nat_alt)
  have "unat n < 2 ^ 32" and "unat (buf_size b) < 2 ^ 32"
    using unsigned_less [of n, where 'a = nat] unsigned_less [of "buf_size b", where 'a = nat]
    by simp_all
  then have "unat (buf_size b + n) = unat (buf_size b) + unat n - 2 ^ 32"
    using assms(3) by (simp add: unat_word_ariths mod_if)
  then have "buf_size b + n < buf_size b"
    using \<open>unat n < 2 ^ 32\<close> assms(3) by (simp add: word_less_nat_alt)
  then show ?thesis
    using reserve_grow_capacity [OF assms(1) grow assms(2)] by (auto simp: buffer_ok_def dest: leD)
qed

text \<open>
  C4: a session of buffer operations is a byte stream.  From any state that meets the cursor
  invariant and for any sequence of \<open>reserve\<close>, receive-and-commit, \<open>remove\<close>,
  \<open>clear\<close> and \<open>compact\<close> calls, including calls that throw, the bytes committed at the
  start followed by all bytes received are exactly the bytes removed followed by the bytes
  still committed, and the invariant holds at the end.  The only hypothesis on the calls is
  that no \<open>reserve\<close> asks for a total beyond 32 bits.
\<close>

theorem buffer_session_stream:
  assumes "buffer_ok b" and "all_legal (buf_next A) buf_legal xs b"
  shows "contents b @ collect (buf_next A) buf_fed xs b =
      collect (buf_next A) buf_drained xs b @ contents (run_ops (buf_next A) xs b)
    \<and> buffer_ok (run_ops (buf_next A) xs b)"
  using buf.session_conserves [OF assms] buf.session_ok [OF assms] by simp

definition demo_allocator :: allocator where
  "demo_allocator = \<lparr>alloc_ok = (\<lambda>n. n < 100), junk = (\<lambda>_. CHR ''?'')\<rparr>"

definition demo_buffer :: buffer where
  "demo_buffer = \<lparr>buf_capacity = 4, buf_front = 0, buf_back = 0, buf_data = ''????''\<rparr>"

lemmas buffer_eval = demo_allocator_def demo_buffer_def buf_next_def reserve_def commit_def
  remove_def delivered_def available_def buf_size_def potential_def compact_def store_back_def
  contents_def realloc_data_def slice_def Let_def upt_rec

theorem buffer_session_stream_witness:
  "collect (buf_next demo_allocator) buf_drained
     [Recv ''abcdef'', Remove 1, Reserve 2, Recv ''xy'', Remove 9, Remove 3] demo_buffer = ''abcd''
   \<and> contents demo_buffer @ collect (buf_next demo_allocator) buf_fed
       [Recv ''abcdef'', Remove 1, Reserve 2, Recv ''xy'', Remove 9, Remove 3] demo_buffer =
     ''abcd'' @ contents (run_ops (buf_next demo_allocator)
       [Recv ''abcdef'', Remove 1, Reserve 2, Recv ''xy'', Remove 9, Remove 3] demo_buffer)"
proof -
  have ok: "buffer_ok demo_buffer" by (simp add: buffer_ok_def demo_buffer_def)
  have legal: "all_legal (buf_next demo_allocator) buf_legal
      [Recv ''abcdef'', Remove 1, Reserve 2, Recv ''xy'', Remove 9, Remove 3] demo_buffer"
    by (simp add: buffer_eval)
  have drained: "collect (buf_next demo_allocator) buf_drained
      [Recv ''abcdef'', Remove 1, Reserve 2, Recv ''xy'', Remove 9, Remove 3] demo_buffer = ''abcd''"
    by (simp add: buffer_eval)
  show ?thesis using buffer_session_stream [OF ok legal] drained by simp
qed

text \<open>
  C28: the exact reach of \<open>reserve\<close>.  When \<open>reserve(n)\<close> returns, it has kept the committed
  bytes and the cursor invariant and left room for \<open>n\<close> more if and only if the committed
  size plus \<open>n\<close> fits in 32 bits.  Beyond that the new capacity wraps around, the block is
  shrunk below the committed bytes, and \<open>reserve\<close> still returns normally.
\<close>

theorem reserve_delivers_iff:
  assumes "buffer_ok b" and "reserve A n b = (Inr (), b')"
  shows "buffer_ok b' \<and> contents b' = contents b \<and> n \<le> available b'
    \<longleftrightarrow> unat (buf_size b) + unat n < 2 ^ 32"
  using assms reserve_cases [of b n A b'] reserve_wraps [of b A n b'] by force

definition demo_committed :: buffer where
  "demo_committed = \<lparr>buf_capacity = 4, buf_front = 1, buf_back = 3, buf_data = ''wxyz''\<rparr>"

theorem reserve_delivers_iff_witness:
  "(let b' = snd (reserve demo_allocator 4294967295 demo_committed)
    in fst (reserve demo_allocator 4294967295 demo_committed) = Inr ()
       \<and> \<not> (buffer_ok b' \<and> contents b' = contents demo_committed \<and> 4294967295 \<le> available b'))"
proof -
  have ok: "buffer_ok demo_committed" by (simp add: buffer_ok_def demo_committed_def)
  have r: "fst (reserve demo_allocator 4294967295 demo_committed) = Inr ()"
    by (simp add: buffer_eval demo_committed_def)
  have wrap: "\<not> unat (buf_size demo_committed) + unat (4294967295 :: u32) < 2 ^ 32"
    by (simp add: demo_committed_def buf_size_def)
  show ?thesis
    using reserve_delivers_iff [OF ok, of demo_allocator 4294967295
      "snd (reserve demo_allocator 4294967295 demo_committed)"] r wrap
    by (simp add: Let_def prod_eq_iff)
qed

end
