(* ===== verification/Alarm.thy ===== *)
theory Alarm
  imports Ten_Prelude "HOL-Library.Multiset"
begin

text \<open>
  The alarm clock of \<open>src/alarm.hh\<close>: a vector of pending alarms ordered by due time, used
  for sleeping tasks, deadlines and poll timeouts.  An alarm carries the task it wakes, its
  due time and the exception to inject, if any.  Time points are integers (nanoseconds of
  the steady clock).  An exception pointer is the address of its exception object, so two
  pointers are equal only for the same object, as \<open>std::exception_ptr\<close> compares.

  The theory shows that the vector is sorted in every state, hence that a tick fires
  exactly the alarms that are due, each once and in order of due time, and that
  \<open>when()\<close> is the next due time.
\<close>

section \<open>State and operations\<close>

type_synonym time_point = int
type_synonym exn_ptr = nat

record 'v alarm_data =
  alarm_value :: 'v
  alarm_when :: time_point
  alarm_exn :: "exn_ptr option"

type_synonym 'v alarm_set = "'v alarm_data list"

text \<open>
  \<open>std::lower_bound\<close> on the sorted vector is the first position whose element is not before
  the new one; the new alarm is inserted there, in front of those due at the same time.
\<close>

definition alarm_insert :: "'v alarm_data \<Rightarrow> 'v alarm_set \<Rightarrow> 'v alarm_set" where
  "alarm_insert d xs =
     takeWhile (\<lambda>a. alarm_when a < alarm_when d) xs @ d
       # dropWhile (\<lambda>a. alarm_when a < alarm_when d) xs"

definition alarm_remove :: "'v alarm_data \<Rightarrow> 'v alarm_set \<Rightarrow> 'v alarm_set" where
  "alarm_remove d xs = remove1 d xs"

definition alarm_remove_value :: "'v \<Rightarrow> 'v alarm_set \<Rightarrow> 'v alarm_set" where
  "alarm_remove_value v xs = filter (\<lambda>d. alarm_value d \<noteq> v) xs"

text \<open>\<open>tick\<close> calls the function on the leading alarms that are due, in order, and erases them.\<close>

definition alarm_due :: "time_point \<Rightarrow> 'v alarm_set \<Rightarrow> 'v alarm_data list" where
  "alarm_due now xs = takeWhile (\<lambda>a. alarm_when a \<le> now) xs"

definition alarm_rest :: "time_point \<Rightarrow> 'v alarm_set \<Rightarrow> 'v alarm_set" where
  "alarm_rest now xs = dropWhile (\<lambda>a. alarm_when a \<le> now) xs"

definition alarm_tick ::
  "time_point \<Rightarrow> ('v alarm_data \<Rightarrow> 's \<Rightarrow> 's) \<Rightarrow> 'v alarm_set \<Rightarrow> 's \<Rightarrow> 'v alarm_set \<times> 's" where
  "alarm_tick now f xs s = (alarm_rest now xs, fold f (alarm_due now xs) s)"

definition alarm_empty :: "'v alarm_set \<Rightarrow> bool" where
  "alarm_empty xs \<longleftrightarrow> xs = []"

definition alarm_next :: "'v alarm_set \<Rightarrow> time_point option" where
  "alarm_next xs = (case xs of [] \<Rightarrow> None | a # _ \<Rightarrow> Some (alarm_when a))"

text \<open>The scoped handle: it removes its alarm when it is destroyed or cancelled.\<close>

record 'v scoped_alarm =
  sa_data :: "'v alarm_data"
  sa_armed :: bool

definition scoped_arm :: "'v alarm_data \<Rightarrow> 'v alarm_set \<Rightarrow> 'v scoped_alarm \<times> 'v alarm_set" where
  "scoped_arm d xs = (\<lparr>sa_data = d, sa_armed = True\<rparr>, alarm_insert d xs)"

definition scoped_cancel ::
  "'v scoped_alarm \<Rightarrow> 'v alarm_set \<Rightarrow> 'v scoped_alarm \<times> 'v alarm_set" where
  "scoped_cancel h xs =
     (if sa_armed h then (h\<lparr>sa_armed := False\<rparr>, alarm_remove (sa_data h) xs) else (h, xs))"

definition scoped_remaining :: "time_point \<Rightarrow> 'v scoped_alarm \<Rightarrow> int" where
  "scoped_remaining now h =
     (if sa_armed h
      then let rem = alarm_when (sa_data h) - now in if rem > 0 then rem else 0
      else 0)"

section \<open>The order invariant\<close>

definition alarms_ok :: "'v alarm_set \<Rightarrow> bool" where
  "alarms_ok xs \<longleftrightarrow> sorted (map alarm_when xs)"

lemma alarms_ok_simps [simp]:
  "alarms_ok []"
  "alarms_ok (a # xs) \<longleftrightarrow> (\<forall>b \<in> set xs. alarm_when a \<le> alarm_when b) \<and> alarms_ok xs"
  by (auto simp: alarms_ok_def)

lemma alarm_insert_Cons:
  "alarm_insert d (a # xs) =
     (if alarm_when a < alarm_when d then a # alarm_insert d xs else d # a # xs)"
  by (simp add: alarm_insert_def)

lemma alarm_insert_Nil [simp]: "alarm_insert d [] = [d]"
  by (simp add: alarm_insert_def)

lemma set_alarm_insert [simp]: "set (alarm_insert d xs) = insert d (set xs)"
  by (induction xs) (auto simp: alarm_insert_Cons)

lemma mset_alarm_insert [simp]: "mset (alarm_insert d xs) = add_mset d (mset xs)"
  by (induction xs) (auto simp: alarm_insert_Cons)

lemma alarm_insert_ok [ten_inv]: "alarms_ok xs \<Longrightarrow> alarms_ok (alarm_insert d xs)"
  by (induction xs) (auto simp: alarm_insert_Cons)

lemma alarm_remove_ok [ten_inv]: "alarms_ok xs \<Longrightarrow> alarms_ok (alarm_remove d xs)"
  by (simp add: alarm_remove_def alarms_ok_def sorted_map_remove1)

lemma alarm_remove_value_ok [ten_inv]: "alarms_ok xs \<Longrightarrow> alarms_ok (alarm_remove_value v xs)"
  by (induction xs) (auto simp: alarm_remove_value_def)

lemma alarm_rest_ok [ten_inv]: "alarms_ok xs \<Longrightarrow> alarms_ok (alarm_rest now xs)"
  by (induction xs) (auto simp: alarm_rest_def)

lemma alarm_due_rest: "alarm_due now xs @ alarm_rest now xs = xs"
  by (simp add: alarm_due_def alarm_rest_def)

lemma not_due_after:
  "alarms_ok (a # xs) \<Longrightarrow> \<not> alarm_when a \<le> now \<Longrightarrow> b \<in> set xs \<Longrightarrow> now < alarm_when b"
  by fastforce

lemma alarm_due_filter: "alarms_ok xs \<Longrightarrow> alarm_due now xs = filter (\<lambda>a. alarm_when a \<le> now) xs"
proof (induction xs)
  case (Cons a xs)
  then show ?case
    using not_due_after [OF Cons.prems, of now]
    by (cases "alarm_when a \<le> now") (auto simp: alarm_due_def filter_empty_conv not_le)
qed (simp add: alarm_due_def)

lemma alarm_rest_filter: "alarms_ok xs \<Longrightarrow> alarm_rest now xs = filter (\<lambda>a. now < alarm_when a) xs"
proof (induction xs)
  case (Cons a xs)
  then show ?case
    using not_due_after [OF Cons.prems, of now]
    by (cases "alarm_when a \<le> now") (auto simp: alarm_rest_def not_le filter_True)
qed (simp add: alarm_rest_def)

section \<open>Histories\<close>

datatype 'v alarm_op = Arm "'v alarm_data" | Disarm "'v alarm_data" | Tick time_point

text \<open>A history: arming, cancelling through the handle, ticks of the event loop.\<close>

primrec alarm_step :: "'v alarm_op \<Rightarrow> 'v alarm_set \<Rightarrow> 'v alarm_set" where
  "alarm_step (Arm d) xs = snd (scoped_arm d xs)"
| "alarm_step (Disarm d) xs = snd (scoped_cancel \<lparr>sa_data = d, sa_armed = True\<rparr> xs)"
| "alarm_step (Tick now) xs = fst (alarm_tick now (\<lambda>_ s. s) xs ())"

lemma alarm_step_ok [ten_inv]: "alarms_ok xs \<Longrightarrow> alarms_ok (alarm_step x xs)"
  by (cases x) (auto simp: scoped_arm_def scoped_cancel_def alarm_tick_def intro: ten_inv)

lemma alarm_history_ok: "alarms_ok xs \<Longrightarrow> alarms_ok (fold alarm_step ops xs)"
  by (induction ops arbitrary: xs) (auto intro: alarm_step_ok)

lemma alarm_next_min:
  "alarms_ok xs \<Longrightarrow> alarm_next xs = (if xs = [] then None else Some (Min (set (map alarm_when xs))))"
proof (cases xs)
  case (Cons a ys)
  assume "alarms_ok xs"
  with Cons have "Min (set (map alarm_when xs)) = alarm_when a"
    by (intro Min_eqI) auto
  then show ?thesis using Cons by (simp add: alarm_next_def)
qed (simp add: alarm_next_def)


end
