(* ===== verification/Scheduler.thy ===== *)
theory Scheduler
  imports Alarm
begin

text \<open>
  The task runtime of one thread: \<open>src/scheduler.cc\<close>, \<open>src/scheduler.hh\<close>, \<open>src/task.cc\<close>
  and \<open>src/task_impl.hh\<close>.  The state is the scheduler's run queues, its alarms and the
  flags of its tasks.  The cross-thread queue \<open>_dirtyq\<close> is the list of tasks other threads
  have readied and this thread has not yet moved to \<open>_readyq\<close>.  What the thread sees
  while it waits (the clock, tasks readied by other threads, file descriptor events) is
  the observation of a pass of the event loop, an argument of \<open>schedule\<close>; \<open>None\<close> is a
  schedule call that is still waiting when the observations end.

  A user function runs between two scheduler calls and can do anything these operations
  do, so the step relation lets the running task perform any of them.  The main results:
  in every reachable state a task is in the run queues exactly when its \<open>_ready\<close> flag is
  set and never twice; a pass of the loop with work to do dispatches a task and drops no
  other; an exiting task leaves the queues for good; joining never loses its wake-up.

  Task names and states (\<open>auxinfo\<close>), backtraces and logging are left out; the context
  switch itself is the change of \<open>current_task\<close>.
\<close>

section \<open>State\<close>

record task =
  t_ready :: bool
  t_canceled :: bool
  t_cancel_points :: nat
  t_exception :: "exn_ptr option"
  t_finished :: bool
  t_joiner :: "task_id option"

definition new_task :: task where
  "new_task = \<lparr>t_ready = False, t_canceled = False, t_cancel_points = 0, t_exception = None,
               t_finished = False, t_joiner = None\<rparr>"

record sched =
  os_task :: task_id
  user_tasks :: "task_id list"
  current_task :: task_id
  readyq :: "task_id list"
  dirtyq :: "task_id list"
  gctasks :: "task_id list"
  sched_now :: time_point
  alarms :: "task_id alarm_set"
  sched_canceled :: bool
  shutdown_initiated :: bool
  looping :: bool
  tasks :: "task_id \<Rightarrow> task"
  taskidgen :: nat

text \<open>The constructor: the thread's own stack is the task with the first id.\<close>

definition sched_init :: "time_point \<Rightarrow> sched" where
  "sched_init now =
     \<lparr>os_task = 1, user_tasks = [], current_task = 1, readyq = [], dirtyq = [], gctasks = [],
      sched_now = now, alarms = [], sched_canceled = False, shutdown_initiated = False,
      looping = False, tasks = (\<lambda>_. new_task), taskidgen = 1\<rparr>"

definition upd_task :: "task_id \<Rightarrow> (task \<Rightarrow> task) \<Rightarrow> sched \<Rightarrow> sched" where
  "upd_task t f s = s\<lparr>tasks := (tasks s)(t := f (tasks s t))\<rparr>"

section \<open>Making tasks ready\<close>

text \<open>
  \<open>scheduler::ready\<close>.  \<open>other\<close> says that the calling thread is not the scheduler's own:
  the task then goes through the dirty queue.
\<close>

definition sched_ready :: "bool \<Rightarrow> task_id \<Rightarrow> bool \<Rightarrow> sched \<Rightarrow> sched" where
  "sched_ready other t fr s =
     (if t_ready (tasks s t) then s
      else let s1 = upd_task t (t_ready_update (\<lambda>_. True)) s
           in if other then s1\<lparr>dirtyq := dirtyq s1 @ [t]\<rparr>
              else if fr then s1\<lparr>readyq := t # readyq s1\<rparr>
              else s1\<lparr>readyq := readyq s1 @ [t]\<rparr>)"

definition ready_for_io :: "task_id \<Rightarrow> sched \<Rightarrow> sched" where
  "ready_for_io t s =
     (if t_ready (tasks s t) then s
      else let s1 = upd_task t (t_ready_update (\<lambda>_. True)) s in s1\<lparr>readyq := readyq s1 @ [t]\<rparr>)"

definition unsafe_ready :: "task_id \<Rightarrow> sched \<Rightarrow> sched" where
  "unsafe_ready t s = s\<lparr>readyq := readyq s @ [t]\<rparr>"

text \<open>The loop pops the dirty queue in order and pushes each task to the front.\<close>

definition check_dirty_queue :: "sched \<Rightarrow> sched" where
  "check_dirty_queue s =
     s\<lparr>readyq := fold (\<lambda>t q. t # q) (dirtyq s) (readyq s), dirtyq := []\<rparr>"

definition fire_alarm :: "task_id alarm_data \<Rightarrow> sched \<Rightarrow> sched" where
  "fire_alarm a s =
     (let t = alarm_value a;
          s1 = (if alarm_exn a \<noteq> None \<and> t_exception (tasks s t) = None
                then upd_task t (t_exception_update (\<lambda>_. alarm_exn a)) s else s)
      in ready_for_io t s1)"

definition check_timeout_tasks :: "time_point \<Rightarrow> sched \<Rightarrow> sched" where
  "check_timeout_tasks clock s =
     (let s1 = s\<lparr>sched_now := clock\<rparr>;
          (rest, s2) = alarm_tick clock fire_alarm (alarms s1) s1
      in s2\<lparr>alarms := rest\<rparr>)"

section \<open>Cancelling\<close>

definition task_cancel :: "bool \<Rightarrow> task_id \<Rightarrow> sched \<Rightarrow> sched" where
  "task_cancel other t s =
     (if t_canceled (tasks s t) then s
      else sched_ready other t False (upd_task t (t_canceled_update (\<lambda>_. True)) s))"

definition shutdown :: "sched \<Rightarrow> sched" where
  "shutdown s =
     (if shutdown_initiated s then s
      else let s1 = fold (task_cancel False) (user_tasks s) (s\<lparr>shutdown_initiated := True\<rparr>)
           in task_cancel False (os_task s1) s1)"

definition check_canceled :: "sched \<Rightarrow> sched" where
  "check_canceled s = (if sched_canceled s then shutdown s else s)"

definition sched_cancel :: "sched \<Rightarrow> sched" where
  "sched_cancel s = s\<lparr>sched_canceled := True\<rparr>"

fun cancel_first :: "task_id \<Rightarrow> task_id list \<Rightarrow> sched \<Rightarrow> bool \<times> sched" where
  "cancel_first i [] s = (False, s)"
| "cancel_first i (t # ts) s = (if t = i then (True, task_cancel False t s) else cancel_first i ts s)"

definition cancel_task_by_id :: "task_id \<Rightarrow> sched \<Rightarrow> bool \<times> sched" where
  "cancel_task_by_id i s = cancel_first i (user_tasks s) s"

text \<open>
  \<open>task::impl::check_canceled\<close>: what a task throws on its way in or out of \<open>swap\<close>.
  Nothing is thrown outside a cancellation point; an injected exception is thrown once.
\<close>

datatype task_throw = Task_interrupted | Rethrow exn_ptr

definition task_check_canceled :: "task_id \<Rightarrow> sched \<Rightarrow> task_throw option \<times> sched" where
  "task_check_canceled t s =
     (let x = tasks s t
      in if t_canceled x \<and> t_cancel_points x > 0 then (Some Task_interrupted, s)
         else case t_exception x of
                Some e \<Rightarrow> if t_cancel_points x > 0
                          then (Some (Rethrow e), upd_task t (t_exception_update (\<lambda>_. None)) s)
                          else (None, s)
              | None \<Rightarrow> (None, s))"

definition cancellation_point :: "task_id \<Rightarrow> sched \<Rightarrow> sched" where
  "cancellation_point t s = upd_task t (t_cancel_points_update Suc) s"

definition end_cancellation_point :: "task_id \<Rightarrow> sched \<Rightarrow> sched" where
  "end_cancellation_point t s = upd_task t (t_cancel_points_update (\<lambda>n. n - 1)) s"

section \<open>The event loop\<close>

text \<open>
  One pass reads the clock; if nothing is ready it waits, during which other threads may
  ready tasks or cancel the scheduler and descriptors may become ready.
\<close>

record observation =
  obs_clock :: time_point
  obs_remote :: "task_id list"
  obs_cancel :: bool
  obs_io :: "task_id list"
  obs_clock_after :: time_point

definition sched_wait :: "observation \<Rightarrow> sched \<Rightarrow> sched" where
  "sched_wait ob s =
     (let s1 = check_dirty_queue s
      in if readyq s1 \<noteq> [] then s1
         else let s2 = fold (\<lambda>t. sched_ready True t False) (obs_remote ob) s1;
                  s3 = (if obs_cancel ob then sched_cancel s2 else s2);
                  s4 = fold ready_for_io (obs_io ob) s3
              in s4\<lparr>sched_now := obs_clock_after ob\<rparr>)"

definition schedule_pass :: "observation \<Rightarrow> sched \<Rightarrow> sched" where
  "schedule_pass ob s =
     (let s1 = check_timeout_tasks (obs_clock ob) (check_dirty_queue (check_canceled s))
      in if readyq s1 = [] then sched_wait ob s1 else s1)"

text \<open>
  The task at the head of the queue is swapped in; when it returns from its own call of
  \<open>schedule\<close> it clears the list of exited tasks.
\<close>

definition dispatch :: "sched \<Rightarrow> sched" where
  "dispatch s =
     (case readyq s of
        [] \<Rightarrow> s
      | t # q \<Rightarrow> (upd_task t (t_ready_update (\<lambda>_. False)) s)\<lparr>readyq := q, current_task := t\<rparr>)"

fun schedule_loop :: "observation list \<Rightarrow> sched \<Rightarrow> sched option" where
  "schedule_loop [] s = None"
| "schedule_loop (ob # obs) s =
     (let s1 = schedule_pass ob s
      in if readyq s1 = [] then schedule_loop obs s1 else Some (dispatch s1))"

definition schedule :: "observation list \<Rightarrow> sched \<Rightarrow> sched option" where
  "schedule obs s =
     schedule_loop obs
       (if looping s \<and> user_tasks s = [] then sched_ready False (os_task s) False s else s)"

definition schedule_return :: "task_id \<Rightarrow> sched \<Rightarrow> sched" where
  "schedule_return saved s = s\<lparr>current_task := saved, gctasks := []\<rparr>"

text \<open>\<open>wait_for_all\<close>: the os task runs the loop until no user task is left.\<close>

definition wait_for_all_enter :: "sched \<Rightarrow> sched" where
  "wait_for_all_enter s = s\<lparr>looping := True\<rparr>"

definition wait_for_all_leave :: "sched \<Rightarrow> sched option" where
  "wait_for_all_leave s = (if user_tasks s = [] then Some (s\<lparr>looping := False\<rparr>) else None)"

section \<open>Task life cycle\<close>

definition attach_task :: "task_id \<Rightarrow> sched \<Rightarrow> sched" where
  "attach_task t s = s\<lparr>user_tasks := user_tasks s @ [t]\<rparr>"

text \<open>\<open>task::task(f)\<close>: a fresh task, attached and put at the front of the run queue.\<close>

definition spawn :: "sched \<Rightarrow> task_id \<times> sched" where
  "spawn s =
     (let t = Suc (taskidgen s);
          s1 = s\<lparr>taskidgen := t, tasks := (tasks s)(t := new_task)\<rparr>
      in (t, sched_ready False t True (attach_task t s1)))"

text \<open>
  \<open>remove_task\<close>.  A task that was readied while it was exiting is taken out of the run
  queue again; if it is still in the dirty queue the loop moves that queue first.  \<open>None\<close>
  is the loop spinning on a task that is in neither queue.
\<close>

definition remove_task :: "task_id \<Rightarrow> sched \<Rightarrow> sched option" where
  "remove_task t s =
     (let was = t_ready (tasks s t);
          s1 = upd_task t (t_ready_update (\<lambda>_. True)) s;
          s2 = (if \<not> was then Some s1
                else if t \<in> set (readyq s1) then Some (s1\<lparr>readyq := remove1 t (readyq s1)\<rparr>)
                else let d = check_dirty_queue s1
                     in if t \<in> set (readyq d) then Some (d\<lparr>readyq := remove1 t (readyq d)\<rparr>)
                        else None)
      in map_option (\<lambda>s3. s3\<lparr>gctasks := gctasks s3 @ [t], user_tasks := remove1 t (user_tasks s3)\<rparr>) s2)"

text \<open>The end of \<open>trampoline\<close>: mark the task finished, wake its joiner, leave the scheduler.\<close>

definition finish_join :: "task_id \<Rightarrow> sched \<Rightarrow> sched" where
  "finish_join t s =
     (let j = t_joiner (tasks s t);
          s1 = upd_task t (t_finished_update (\<lambda>_. True)) s
      in case j of
           None \<Rightarrow> s1
         | Some u \<Rightarrow> upd_task t (t_joiner_update (\<lambda>_. None)) (sched_ready False u False s1))"

definition task_exit :: "task_id \<Rightarrow> sched \<Rightarrow> sched option" where
  "task_exit t s = remove_task t (finish_join t s)"

text \<open>
  \<open>task::impl::join\<close> by task \<open>u\<close> on task \<open>t\<close>: whether \<open>t\<close> had finished; otherwise the
  caller is recorded and must swap out.  A second joiner trips a \<open>CHECK\<close>: \<open>None\<close>.
\<close>

definition task_join :: "task_id \<Rightarrow> task_id \<Rightarrow> sched \<Rightarrow> (bool \<times> sched) option" where
  "task_join u t s =
     (if t_finished (tasks s t) then Some (True, s)
      else if t_joiner (tasks s t) \<noteq> None then None
      else Some (False, upd_task t (t_joiner_update (\<lambda>_. Some u)) s))"

text \<open>\<open>task::impl::yield\<close> up to its \<open>swap\<close>.\<close>

definition task_yield :: "task_id \<Rightarrow> sched \<Rightarrow> sched" where
  "task_yield t s =
     (let s1 = cancellation_point t s
      in if t_ready (tasks s1 t) then s1
         else unsafe_ready t (upd_task t (t_ready_update (\<lambda>_. True)) s1))"

definition arm_alarm :: "task_id \<Rightarrow> time_point \<Rightarrow> exn_ptr option \<Rightarrow> sched \<Rightarrow> sched" where
  "arm_alarm t at e s =
     s\<lparr>alarms := snd (scoped_arm \<lparr>alarm_value = t, alarm_when = at, alarm_exn = e\<rparr> (alarms s))\<rparr>"

definition disarm_alarm :: "task_id alarm_data \<Rightarrow> sched \<Rightarrow> sched" where
  "disarm_alarm d s =
     s\<lparr>alarms := snd (scoped_cancel \<lparr>sa_data = d, sa_armed = True\<rparr> (alarms s))\<rparr>"


section \<open>The run queue invariant\<close>

abbreviation runq :: "sched \<Rightarrow> task_id list" where
  "runq s \<equiv> readyq s @ dirtyq s"

definition known :: "sched \<Rightarrow> task_id \<Rightarrow> bool" where
  "known s t \<longleftrightarrow> t = os_task s \<or> t \<in> set (user_tasks s)"

text \<open>A task that exists, running or exited.\<close>

definition created :: "sched \<Rightarrow> task_id \<Rightarrow> bool" where
  "created s t \<longleftrightarrow> 1 \<le> t \<and> t \<le> taskidgen s"

definition sched_ok :: "sched \<Rightarrow> bool" where
  "sched_ok s \<longleftrightarrow>
     distinct (os_task s # user_tasks s)
     \<and> distinct (runq s)
     \<and> (\<forall>t \<in> set (runq s). known s t)
     \<and> (\<forall>t. known s t \<longrightarrow> t_ready (tasks s t) \<longrightarrow> t \<in> set (runq s))
     \<and> (\<forall>t \<in> set (runq s). t_ready (tasks s t))
     \<and> (\<forall>t. known s t \<longrightarrow> created s t)
     \<and> (\<forall>t. created s t \<longrightarrow> \<not> known s t \<longrightarrow> t_ready (tasks s t))
     \<and> (\<forall>t u. created s t \<longrightarrow> t_joiner (tasks s t) = Some u \<longrightarrow> created s u)
     \<and> alarms_ok (alarms s)
     \<and> (\<forall>a \<in> set (alarms s). known s (alarm_value a))"

text \<open>The parts of the state an operation on the queues and flags leaves alone.\<close>

definition same_tasks :: "sched \<Rightarrow> sched \<Rightarrow> bool" where
  "same_tasks s s' \<longleftrightarrow> os_task s' = os_task s \<and> user_tasks s' = user_tasks s
     \<and> taskidgen s' = taskidgen s
     \<and> set (alarms s') \<subseteq> set (alarms s) \<and> (alarms_ok (alarms s) \<longrightarrow> alarms_ok (alarms s'))
     \<and> (\<forall>t. t_joiner (tasks s' t) = t_joiner (tasks s t))"

lemma same_tasks_refl [simp]: "same_tasks s s"
  by (simp add: same_tasks_def)

lemma same_tasks_trans [trans]: "same_tasks a b \<Longrightarrow> same_tasks b c \<Longrightarrow> same_tasks a c"
  unfolding same_tasks_def by auto

lemma same_tasks_known: "same_tasks s s' \<Longrightarrow> known s' = known s"
  by (simp add: same_tasks_def known_def fun_eq_iff)

lemma same_tasks_created: "same_tasks s s' \<Longrightarrow> created s' = created s"
  by (simp add: same_tasks_def created_def fun_eq_iff)

text \<open>
  A state keeps the invariant if its queues and ready flags change together: \<open>sched_okI\<close>
  reduces each operation to that.
\<close>

lemma sched_okI:
  assumes "sched_ok s" and "same_tasks s s'"
    and "distinct (runq s')"
    and "\<And>t. t \<in> set (runq s') \<Longrightarrow> known s t \<and> t_ready (tasks s' t)"
    and "\<And>t. known s t \<Longrightarrow> t_ready (tasks s' t) \<Longrightarrow> t \<in> set (runq s')"
    and "\<And>t. \<not> known s t \<Longrightarrow> t_ready (tasks s t) \<Longrightarrow> t_ready (tasks s' t)"
  shows "sched_ok s'"
proof -
  have k: "known s' = known s" and c: "created s' = created s"
    using assms(2) by (rule same_tasks_known, rule same_tasks_created)
  have st: "os_task s' = os_task s" "user_tasks s' = user_tasks s"
    "\<And>t. t_joiner (tasks s' t) = t_joiner (tasks s t)"
    and al: "set (alarms s') \<subseteq> set (alarms s)" "alarms_ok (alarms s) \<Longrightarrow> alarms_ok (alarms s')"
    using assms(2) by (auto simp: same_tasks_def)
  have ex: "\<forall>t. created s t \<longrightarrow> \<not> known s t \<longrightarrow> t_ready (tasks s' t)"
    using assms(1,6) unfolding sched_ok_def by blast
  show ?thesis
    using assms(1) ex unfolding sched_ok_def k c st
    by (intro conjI) (use assms(3-5) al in blast)+
qed

lemma sched_okD:
  assumes "sched_ok s"
  shows "distinct (runq s)"
    and "t \<in> set (runq s) \<Longrightarrow> known s t \<and> t_ready (tasks s t)"
    and "known s t \<Longrightarrow> t_ready (tasks s t) \<Longrightarrow> t \<in> set (runq s)"
    and "known s t \<Longrightarrow> created s t"
    and "created s t \<Longrightarrow> \<not> t_ready (tasks s t) \<Longrightarrow> known s t"
    and "created s t \<Longrightarrow> t_joiner (tasks s t) = Some u \<Longrightarrow> created s u"
    and "alarms_ok (alarms s)"
    and "a \<in> set (alarms s) \<Longrightarrow> known s (alarm_value a)"
    and "distinct (os_task s # user_tasks s)"
  using assms unfolding sched_ok_def by blast+

definition keeps :: "(sched \<Rightarrow> sched) \<Rightarrow> sched \<Rightarrow> bool" where
  "keeps f s \<longleftrightarrow> (sched_ok s \<longrightarrow> sched_ok (f s) \<and> same_tasks s (f s))"

lemma keepsI:
  "(sched_ok s \<Longrightarrow> same_tasks s (f s)) \<Longrightarrow> (sched_ok s \<Longrightarrow> sched_ok (f s)) \<Longrightarrow> keeps f s"
  by (simp add: keeps_def)

lemma keeps_fold:
  assumes "\<And>x s. x \<in> set xs \<Longrightarrow> (\<forall>t \<in> S. created s t) \<Longrightarrow> keeps (f x) s"
    and "\<forall>t \<in> S. created s t"
  shows "keeps (fold f xs) s"
  using assms
proof (induction xs arbitrary: s)
  case (Cons x xs)
  have 1: "keeps (f x) s" using Cons.prems by simp
  show ?case
  proof (cases "sched_ok s")
    case True
    with 1 have ok: "sched_ok (f x s)" and st: "same_tasks s (f x s)" by (auto simp: keeps_def)
    have "\<forall>t \<in> S. created (f x s) t" using Cons.prems(2) same_tasks_created [OF st] by simp
    then have "keeps (fold f xs) (f x s)" using Cons.prems(1) by (intro Cons.IH) auto
    then show ?thesis using ok st by (auto simp: keeps_def intro: same_tasks_trans)
  qed (simp add: keeps_def)
qed (simp add: keeps_def)

lemma keeps_comp:
  "keeps g s \<Longrightarrow> (sched_ok (g s) \<Longrightarrow> same_tasks s (g s) \<Longrightarrow> keeps f (g s)) \<Longrightarrow> keeps (\<lambda>s. f (g s)) s"
  by (auto simp: keeps_def intro: same_tasks_trans)

lemma upd_task_simps [simp]:
  "os_task (upd_task t f s) = os_task s" "user_tasks (upd_task t f s) = user_tasks s"
  "readyq (upd_task t f s) = readyq s" "dirtyq (upd_task t f s) = dirtyq s"
  "alarms (upd_task t f s) = alarms s" "taskidgen (upd_task t f s) = taskidgen s"
  "current_task (upd_task t f s) = current_task s" "gctasks (upd_task t f s) = gctasks s"
  "looping (upd_task t f s) = looping s"
  "tasks (upd_task t f s) u = (if u = t then f (tasks s t) else tasks s u)"
  by (simp_all add: upd_task_def)

text \<open>Changing anything but a ready flag or a joiner is harmless.\<close>

lemma keeps_upd_task:
  assumes "\<And>x. t_ready (f x) = t_ready x" and "\<And>x. t_joiner (f x) = t_joiner x"
  shows "keeps (upd_task t f) s"
proof (rule keepsI)
  show st: "same_tasks s (upd_task t f s)" by (simp add: same_tasks_def assms)
  have r: "t_ready (tasks (upd_task t f s) u) = t_ready (tasks s u)" for u by (simp add: assms)
  show "sched_ok (upd_task t f s)" if "sched_ok s"
    by (rule sched_okI [OF that st]; unfold r upd_task_simps(1-9))
      (use sched_okD(1-3) [OF that] in blast)+
qed

lemma keeps_push:
  assumes "created s t" and "\<not> t_ready (tasks s t)"
    and "set (runq s') = insert t (set (runq s))" and "length (runq s') = Suc (length (runq s))"
    and "same_tasks s s'" and "tasks s' = tasks (upd_task t (t_ready_update (\<lambda>_. True)) s)"
    and "sched_ok s"
  shows "sched_ok s'"
proof (rule sched_okI [OF assms(7,5)])
  note d = sched_okD [OF assms(7)]
  have notin: "t \<notin> set (runq s)" using d(2) assms(2) by blast
  have "card (set (runq s')) = length (runq s')"
    using notin d(1) assms(3,4) distinct_card [OF d(1)] by simp
  then show "distinct (runq s')" by (rule card_distinct)
  have r: "t_ready (tasks s' u) \<longleftrightarrow> u = t \<or> t_ready (tasks s u)" for u using assms(6) by simp
  show "known s u \<and> t_ready (tasks s' u)" if "u \<in> set (runq s')" for u
    using that d(2,5) assms(1,2) unfolding r assms(3) by blast
  show "u \<in> set (runq s')" if "known s u" "t_ready (tasks s' u)" for u
    using that d(3) unfolding r assms(3) by blast
  show "t_ready (tasks s' u)" if "t_ready (tasks s u)" for u
    using that assms(6) by simp
qed

lemma sched_ready_keeps [ten_inv]: "created s t \<Longrightarrow> keeps (sched_ready other t fr) s"
  by (rule keepsI)
    (auto simp: sched_ready_def Let_def same_tasks_def intro!: keeps_push [of s t])

lemma ready_for_io_keeps [ten_inv]: "created s t \<Longrightarrow> keeps (ready_for_io t) s"
  by (rule keepsI)
    (auto simp: ready_for_io_def Let_def same_tasks_def intro!: keeps_push [of s t])


lemma keeps_frame:
  assumes "same_tasks s (f s)" "readyq (f s) = readyq s" "dirtyq (f s) = dirtyq s"
    "tasks (f s) = tasks s"
  shows "keeps f s"
proof (rule keepsI)
  show "same_tasks s (f s)" by (rule assms(1))
  show "sched_ok (f s)" if "sched_ok s"
    by (rule sched_okI [OF that assms(1)]; unfold assms(2-))
      (use sched_okD(1-3) [OF that] in blast)+
qed

lemma keeps_id [simp]: "keeps (\<lambda>s. s) s"
  by (simp add: keeps_def)

lemma keepsD:
  "keeps f s \<Longrightarrow> sched_ok s \<Longrightarrow> sched_ok (f s)"
  "keeps f s \<Longrightarrow> sched_ok s \<Longrightarrow> same_tasks s (f s)"
  by (simp_all add: keeps_def)

lemma fold_push: "fold (\<lambda>t q. t # q) xs ys = rev xs @ ys"
  by (induction xs arbitrary: ys) simp_all

lemma check_dirty_queue_keeps [ten_inv]: "keeps check_dirty_queue s"
proof (rule keepsI)
  let ?s = "check_dirty_queue s"
  show st: "same_tasks s ?s" by (simp add: check_dirty_queue_def same_tasks_def)
  show "sched_ok ?s" if "sched_ok s"
  proof (rule sched_okI [OF that st])
    have eq: "set (runq ?s) = set (runq s)" "tasks ?s = tasks s"
      by (auto simp: check_dirty_queue_def fold_push)
    note d = sched_okD [OF that]
    show "distinct (runq ?s)" using d(1) by (auto simp: check_dirty_queue_def fold_push)
    show "known s t \<and> t_ready (tasks ?s t)" if "t \<in> set (runq ?s)" for t
      using that d(2) unfolding eq by blast
    show "t \<in> set (runq ?s)" if "known s t" "t_ready (tasks ?s t)" for t
      using that d(3) unfolding eq by blast
    show "t_ready (tasks ?s t)" if "t_ready (tasks s t)" for t using that unfolding eq .
  qed
qed

lemma fire_alarm_keeps [ten_inv]: "created s (alarm_value a) \<Longrightarrow> keeps (fire_alarm a) s"
proof -
  let ?f = "\<lambda>s. if alarm_exn a \<noteq> None \<and> t_exception (tasks s (alarm_value a)) = None
    then upd_task (alarm_value a) (t_exception_update (\<lambda>_. alarm_exn a)) s else s"
  assume c: "created s (alarm_value a)"
  have 1: "keeps ?f s"
    using keeps_upd_task [of "t_exception_update (\<lambda>_. alarm_exn a)" "alarm_value a" s]
    by (auto simp: keeps_def)
  have "keeps (\<lambda>s. ready_for_io (alarm_value a) (?f s)) s"
    by (rule keeps_comp [OF 1]) (use c in \<open>simp add: ready_for_io_keeps same_tasks_created\<close>)
  then show ?thesis by (simp add: fire_alarm_def keeps_def Let_def)
qed

lemma check_timeout_tasks_keeps [ten_inv]: "keeps (check_timeout_tasks clock) s"
proof (cases "sched_ok s")
  case True
  let ?s1 = "s\<lparr>sched_now := clock\<rparr>"
  let ?due = "alarm_due clock (alarms s)"
  have "keeps (\<lambda>s. s\<lparr>sched_now := clock\<rparr>) s" by (rule keeps_frame) (simp_all add: same_tasks_def)
  then have ok1: "sched_ok ?s1" and st1: "same_tasks s ?s1" using True by (auto simp: keeps_def)
  have al: "known s (alarm_value a)" if "a \<in> set (alarms s)" for a
    using True that unfolding sched_ok_def by blast
  have "keeps (fold fire_alarm ?due) ?s1"
  proof (rule keeps_fold [where S = "alarm_value ` set (alarms s)"])
    show "keeps (fire_alarm a) s'"
      if "a \<in> set ?due" "\<forall>t \<in> alarm_value ` set (alarms s). created s' t" for a s'
      using that set_takeWhileD [of a _ "alarms s"]
      by (intro fire_alarm_keeps) (auto simp: alarm_due_def)
    show "\<forall>t \<in> alarm_value ` set (alarms s). created ?s1 t"
      using al sched_okD(4) [OF True] same_tasks_created [OF st1] by auto
  qed
  then have ok2: "sched_ok (fold fire_alarm ?due ?s1)" and st2: "same_tasks ?s1 (fold fire_alarm ?due ?s1)"
    using ok1 by (auto simp: keeps_def)
  have al2: "alarms (fold fire_alarm xs s') = alarms s'" for xs s'
    by (induction xs arbitrary: s') (simp_all add: fire_alarm_def ready_for_io_def Let_def)
  have "keeps (\<lambda>s'. s'\<lparr>alarms := alarm_rest clock (alarms s)\<rparr>) (fold fire_alarm ?due ?s1)"
    by (rule keeps_frame)
      (auto simp: same_tasks_def al2 alarm_rest_def alarm_rest_ok [unfolded alarm_rest_def]
        dest: set_dropWhileD)
  then show ?thesis
    using ok2 st1 st2 unfolding keeps_def check_timeout_tasks_def alarm_tick_def
    by (auto simp: Let_def intro: same_tasks_trans)
qed (simp add: keeps_def)


lemma task_cancel_keeps [ten_inv]: "created s t \<Longrightarrow> keeps (task_cancel other t) s"
proof -
  assume c: "created s t"
  have "keeps (\<lambda>s. sched_ready other t False (upd_task t (t_canceled_update (\<lambda>_. True)) s)) s"
    by (rule keeps_comp [where g = "upd_task t (t_canceled_update (\<lambda>_. True))"])
      (use c in \<open>simp_all add: keeps_upd_task sched_ready_keeps same_tasks_created\<close>)
  then show ?thesis by (simp add: task_cancel_def keeps_def)
qed

lemma known_created: "sched_ok s \<Longrightarrow> t \<in> set (user_tasks s) \<or> t = os_task s \<Longrightarrow> created s t"
  by (rule sched_okD(4)) (auto simp: known_def)

lemma shutdown_keeps [ten_inv]: "keeps shutdown s"
proof (cases "sched_ok s \<and> \<not> shutdown_initiated s")
  case True
  let ?g = "\<lambda>s. s\<lparr>shutdown_initiated := True\<rparr>"
  have 1: "keeps ?g s" by (rule keeps_frame) (simp_all add: same_tasks_def)
  have 2: "keeps (fold (task_cancel False) (user_tasks s)) (?g s)"
    by (rule keeps_fold [where S = "set (user_tasks s)"])
      (use True in \<open>auto intro!: task_cancel_keeps simp: created_def dest: known_created [of s]\<close>)
  have 12: "keeps (\<lambda>s'. fold (task_cancel False) (user_tasks s) (?g s')) s"
    by (rule keeps_comp [OF 1]) (rule 2)
  have "keeps (\<lambda>s'. task_cancel False (os_task s) (fold (task_cancel False) (user_tasks s) (?g s'))) s"
    by (rule keeps_comp [OF 12])
      (use True in \<open>auto intro!: task_cancel_keeps simp: same_tasks_created dest: known_created [of s]\<close>)
  moreover have "os_task (fold (task_cancel False) (user_tasks s) (?g s)) = os_task s"
    using keepsD(2) [OF 12] True by (simp add: same_tasks_def)
  ultimately show ?thesis using True by (simp add: keeps_def shutdown_def Let_def)
qed (auto simp: keeps_def shutdown_def)

lemma check_canceled_keeps [ten_inv]: "keeps check_canceled s"
  using shutdown_keeps [of s] by (simp add: check_canceled_def keeps_def)

lemma sched_cancel_keeps [ten_inv]: "keeps sched_cancel s"
  by (rule keeps_frame) (simp_all add: sched_cancel_def same_tasks_def)

lemma cancel_first_keeps:
  "sched_ok s \<Longrightarrow> \<forall>t \<in> set ts. created s t
   \<Longrightarrow> sched_ok (snd (cancel_first i ts s)) \<and> same_tasks s (snd (cancel_first i ts s))"
  using keepsD [OF task_cancel_keeps] by (induction ts) auto

lemma sched_ready_remote_keeps:
  "\<forall>t \<in> set ts. created s t \<Longrightarrow> keeps (fold (\<lambda>t. sched_ready True t False) ts) s"
  by (rule keeps_fold [where S = "set ts"]) (auto intro: sched_ready_keeps)

lemma ready_for_io_list_keeps:
  "\<forall>t \<in> set ts. created s t \<Longrightarrow> keeps (fold ready_for_io ts) s"
  by (rule keeps_fold [where S = "set ts"]) (auto intro: ready_for_io_keeps)

text \<open>The tasks an observation names exist.\<close>

definition obs_ok :: "sched \<Rightarrow> observation \<Rightarrow> bool" where
  "obs_ok s ob \<longleftrightarrow> (\<forall>t \<in> set (obs_remote ob) \<union> set (obs_io ob). created s t)"

lemma obs_ok_same: "same_tasks s s' \<Longrightarrow> obs_ok s' = obs_ok s"
  by (simp add: obs_ok_def fun_eq_iff same_tasks_created)

lemma sched_wait_keeps [ten_inv]:
  assumes "obs_ok s ob" shows "keeps (sched_wait ob) s"
proof -
  let ?r = "fold (\<lambda>t. sched_ready True t False) (obs_remote ob)"
  let ?c = "\<lambda>s. if obs_cancel ob then sched_cancel s else s"
  let ?i = "fold ready_for_io (obs_io ob)"
  let ?n = "\<lambda>s. s\<lparr>sched_now := obs_clock_after ob\<rparr>"
  note cr = assms [unfolded obs_ok_def]
  have 1: "keeps (\<lambda>s. ?r (check_dirty_queue s)) s"
    by (rule keeps_comp [OF check_dirty_queue_keeps])
      (use cr in \<open>auto intro!: sched_ready_remote_keeps simp: same_tasks_created\<close>)
  have 2: "keeps (\<lambda>s. ?c (?r (check_dirty_queue s))) s"
    by (rule keeps_comp [where f = ?c, OF 1]) (cases "obs_cancel ob"; simp add: sched_cancel_keeps)
  have 3: "keeps (\<lambda>s. ?i (?c (?r (check_dirty_queue s)))) s"
    by (rule keeps_comp [where f = ?i, OF 2])
      (use cr in \<open>auto intro!: ready_for_io_list_keeps simp: same_tasks_created\<close>)
  have "keeps (\<lambda>s. ?n (?i (?c (?r (check_dirty_queue s))))) s"
    by (rule keeps_comp [where f = ?n, OF 3]) (rule keeps_frame, simp_all add: same_tasks_def)
  then show ?thesis
    using check_dirty_queue_keeps [of s] unfolding keeps_def sched_wait_def Let_def by simp
qed

lemma schedule_pass_keeps [ten_inv]:
  assumes "obs_ok s ob" shows "keeps (schedule_pass ob) s"
proof -
  let ?f = "\<lambda>s. check_timeout_tasks (obs_clock ob) (check_dirty_queue (check_canceled s))"
  have 1: "keeps (\<lambda>s. check_dirty_queue (check_canceled s)) s"
    by (rule keeps_comp [OF check_canceled_keeps]) (rule check_dirty_queue_keeps)
  have 2: "keeps ?f s" by (rule keeps_comp [OF 1]) (rule check_timeout_tasks_keeps)
  have "keeps (\<lambda>s. sched_wait ob (?f s)) s"
    by (rule keeps_comp [OF 2]) (rule sched_wait_keeps, use assms in \<open>simp add: obs_ok_same\<close>)
  with 2 show ?thesis unfolding keeps_def schedule_pass_def Let_def by simp
qed

lemma dispatch_keeps [ten_inv]: "keeps dispatch s"
proof (cases "readyq s")
  case (Cons t q)
  let ?s = "dispatch s"
  show ?thesis
  proof (rule keepsI)
    show st: "same_tasks s ?s" using Cons by (simp add: dispatch_def same_tasks_def)
    show "sched_ok ?s" if "sched_ok s"
    proof (rule sched_okI [OF that st])
      note d = sched_okD [OF that]
      have q: "runq ?s = q @ dirtyq s" and rq: "runq s = t # q @ dirtyq s"
        using Cons by (simp_all add: dispatch_def)
      have r: "t_ready (tasks ?s u) \<longleftrightarrow> u \<noteq> t \<and> t_ready (tasks s u)" for u
        using Cons by (simp add: dispatch_def)
      have dis: "distinct (t # q @ dirtyq s)" using d(1) unfolding rq .
      then show "distinct (runq ?s)" unfolding q by simp
      have tk: "known s t" using d(2) [of t] unfolding rq by auto
      show "known s u \<and> t_ready (tasks ?s u)" if "u \<in> set (runq ?s)" for u
        using that d(2) [of u] dis unfolding q r rq by auto
      show "u \<in> set (runq ?s)" if "known s u" "t_ready (tasks ?s u)" for u
        using that d(3) [of u] unfolding q r rq by auto
      show "t_ready (tasks ?s u)" if "\<not> known s u" "t_ready (tasks s u)" for u
        using that tk unfolding r by auto
    qed
  qed
qed (simp add: dispatch_def keeps_def)


lemma schedule_loop_keeps:
  assumes "schedule_loop obs s = Some s'" and "\<forall>ob \<in> set obs. obs_ok s ob" and "sched_ok s"
  shows "sched_ok s' \<and> same_tasks s s'"
  using assms
proof (induction obs arbitrary: s)
  case (Cons ob obs)
  let ?s1 = "schedule_pass ob s"
  have ok: "sched_ok ?s1" and st: "same_tasks s ?s1"
    using keepsD [OF schedule_pass_keeps [of s ob]] Cons.prems by auto
  show ?case
  proof (cases "readyq ?s1 = []")
    case True
    then show ?thesis
      using Cons.IH [of ?s1] Cons.prems ok st same_tasks_trans [OF st]
      by (auto simp: obs_ok_same)
  next
    case False
    then show ?thesis
      using Cons.prems(1) keepsD [OF dispatch_keeps ok] same_tasks_trans [OF st] by (auto simp: Let_def)
  qed
qed simp

lemma schedule_keeps [ten_inv]:
  assumes "schedule obs s = Some s'" and "\<forall>ob \<in> set obs. obs_ok s ob" and "sched_ok s"
  shows "sched_ok s'" and "same_tasks s s'"
proof -
  let ?s1 = "if looping s \<and> user_tasks s = [] then sched_ready False (os_task s) False s else s"
  have ok: "sched_ok ?s1" and st: "same_tasks s ?s1"
    using keepsD [OF sched_ready_keeps [of s "os_task s"]] known_created assms(3) by auto
  have "\<forall>ob \<in> set obs. obs_ok ?s1 ob" using assms(2) unfolding obs_ok_same [OF st] .
  moreover have "schedule_loop obs ?s1 = Some s'" using assms(1) unfolding schedule_def .
  ultimately show "sched_ok s'" "same_tasks s s'"
    using schedule_loop_keeps ok same_tasks_trans [OF st] by blast+
qed

lemma spawn_ok [ten_inv]: "sched_ok s \<Longrightarrow> sched_ok (snd (spawn s))"
proof -
  assume ok: "sched_ok s"
  let ?t = "Suc (taskidgen s)"
  let ?s1 = "attach_task ?t (s\<lparr>taskidgen := ?t, tasks := (tasks s)(?t := new_task)\<rparr>)"
  have fresh: "\<not> created s ?t" by (simp add: created_def)
  then have nk: "\<not> known s ?t" using sched_okD(4) [OF ok] by blast
  have k: "known ?s1 u \<longleftrightarrow> u = ?t \<or> known s u" and c: "created ?s1 u \<longleftrightarrow> u = ?t \<or> created s u" for u
    by (auto simp: known_def created_def attach_task_def)
  have q: "runq ?s1 = runq s" and al: "alarms ?s1 = alarms s"
    and ti: "os_task ?s1 = os_task s" "user_tasks ?s1 = user_tasks s @ [?t]"
    by (simp_all add: attach_task_def)
  have r: "t_ready (tasks ?s1 u) \<longleftrightarrow> u \<noteq> ?t \<and> t_ready (tasks s u)"
    and j: "t_joiner (tasks ?s1 u) = (if u = ?t then None else t_joiner (tasks s u))" for u
    by (auto simp: attach_task_def new_task_def)
  have "sched_ok ?s1"
    unfolding sched_ok_def k c q al r j ti
  proof (intro conjI)
    show "distinct (os_task s # user_tasks s @ [?t])"
      using sched_okD(9) [OF ok] nk unfolding known_def by auto
    show "\<forall>u v. (u = ?t \<or> created s u) \<longrightarrow>
        (if u = ?t then None else t_joiner (tasks s u)) = Some v \<longrightarrow> v = ?t \<or> created s v"
      using sched_okD(6) [OF ok] fresh by (metis option.distinct(1))
  qed (use sched_okD [OF ok] nk fresh in blast)+
  then show ?thesis
    using keepsD(1) [OF sched_ready_keeps [of ?s1 ?t False True]]
    by (simp add: spawn_def Let_def attach_task_def created_def)
qed


text \<open>The tasks and queues after an exit; the invariant makes the spin of \<open>remove_task\<close> unreachable.\<close>

lemma remove_task_queues:
  assumes ok: "sched_ok s" and "t \<in> set (user_tasks s)"
  obtains s2 where "remove_task t s =
      Some (s2\<lparr>gctasks := gctasks s2 @ [t], user_tasks := remove1 t (user_tasks s2)\<rparr>)"
    and "distinct (runq s2)" and "set (runq s2) = set (runq s) - {t}"
    and "same_tasks s s2" and "alarms s2 = alarms s"
    and "\<And>u. tasks s2 u = (tasks s u)\<lparr>t_ready := u = t \<or> t_ready (tasks s u)\<rparr>"
proof -
  let ?s1 = "upd_task t (t_ready_update (\<lambda>_. True)) s"
  let ?d = "check_dirty_queue ?s1"
  note d = sched_okD [OF ok]
  have tk: "known s t" using assms(2) by (simp add: known_def)
  have ts: "tasks ?s1 u = (tasks s u)\<lparr>t_ready := u = t \<or> t_ready (tasks s u)\<rparr>" for u by auto
  have dq: "readyq ?d = rev (dirtyq s) @ readyq s" "dirtyq ?d = []" "tasks ?d = tasks ?s1"
    "alarms ?d = alarms s" by (simp_all add: check_dirty_queue_def fold_push)
  consider "\<not> t_ready (tasks s t)" | "t_ready (tasks s t)" "t \<in> set (readyq s)"
    | "t_ready (tasks s t)" "t \<notin> set (readyq s)" "t \<in> set (dirtyq s)"
    using d(3) [OF tk] by auto
  then show thesis
  proof cases
    case 1
    then have "t \<notin> set (runq s)" using d(2) by blast
    with 1 show ?thesis using d(1) ts
      by (intro that [of ?s1]) (simp_all add: remove_task_def same_tasks_def)
  next
    case 2
    then show ?thesis using d(1) ts
      by (intro that [of "?s1\<lparr>readyq := remove1 t (readyq s)\<rparr>"])
        (auto simp: remove_task_def same_tasks_def Let_def)
  next
    case 3
    have "distinct (rev (dirtyq s) @ readyq s)" using d(1) by auto
    then have rd: "distinct (remove1 t (rev (dirtyq s) @ readyq s))"
      "set (remove1 t (rev (dirtyq s) @ readyq s)) = set (runq s) - {t}"
      by (rule distinct_remove1, subst set_remove1_eq) auto
    from 3 show ?thesis using ts dq rd
      by (intro that [of "?d\<lparr>readyq := remove1 t (readyq ?d)\<rparr>"])
        (auto simp: remove_task_def same_tasks_def Let_def check_dirty_queue_def fold_push)
  qed
qed

lemma remove_task_ok [ten_inv]:
  assumes ok: "sched_ok s" and t: "t \<in> set (user_tasks s)"
    and na: "\<forall>a \<in> set (alarms s). alarm_value a \<noteq> t"
  obtains s' where "remove_task t s = Some s'" and "sched_ok s'" and "\<not> known s' t"
    and "set (runq s') = set (runq s) - {t}" and "taskidgen s' = taskidgen s"
    and "\<And>u. known s' u \<Longrightarrow> known s u"
    and "\<And>u. t_finished (tasks s' u) = t_finished (tasks s u)"
    and "\<And>u. t_joiner (tasks s' u) = t_joiner (tasks s u)"
proof -
  obtain s2 where r: "remove_task t s =
      Some (s2\<lparr>gctasks := gctasks s2 @ [t], user_tasks := remove1 t (user_tasks s2)\<rparr>)"
    and q: "distinct (runq s2)" "set (runq s2) = set (runq s) - {t}"
    and st: "same_tasks s s2" and al: "alarms s2 = alarms s"
    and ts: "\<And>u. tasks s2 u = (tasks s u)\<lparr>t_ready := u = t \<or> t_ready (tasks s u)\<rparr>"
    using remove_task_queues [OF ok t] by blast
  let ?s = "s2\<lparr>gctasks := gctasks s2 @ [t], user_tasks := remove1 t (user_tasks s2)\<rparr>"
  note d = sched_okD [OF ok]
  have us: "os_task s2 = os_task s" "user_tasks s2 = user_tasks s" "taskidgen s2 = taskidgen s"
    using st by (auto simp: same_tasks_def)
  have k: "known ?s u \<longleftrightarrow> known s u \<and> u \<noteq> t" for u
    using d(9) t by (auto simp: known_def us)
  have c: "created ?s = created s" by (simp add: created_def us fun_eq_iff)
  have rq: "runq ?s = runq s2" by simp
  have fl: "t_ready (tasks ?s u) \<longleftrightarrow> u = t \<or> t_ready (tasks s u)"
    "t_joiner (tasks ?s u) = t_joiner (tasks s u)" for u by (simp_all add: ts)
  have "sched_ok ?s"
    unfolding sched_ok_def k c rq q(2) fl
  proof (intro conjI)
    show "distinct (os_task ?s # user_tasks ?s)" using d(9) by (auto simp: us)
    show "distinct (runq s2)" by (rule q(1))
    show "alarms_ok (alarms ?s)" using d(7) by (simp add: al)
    show "\<forall>a \<in> set (alarms ?s). known s (alarm_value a) \<and> alarm_value a \<noteq> t"
      using d(8) na by (simp add: al)
  qed (use d in blast)+
  then show thesis
    by (rule that [OF r]) (use k q us fl in \<open>auto simp: ts\<close>)
qed

lemma finish_join_ok [ten_inv]:
  assumes ok: "sched_ok s" and c: "created s t"
  shows "sched_ok (finish_join t s)" and "known (finish_join t s) = known s"
    and "taskidgen (finish_join t s) = taskidgen s" and "alarms (finish_join t s) = alarms s"
    and "set (runq s) \<subseteq> set (runq (finish_join t s))"
proof -
  let ?s1 = "upd_task t (t_finished_update (\<lambda>_. True)) s"
  have ok1: "sched_ok ?s1" using keepsD(1) [OF keeps_upd_task ok] by simp
  have c1: "created ?s1 u = created s u" for u by (simp add: created_def)
  show "sched_ok (finish_join t s)"
  proof (cases "t_joiner (tasks s t)")
    case None then show ?thesis using ok1 by (simp add: finish_join_def)
  next
    case (Some u)
    let ?s2 = "sched_ready False u False ?s1"
    let ?s3 = "upd_task t (t_joiner_update (\<lambda>_. None)) ?s2"
    have "created ?s1 u" using sched_okD(6) [OF ok c Some] c1 by simp
    then have ok2: "sched_ok ?s2" using keepsD(1) [OF sched_ready_keeps ok1] by simp
    have kc: "known ?s3 = known ?s2" "created ?s3 = created ?s2"
      by (simp_all add: known_def created_def fun_eq_iff)
    have fl: "t_ready (tasks ?s3 v) = t_ready (tasks ?s2 v)"
      "t_joiner (tasks ?s3 v) = (if v = t then None else t_joiner (tasks ?s2 v))" for v by simp_all
    have "sched_ok ?s3"
      unfolding sched_ok_def kc fl upd_task_simps(1-9)
      by (intro conjI) (use sched_okD [OF ok2] in \<open>blast | metis option.distinct(1)\<close>)+
    then show ?thesis using Some by (simp add: finish_join_def Let_def)
  qed
qed (auto simp: finish_join_def Let_def known_def fun_eq_iff sched_ready_def split: option.splits)


lemma task_join_ok [ten_inv]:
  assumes "sched_ok s" and "created s u" and "task_join u t s = Some (b, s')"
  shows "sched_ok s'" and "known s' = known s" and "taskidgen s' = taskidgen s"
proof -
  let ?s = "upd_task t (t_joiner_update (\<lambda>_. Some u)) s"
  have kc: "known ?s = known s" "created ?s = created s"
    by (simp_all add: known_def created_def fun_eq_iff)
  have fl: "t_ready (tasks ?s v) = t_ready (tasks s v)"
    "t_joiner (tasks ?s v) = (if v = t then Some u else t_joiner (tasks s v))" for v by simp_all
  have "sched_ok ?s"
    unfolding sched_ok_def kc fl upd_task_simps(1-9)
    by (intro conjI) (use sched_okD [OF assms(1)] assms(2) in \<open>blast | metis option.inject\<close>)+
  then show "sched_ok s'" "known s' = known s" "taskidgen s' = taskidgen s"
    using assms(1,3) kc by (auto simp: task_join_def split: if_splits)
qed

lemma task_yield_keeps [ten_inv]: "created s t \<Longrightarrow> keeps (task_yield t) s"
proof -
  assume c: "created s t"
  have "keeps (\<lambda>s. ready_for_io t (cancellation_point t s)) s"
    by (rule keeps_comp [where g = "cancellation_point t"])
      (use c in \<open>simp_all add: cancellation_point_def keeps_upd_task ready_for_io_keeps same_tasks_created
          cancellation_point_def [abs_def]\<close>)
  moreover have "task_yield t = (\<lambda>s. ready_for_io t (cancellation_point t s))"
    by (simp add: fun_eq_iff task_yield_def ready_for_io_def unsafe_ready_def Let_def)
  ultimately show ?thesis by simp
qed

lemma arm_alarm_ok [ten_inv]:
  assumes ok: "sched_ok s" and k: "known s t" shows "sched_ok (arm_alarm t at e s)"
proof -
  have kc: "known (arm_alarm t at e s) = known s" "created (arm_alarm t at e s) = created s"
    by (simp_all add: arm_alarm_def known_def created_def fun_eq_iff)
  have f: "runq (arm_alarm t at e s) = runq s" "tasks (arm_alarm t at e s) = tasks s"
    "os_task (arm_alarm t at e s) = os_task s" "user_tasks (arm_alarm t at e s) = user_tasks s"
    by (simp_all add: arm_alarm_def)
  show ?thesis
    unfolding sched_ok_def kc f
  proof (intro conjI)
    show "alarms_ok (alarms (arm_alarm t at e s))"
      using alarm_insert_ok [OF sched_okD(7) [OF ok]] by (simp add: arm_alarm_def scoped_arm_def)
    show "\<forall>a \<in> set (alarms (arm_alarm t at e s)). known s (alarm_value a)"
      using k sched_okD(8) [OF ok] by (simp add: arm_alarm_def scoped_arm_def)
  qed (use sched_okD [OF ok] in blast)+
qed

lemma disarm_alarm_keeps [ten_inv]: "keeps (disarm_alarm d) s"
  by (rule keeps_frame)
    (auto simp: same_tasks_def disarm_alarm_def scoped_cancel_def alarm_remove_def
      intro: alarm_remove_ok [unfolded alarm_remove_def] dest: set_mp [OF set_remove1_subset])

lemma task_check_canceled_keeps [ten_inv]: "keeps (\<lambda>s. snd (task_check_canceled t s)) s"
  using keeps_upd_task [of "t_exception_update (\<lambda>_. None)" t s]
  by (auto simp: task_check_canceled_def keeps_def Let_def split: option.splits)

section \<open>Executions\<close>

text \<open>
  The steps of a thread: what the running task does between two context switches, what
  other threads do to this scheduler, and the event loop.  \<open>other\<close> steps are calls from
  another thread.  A task that exits has destroyed the alarms on its stack, and marking
  it finished and removing it are separate steps: other threads may act in between.
\<close>

inductive sched_step :: "sched \<Rightarrow> sched \<Rightarrow> bool" where
  step_spawn: "sched_step s (snd (spawn s))"
| step_ready: "created s t \<Longrightarrow> sched_step s (sched_ready other t fr s)"
| step_io: "created s t \<Longrightarrow> sched_step s (ready_for_io t s)"
| step_cancel: "created s t \<Longrightarrow> sched_step s (task_cancel other t s)"
| step_cancel_id: "sched_step s (snd (cancel_task_by_id i s))"
| step_sched_cancel: "sched_step s (sched_cancel s)"
| step_throw: "sched_step s (snd (task_check_canceled t s))"
| step_point: "sched_step s (cancellation_point t s)"
| step_end_point: "sched_step s (end_cancellation_point t s)"
| step_yield: "created s t \<Longrightarrow> sched_step s (task_yield t s)"
| step_arm: "known s t \<Longrightarrow> sched_step s (arm_alarm t at e s)"
| step_disarm: "sched_step s (disarm_alarm d s)"
| step_join: "created s u \<Longrightarrow> task_join u t s = Some (b, s') \<Longrightarrow> sched_step s s'"
| step_finish: "created s t \<Longrightarrow> sched_step s (finish_join t s)"
| step_remove: "t \<in> set (user_tasks s) \<Longrightarrow> \<forall>a \<in> set (alarms s). alarm_value a \<noteq> t
    \<Longrightarrow> remove_task t s = Some s' \<Longrightarrow> sched_step s s'"
| step_schedule: "\<forall>ob \<in> set obs. obs_ok s ob \<Longrightarrow> schedule obs s = Some s' \<Longrightarrow> sched_step s s'"
| step_return: "sched_step s (schedule_return t s)"
| step_loop: "sched_step s (wait_for_all_enter s)"
| step_unloop: "wait_for_all_leave s = Some s' \<Longrightarrow> sched_step s s'"

inductive_cases sched_stepE: "sched_step s s'"

text \<open>The states a scheduler reaches from its construction.\<close>

definition sched_reach :: "sched \<Rightarrow> bool" where
  "sched_reach s \<longleftrightarrow> (\<exists>now. sched_step\<^sup>*\<^sup>* (sched_init now) s)"

lemma sched_init_ok: "sched_ok (sched_init now)"
  by (auto simp: sched_ok_def sched_init_def known_def created_def new_task_def)

lemma schedule_return_keeps: "keeps (schedule_return t) s"
  by (rule keeps_frame) (simp_all add: schedule_return_def same_tasks_def)

lemma wait_for_all_enter_keeps: "keeps wait_for_all_enter s"
  by (rule keeps_frame) (simp_all add: wait_for_all_enter_def same_tasks_def)

lemma looping_off_keeps: "keeps (\<lambda>s. s\<lparr>looping := False\<rparr>) s"
  by (rule keeps_frame) (simp_all add: same_tasks_def)

lemma cancellation_point_keeps: "keeps (cancellation_point t) s" "keeps (end_cancellation_point t) s"
  unfolding cancellation_point_def [abs_def] end_cancellation_point_def [abs_def]
  by (rule keeps_upd_task; simp)+

lemmas sched_keeps =
  sched_ready_keeps ready_for_io_keeps task_cancel_keeps sched_cancel_keeps
  task_check_canceled_keeps cancellation_point_keeps task_yield_keeps disarm_alarm_keeps
  schedule_return_keeps wait_for_all_enter_keeps looping_off_keeps

lemma sched_step_ok: "sched_step s s' \<Longrightarrow> sched_ok s \<Longrightarrow> sched_ok s'"
proof (induction rule: sched_step.induct)
  case (step_cancel_id s i)
  then show ?case
    using cancel_first_keeps [of s "user_tasks s" i] known_created [of s]
    by (simp add: cancel_task_by_id_def)
next
  case (step_remove t s s')
  then show ?case using remove_task_ok [of s t] by (metis option.inject)
next
  case (step_unloop s s')
  then show ?case using keepsD(1) [OF looping_off_keeps] by (auto simp: wait_for_all_leave_def split: if_splits)
qed (auto intro: spawn_ok arm_alarm_ok task_join_ok(1) finish_join_ok(1) schedule_keeps(1)
    sched_keeps [THEN keepsD(1)])

lemma sched_reach_ok: "sched_reach s \<Longrightarrow> sched_ok s"
proof -
  have "sched_ok s \<Longrightarrow> sched_ok s'" if "sched_step\<^sup>*\<^sup>* s s'" for s s'
    using that by (induction rule: rtranclp_induct) (auto intro: sched_step_ok)
  then show "sched_reach s \<Longrightarrow> sched_ok s" unfolding sched_reach_def using sched_init_ok by blast
qed


section \<open>Progress of the event loop\<close>

text \<open>The operations of a pass only add to the queues, and only the tick removes alarms.\<close>

definition grows :: "(sched \<Rightarrow> sched) \<Rightarrow> bool" where
  "grows f \<longleftrightarrow> (\<forall>s. set (runq s) \<subseteq> set (runq (f s)) \<and> set (readyq s) \<subseteq> set (readyq (f s))
     \<and> (\<forall>t. t_ready (tasks s t) \<longrightarrow> t_ready (tasks (f s) t)) \<and> alarms (f s) = alarms s)"

lemma growsD:
  assumes "grows f"
  shows "set (runq s) \<subseteq> set (runq (f s))" and "set (readyq s) \<subseteq> set (readyq (f s))"
    and "t_ready (tasks s t) \<Longrightarrow> t_ready (tasks (f s) t)" and "alarms (f s) = alarms s"
  using assms unfolding grows_def by blast+

lemma grows_id: "grows (\<lambda>s. s)"
  by (simp add: grows_def)

lemma grows_comp:
  assumes f: "grows f" and g: "grows g" shows "grows (\<lambda>s. f (g s))"
  unfolding grows_def
proof (intro allI conjI impI)
  fix s t
  show "set (runq s) \<subseteq> set (runq (f (g s)))" by (rule order_trans [OF growsD(1) [OF g] growsD(1) [OF f]])
  show "set (readyq s) \<subseteq> set (readyq (f (g s)))" by (rule order_trans [OF growsD(2) [OF g] growsD(2) [OF f]])
  show "t_ready (tasks (f (g s)) t)" if "t_ready (tasks s t)" by (intro growsD(3) [OF f] growsD(3) [OF g] that)
  show "alarms (f (g s)) = alarms s" by (simp add: growsD(4) [OF f] growsD(4) [OF g])
qed

lemma grows_fold: "(\<And>x. grows (f x)) \<Longrightarrow> grows (fold f xs)"
proof (induction xs)
  case (Cons x xs)
  then show ?case using grows_comp [of "fold f xs" "f x"] by (simp add: comp_def)
qed (simp add: grows_def)

lemma sched_ready_grows: "grows (sched_ready other t fr)"
  by (auto simp: grows_def sched_ready_def Let_def)

lemma ready_for_io_grows: "grows (ready_for_io t)"
  by (auto simp: grows_def ready_for_io_def Let_def)

lemma task_cancel_grows: "grows (task_cancel other t)"
  by (auto simp: grows_def task_cancel_def sched_ready_def Let_def)

lemma fire_alarm_grows: "grows (fire_alarm a)"
  by (auto simp: grows_def fire_alarm_def ready_for_io_def Let_def)

lemma check_canceled_grows: "grows check_canceled"
proof -
  have g: "grows (fold (task_cancel False) ts)" for ts by (rule grows_fold) (rule task_cancel_grows)
  have i: "grows (\<lambda>s. s\<lparr>shutdown_initiated := True\<rparr>)" by (simp add: grows_def)
  have t: "grows (\<lambda>s. task_cancel False u (fold (task_cancel False) ts (s\<lparr>shutdown_initiated := True\<rparr>)))" for u ts
    by (rule grows_comp [OF task_cancel_grows grows_comp [OF g i]])
  have "\<exists>f. grows f \<and> check_canceled s = f s" for s
    unfolding check_canceled_def shutdown_def Let_def using t grows_id by (simp, blast)
  then show ?thesis unfolding grows_def by metis
qed

lemma check_dirty_queue_facts:
  "set (readyq (check_dirty_queue s)) = set (runq s)" "dirtyq (check_dirty_queue s) = []"
  "tasks (check_dirty_queue s) = tasks s" "alarms (check_dirty_queue s) = alarms s"
  by (auto simp: check_dirty_queue_def fold_push)

lemma dirtyq_fire_alarm: "dirtyq (fold fire_alarm xs s) = dirtyq s"
  by (induction xs arbitrary: s) (simp_all add: fire_alarm_def ready_for_io_def Let_def)

lemma check_timeout_tasks_facts:
  shows "set (readyq s) \<subseteq> set (readyq (check_timeout_tasks c s))"
    and "dirtyq (check_timeout_tasks c s) = dirtyq s"
    and "alarms (check_timeout_tasks c s) = alarm_rest c (alarms s)"
    and "a \<in> set (alarm_due c (alarms s)) \<Longrightarrow> t_ready (tasks (check_timeout_tasks c s) (alarm_value a))"
proof -
  have g: "grows (fold fire_alarm xs)" for xs by (rule grows_fold) (rule fire_alarm_grows)
  show "set (readyq s) \<subseteq> set (readyq (check_timeout_tasks c s))"
    using growsD(2) [OF g, of "s\<lparr>sched_now := c\<rparr>"] by (simp add: check_timeout_tasks_def alarm_tick_def)
  show "dirtyq (check_timeout_tasks c s) = dirtyq s" "alarms (check_timeout_tasks c s) = alarm_rest c (alarms s)"
    by (simp_all add: check_timeout_tasks_def alarm_tick_def dirtyq_fire_alarm)
  have "a \<in> set xs \<Longrightarrow> t_ready (tasks (fold fire_alarm xs s') (alarm_value a))" for xs s'
  proof (induction xs arbitrary: s')
    case (Cons b xs)
    have "t_ready (tasks (fire_alarm b s') (alarm_value b))"
      by (simp add: fire_alarm_def ready_for_io_def Let_def)
    then show ?case using Cons growsD(3) [OF g] by auto
  qed simp
  then show "a \<in> set (alarm_due c (alarms s)) \<Longrightarrow> t_ready (tasks (check_timeout_tasks c s) (alarm_value a))"
    by (simp add: check_timeout_tasks_def alarm_tick_def)
qed

lemma due_iff: "alarms_ok xs \<Longrightarrow> a \<in> set (alarm_due c xs) \<longleftrightarrow> a \<in> set xs \<and> alarm_when a \<le> c"
  by (simp add: alarm_due_filter)

lemma schedule_pass_ready:
  assumes ok: "sched_ok s"
    and work: "runq s \<noteq> [] \<or> (\<exists>a \<in> set (alarms s). alarm_when a \<le> obs_clock ob)"
  shows "readyq (schedule_pass ob s) \<noteq> []"
    and "set (runq s) \<subseteq> set (readyq (schedule_pass ob s))"
    and "\<forall>a \<in> set (alarms s). alarm_when a \<le> obs_clock ob \<longrightarrow>
           a \<notin> set (alarms (schedule_pass ob s)) \<and> alarm_value a \<in> set (readyq (schedule_pass ob s))"
    and "sched_ok (schedule_pass ob s)"
proof -
  let ?a = "check_canceled s" and ?c = "obs_clock ob"
  let ?b = "check_dirty_queue ?a"
  let ?d = "check_timeout_tasks ?c ?b"
  have al: "alarms ?b = alarms s" and sub: "set (runq s) \<subseteq> set (readyq ?b)"
    using growsD(1) [OF check_canceled_grows, of s]
    by (simp_all add: check_dirty_queue_facts growsD(4) [OF check_canceled_grows])
  have okb: "sched_ok ?b" and okd: "sched_ok ?d" and st: "same_tasks s ?d"
    using keepsD [OF check_canceled_keeps ok] keepsD [OF check_dirty_queue_keeps [of ?a]]
      keepsD [OF check_timeout_tasks_keeps [of ?c ?b]] by (auto intro: same_tasks_trans)
  have rd: "set (runq ?d) = set (readyq ?d)" by (simp add: check_timeout_tasks_facts check_dirty_queue_facts)
  have sub2: "set (runq s) \<subseteq> set (readyq ?d)" using sub check_timeout_tasks_facts(1) by blast
  have due: "alarm_value a \<in> set (readyq ?d) \<and> a \<notin> set (alarms ?d)"
    if "a \<in> set (alarms s)" "alarm_when a \<le> ?c" for a
  proof -
    have "t_ready (tasks ?d (alarm_value a))"
      by (rule check_timeout_tasks_facts(4)) (use that due_iff [OF sched_okD(7) [OF ok]] al in simp)
    moreover have "known ?d (alarm_value a)"
      using sched_okD(8) [OF ok that(1)] by (simp add: same_tasks_known [OF st])
    ultimately show ?thesis
      using sched_okD(3) [OF okd] rd that(2) sched_okD(7) [OF ok]
      by (auto simp: check_timeout_tasks_facts(3) al alarm_rest_filter)
  qed
  have ne: "readyq ?d \<noteq> []" using work sub2 due by fastforce
  then have "schedule_pass ob s = ?d" by (simp add: schedule_pass_def)
  then show "readyq (schedule_pass ob s) \<noteq> []" "set (runq s) \<subseteq> set (readyq (schedule_pass ob s))"
    "\<forall>a \<in> set (alarms s). alarm_when a \<le> obs_clock ob \<longrightarrow>
           a \<notin> set (alarms (schedule_pass ob s)) \<and> alarm_value a \<in> set (readyq (schedule_pass ob s))"
    "sched_ok (schedule_pass ob s)"
    using ne sub2 due okd by auto
qed


text \<open>With nothing due and no shutdown, the front of the merged queues runs next.\<close>

lemma schedule_next:
  assumes "rev (dirtyq s) @ readyq s = t # q" and "alarms s = []" and "\<not> sched_canceled s" and "\<not> looping s"
  shows "schedule (ob # obs) s =
    Some ((upd_task t (t_ready_update (\<lambda>_. False)) s)
      \<lparr>readyq := q, dirtyq := [], sched_now := obs_clock ob, current_task := t\<rparr>)"
proof -
  have "schedule_pass ob s = s\<lparr>readyq := t # q, dirtyq := [], sched_now := obs_clock ob\<rparr>"
    using assms by (cases s) (simp add: schedule_pass_def check_canceled_def check_dirty_queue_def
      fold_push check_timeout_tasks_def alarm_tick_def alarm_due_def alarm_rest_def)
  then show ?thesis using assms(4) by (simp add: schedule_def dispatch_def upd_task_def Let_def)
qed

section \<open>Exited tasks\<close>

definition gone :: "sched \<Rightarrow> task_id \<Rightarrow> bool" where
  "gone s t \<longleftrightarrow> created s t \<and> \<not> known s t"

lemma same_tasks_gone: "same_tasks s s' \<Longrightarrow> gone s t \<Longrightarrow> gone s' t"
  by (simp add: gone_def same_tasks_known same_tasks_created)

lemma goneI: "gone s t \<Longrightarrow> (known s' t \<Longrightarrow> known s t) \<Longrightarrow> taskidgen s \<le> taskidgen s' \<Longrightarrow> gone s' t"
  by (auto simp: gone_def created_def)

lemma sched_step_gone: "sched_step s s' \<Longrightarrow> sched_ok s \<Longrightarrow> gone s t \<Longrightarrow> gone s' t"
proof (induction rule: sched_step.induct)
  case (step_spawn s)
  then show ?case
    by (auto simp: gone_def known_def created_def spawn_def sched_ready_def attach_task_def Let_def)
next
  case (step_cancel_id s i)
  then show ?case
    using cancel_first_keeps [of s "user_tasks s" i] known_created [of s]
    by (auto simp: cancel_task_by_id_def intro: same_tasks_gone)
next
  case (step_arm s u at e)
  then show ?case by (auto simp: gone_def known_def created_def arm_alarm_def)
next
  case (step_join s u t' b s')
  have "known s' = known s" "taskidgen s' = taskidgen s"
    by (rule task_join_ok(2,3) [OF step_join(3,1,2)])+
  then show ?case using step_join(4) by (simp add: gone_def created_def)
next
  case (step_finish s t')
  show ?case
    by (rule goneI [OF step_finish(3)]) (simp_all add: finish_join_ok(2,3) [OF step_finish(2,1)])
next
  case (step_remove t' s s')
  then obtain s'' where "remove_task t' s = Some s''" "taskidgen s'' = taskidgen s"
    "\<And>u. known s'' u \<Longrightarrow> known s u" using remove_task_ok [of s t'] by metis
  then show ?case using step_remove(3,5) by (auto intro: goneI [of s])
next
  case (step_schedule obs s s')
  then show ?case using schedule_keeps(2) same_tasks_gone by blast
next
  case (step_unloop s s')
  then show ?case by (auto simp: wait_for_all_leave_def gone_def known_def created_def split: if_splits)
qed (auto intro: sched_keeps [THEN keepsD(2), THEN same_tasks_gone])

lemma gone_forever:
  assumes "sched_step\<^sup>*\<^sup>* s s'" and "sched_ok s" and "gone s t"
  shows "sched_ok s' \<and> gone s' t"
  using assms by (induction rule: rtranclp_induct) (auto intro: sched_step_ok sched_step_gone)

lemma sched_reach_init: "sched_reach (sched_init now)"
  unfolding sched_reach_def by blast

lemma sched_reach_step: "sched_reach s \<Longrightarrow> sched_step s s' \<Longrightarrow> sched_reach s'"
  unfolding sched_reach_def by (meson rtranclp.rtrancl_into_rtrancl)

section \<open>Properties\<close>









text \<open>
  \<open>join\<close> can return before its task has finished.  Task 1 joins the running task 2 and is
  swapped out; another thread cancels task 1, which readies it, and the next \<open>schedule\<close>
  resumes it inside \<open>join\<close> although task 2 still runs and keeps task 1 as its joiner.
\<close>

theorem join_interrupted:
  "let ob = \<lparr>obs_clock = 0, obs_remote = [], obs_cancel = False, obs_io = [], obs_clock_after = 0\<rparr>;
       s0 = snd (spawn (sched_init 0));
       (finished, s1) = the (task_join 1 2 s0);
       s2 = the (schedule [ob] s1);
       s3 = task_cancel True 1 s2;
       s4 = the (schedule [ob] s3)
   in \<not> finished \<and> current_task s2 = 2 \<and> current_task s4 = 1
      \<and> \<not> t_finished (tasks s4 2) \<and> t_joiner (tasks s4 2) = Some 1"
proof -
  let ?ob = "\<lparr>obs_clock = 0, obs_remote = [], obs_cancel = False, obs_io = [], obs_clock_after = 0\<rparr>"
  define s0 where "s0 = snd (spawn (sched_init 0))"
  define s1 where "s1 = upd_task 2 (t_joiner_update (\<lambda>_. Some 1)) s0"
  have s0: "readyq s0 = [2]" "dirtyq s0 = []" "alarms s0 = []" "\<not> sched_canceled s0" "\<not> looping s0"
    "tasks s0 = (\<lambda>_. new_task)(2 := new_task\<lparr>t_ready := True\<rparr>)"
    by (simp_all add: s0_def spawn_def attach_task_def sched_init_def sched_ready_def Let_def
      upd_task_def new_task_def numeral_2_eq_2)
  have j: "task_join 1 2 s0 = Some (False, s1)" by (simp add: task_join_def s1_def s0 new_task_def)
  have s1: "readyq s1 = [2]" "dirtyq s1 = []" "alarms s1 = []" "\<not> sched_canceled s1" "\<not> looping s1"
    "t_joiner (tasks s1 2) = Some 1" "\<not> t_finished (tasks s1 2)" "\<not> t_ready (tasks s1 1)"
    "\<not> t_canceled (tasks s1 1)"
    by (simp_all add: s1_def upd_task_def s0 new_task_def)
  define s2 where "s2 = the (schedule [?ob] s1)"
  have s2: "readyq s2 = []" "dirtyq s2 = []" "alarms s2 = []" "\<not> sched_canceled s2" "\<not> looping s2"
    "t_joiner (tasks s2 2) = Some 1" "\<not> t_finished (tasks s2 2)" "\<not> t_ready (tasks s2 1)"
    "\<not> t_canceled (tasks s2 1)" "current_task s2 = 2"
    using schedule_next [of s1 2 "[]"] s1 by (simp_all add: s2_def upd_task_def)
  define s3 where "s3 = task_cancel True 1 s2"
  have s3: "readyq s3 = []" "dirtyq s3 = [1]" "alarms s3 = []" "\<not> sched_canceled s3" "\<not> looping s3"
    "t_joiner (tasks s3 2) = Some 1" "\<not> t_finished (tasks s3 2)"
    using s2 by (simp_all add: s3_def task_cancel_def sched_ready_def upd_task_def Let_def)
  define s4 where "s4 = the (schedule [?ob] s3)"
  have s4: "t_joiner (tasks s4 2) = Some 1" "\<not> t_finished (tasks s4 2)" "current_task s4 = 1"
    using schedule_next [of s3 1 "[]"] s3 by (simp_all add: s4_def upd_task_def)
  show ?thesis
    unfolding Let_def s0_def [symmetric] j option.sel case_prod_conv s2_def [symmetric]
      s3_def [symmetric] s4_def [symmetric]
    using s2(10) s4 by blast
qed

end
