(* ===== verification/Qutex.thy ===== *)
theory Qutex
  imports Fifo
begin

text \<open>
  The task-aware mutex of \<open>src/qutex.cc\<close> and \<open>include/ten/task/qutex.hh\<close>.  Every access to
  the owner and the wait queue is under the internal mutex \<open>_m\<close>, so each definition below
  is one atomic section: the entry of \<open>lock\<close>, the test after each wake-up, \<open>try_lock\<close> and
  \<open>unlock_or_giveup\<close>, which returns the task it readies.

  The steps of any number of tasks are interleaved freely, with wake-ups that other code
  causes and with exceptions thrown out of the wait.  The results: at most one task is
  between \<open>lock\<close> and \<open>unlock\<close>; while tasks wait, the lock belongs to a task that runs or
  has been readied; and ownership is handed over in order of arrival.
\<close>

section \<open>State and operations\<close>

record qutex =
  q_waiting :: "task_id list"
  q_owner :: "task_id option"

definition qutex_new :: qutex where
  "qutex_new = \<lparr>q_waiting = [], q_owner = None\<rparr>"

definition lock_enter :: "task_id \<Rightarrow> qutex \<Rightarrow> bool \<times> qutex" where
  "lock_enter t q =
     (if q_owner q = None then (True, q\<lparr>q_owner := Some t\<rparr>)
      else (False, q\<lparr>q_waiting := q_waiting q @ [t]\<rparr>))"

definition lock_recheck :: "task_id \<Rightarrow> qutex \<Rightarrow> bool" where
  "lock_recheck t q \<longleftrightarrow> q_owner q = Some t"

text \<open>\<open>got\<close> says that the internal mutex was free; \<open>try_lock\<close> does not wait for it.\<close>

definition try_lock :: "bool \<Rightarrow> task_id \<Rightarrow> qutex \<Rightarrow> bool \<times> qutex" where
  "try_lock got t q =
     (if got \<and> q_owner q = None then (True, q\<lparr>q_owner := Some t\<rparr>) else (False, q))"

definition unlock_or_giveup :: "task_id \<Rightarrow> qutex \<Rightarrow> task_id option \<times> qutex" where
  "unlock_or_giveup t q =
     (if q_owner q = Some t
      then case q_waiting q of
             [] \<Rightarrow> (None, q\<lparr>q_owner := None\<rparr>)
           | w # ws \<Rightarrow> (Some w, q\<lparr>q_waiting := ws, q_owner := Some w\<rparr>)
      else (None, q\<lparr>q_waiting := remove1 t (q_waiting q)\<rparr>))"

section \<open>Tasks using one qutex\<close>

text \<open>
  \<open>in_lock\<close> are the tasks inside the wait loop of \<open>lock\<close>, \<open>inside\<close> those that \<open>lock\<close> or
  \<open>try_lock\<close> has let through, \<open>woken\<close> those with a pending wake-up.
\<close>

record qsys =
  qx :: qutex
  in_lock :: "task_id list"
  inside :: "task_id list"
  woken :: "task_id list"

definition qsys_init :: qsys where
  "qsys_init = \<lparr>qx = qutex_new, in_lock = [], inside = [], woken = []\<rparr>"

datatype q_op =
  Lock task_id | Resume task_id | Throw task_id | Unlock task_id | Try_lock bool task_id
| Spurious task_id

primrec q_step :: "q_op \<Rightarrow> qsys \<Rightarrow> qsys" where
  "q_step (Lock t) s =
     (let (got, q) = lock_enter t (qx s)
      in if got then s\<lparr>qx := q, inside := t # inside s\<rparr> else s\<lparr>qx := q, in_lock := t # in_lock s\<rparr>)"
| "q_step (Resume t) s =
     (let s1 = s\<lparr>woken := removeAll t (woken s)\<rparr>
      in if lock_recheck t (qx s) then s1\<lparr>in_lock := removeAll t (in_lock s), inside := t # inside s\<rparr>
         else s1)"
| "q_step (Throw t) s =
     (let (r, q) = unlock_or_giveup t (qx s)
      in s\<lparr>qx := q, in_lock := removeAll t (in_lock s), woken := set_option_list r @ woken s\<rparr>)"
| "q_step (Unlock t) s =
     (let (r, q) = unlock_or_giveup t (qx s)
      in s\<lparr>qx := q, inside := removeAll t (inside s), woken := set_option_list r @ woken s\<rparr>)"
| "q_step (Try_lock got t) s =
     (let (b, q) = try_lock got t (qx s)
      in if b then s\<lparr>qx := q, inside := t # inside s\<rparr> else s)"
| "q_step (Spurious t) s = s\<lparr>woken := t # woken s\<rparr>"

text \<open>
  What the callers do: a task in \<open>lock\<close> does nothing else, no task locks recursively, only
  a task that holds the lock unlocks it, and a task only runs after a wake-up.
\<close>

primrec q_legal :: "q_op \<Rightarrow> qsys \<Rightarrow> bool" where
  "q_legal (Lock t) s \<longleftrightarrow> t \<notin> set (in_lock s) \<and> t \<notin> set (inside s)"
| "q_legal (Resume t) s \<longleftrightarrow> t \<in> set (in_lock s) \<and> t \<in> set (woken s)"
| "q_legal (Throw t) s \<longleftrightarrow> t \<in> set (in_lock s)"
| "q_legal (Unlock t) s \<longleftrightarrow> t \<in> set (inside s)"
| "q_legal (Try_lock got t) s \<longleftrightarrow> t \<notin> set (in_lock s)"
| "q_legal (Spurious t) s \<longleftrightarrow> True"

section \<open>Invariant\<close>

definition qsys_ok :: "qsys \<Rightarrow> bool" where
  "qsys_ok s \<longleftrightarrow> distinct (q_waiting (qx s)) \<and>
     (case q_owner (qx s) of
        None \<Rightarrow> q_waiting (qx s) = [] \<and> in_lock s = [] \<and> inside s = []
      | Some t \<Rightarrow> t \<notin> set (q_waiting (qx s)) \<and>
          (inside s = [t] \<and> set (in_lock s) = set (q_waiting (qx s))
           \<or> inside s = [] \<and> set (in_lock s) = insert t (set (q_waiting (qx s))) \<and> t \<in> set (woken s)))"

lemma qsys_init_ok: "qsys_ok qsys_init"
  by (simp add: qsys_ok_def qsys_init_def qutex_new_def)

lemmas q_ops = lock_enter_def lock_recheck_def try_lock_def unlock_or_giveup_def Let_def

lemma qsys_ok_cases:
  assumes "qsys_ok s"
  obtains (free) "q_owner (qx s) = None" "q_waiting (qx s) = []" "in_lock s = []" "inside s = []"
  | (held) t where "q_owner (qx s) = Some t" "distinct (t # q_waiting (qx s))" "inside s = [t]"
      "\<And>u. u \<in> set (in_lock s) \<longleftrightarrow> u \<in> set (q_waiting (qx s))"
  | (handed) t where "q_owner (qx s) = Some t" "distinct (t # q_waiting (qx s))" "inside s = []"
      "\<And>u. u \<in> set (in_lock s) \<longleftrightarrow> u = t \<or> u \<in> set (q_waiting (qx s))" "t \<in> set (woken s)"
  using assms by (auto simp: qsys_ok_def split: option.splits)

lemma qsys_ok_free: "q_owner (qx s) = None \<Longrightarrow> q_waiting (qx s) = [] \<Longrightarrow> in_lock s = [] \<Longrightarrow> inside s = []
   \<Longrightarrow> qsys_ok s"
  by (simp add: qsys_ok_def)

lemma qsys_ok_held: "q_owner (qx s) = Some t \<Longrightarrow> distinct (t # q_waiting (qx s)) \<Longrightarrow> inside s = [t]
   \<Longrightarrow> (\<And>u. u \<in> set (in_lock s) \<longleftrightarrow> u \<in> set (q_waiting (qx s))) \<Longrightarrow> qsys_ok s"
  by (auto simp: qsys_ok_def)

lemma qsys_ok_handed: "q_owner (qx s) = Some t \<Longrightarrow> distinct (t # q_waiting (qx s)) \<Longrightarrow> inside s = []
   \<Longrightarrow> (\<And>u. u \<in> set (in_lock s) \<longleftrightarrow> u = t \<or> u \<in> set (q_waiting (qx s))) \<Longrightarrow> t \<in> set (woken s)
   \<Longrightarrow> qsys_ok s"
  by (auto simp: qsys_ok_def)

text \<open>Passing the lock on, from a task that leaves it.\<close>

lemma hand_over_ok:
  assumes "q_owner (qx s) = Some t" and "distinct (t # q_waiting (qx s))" and "inside s' = []"
    and "qx s' = snd (unlock_or_giveup t (qx s))"
    and "\<And>u. u \<in> set (in_lock s') \<longleftrightarrow> u \<in> set (q_waiting (qx s))"
    and "woken s' = set_option_list (fst (unlock_or_giveup t (qx s))) @ woken s"
  shows "qsys_ok s'"
proof (cases "q_waiting (qx s)")
  case Nil
  then have "in_lock s' = []" using assms(5) by (cases "in_lock s'") auto
  then show ?thesis using assms Nil by (intro qsys_ok_free) (simp_all add: q_ops)
next
  case (Cons w ws)
  then show ?thesis using assms by (intro qsys_ok_handed [of _ w]) (simp_all add: q_ops)
qed

lemma q_step_ok [ten_inv]:
  assumes "qsys_ok s" and "q_legal x s" shows "qsys_ok (q_step x s)"
  using assms(1)
proof (cases rule: qsys_ok_cases)
  case free
  then show ?thesis
    using assms(2) by (cases x) (auto simp: q_ops intro: qsys_ok_free qsys_ok_held)
next
  case (held t)
  show ?thesis
  proof (cases x)
    case (Unlock u)
    then show ?thesis using held assms(2)
      by (intro hand_over_ok [of s t]) (auto simp: Let_def split: prod.split)
  next
    case (Throw u)
    then have "u \<noteq> t" using held assms(2) by auto
    then show ?thesis using held Throw by (intro qsys_ok_held [of _ t]) (auto simp: q_ops)
  next
    case (Lock u)
    then show ?thesis using held assms(2) by (intro qsys_ok_held [of _ t]) (auto simp: q_ops)
  next
    case (Resume u)
    then have "u \<noteq> t" using held assms(2) by auto
    then show ?thesis using held Resume by (intro qsys_ok_held [of _ t]) (auto simp: q_ops)
  next
    case (Try_lock got u)
    then show ?thesis using held by (intro qsys_ok_held [of _ t]) (auto simp: q_ops)
  next
    case (Spurious u)
    then show ?thesis using held by (intro qsys_ok_held [of _ t]) auto
  qed
next
  case (handed t)
  show ?thesis
  proof (cases x)
    case (Throw u)
    show ?thesis
    proof (cases "u = t")
      case True
      then show ?thesis using handed Throw
        by (intro hand_over_ok [of s t]) (auto simp: Let_def split: prod.split)
    next
      case False
      then show ?thesis using handed Throw
        by (intro qsys_ok_handed [of _ t]) (auto simp: q_ops)
    qed
  next
    case (Resume u)
    show ?thesis
    proof (cases "u = t")
      case True
      then show ?thesis using handed Resume by (intro qsys_ok_held [of _ t]) (auto simp: q_ops)
    next
      case False
      then show ?thesis using handed Resume by (intro qsys_ok_handed [of _ t]) (auto simp: q_ops)
    qed
  next
    case (Lock u)
    then show ?thesis using handed assms(2) by (intro qsys_ok_handed [of _ t]) (auto simp: q_ops)
  next
    case (Try_lock got u)
    then show ?thesis using handed by (intro qsys_ok_handed [of _ t]) (auto simp: q_ops)
  next
    case (Spurious u)
    then show ?thesis using handed by (intro qsys_ok_handed [of _ t]) auto
  qed (use handed assms(2) in simp_all)
qed

text \<open>Arrivals and grants: what a step adds to the queue for the lock and what it takes off.\<close>

primrec q_arrived :: "q_op \<Rightarrow> qsys \<Rightarrow> task_id list" where
  "q_arrived (Lock t) s = [t]"
| "q_arrived (Resume t) s = []"
| "q_arrived (Throw t) s = []"
| "q_arrived (Unlock t) s = []"
| "q_arrived (Try_lock got t) s = (if fst (try_lock got t (qx s)) then [t] else [])"
| "q_arrived (Spurious t) s = []"

definition q_granted :: "q_op \<Rightarrow> qsys \<Rightarrow> task_id list" where
  "q_granted x s =
     (if q_owner (qx (q_step x s)) = q_owner (qx s) then []
      else set_option_list (q_owner (qx (q_step x s))))"

definition q_no_giveup :: "q_op \<Rightarrow> qsys \<Rightarrow> bool" where
  "q_no_giveup x s \<longleftrightarrow> q_legal x s \<and> (\<forall>t. x = Throw t \<longrightarrow> q_owner (qx s) = Some t)"

lemma q_step_fifo:
  assumes "qsys_ok s" and "q_no_giveup x s"
  shows "q_waiting (qx s) @ q_arrived x s = q_granted x s @ q_waiting (qx (q_step x s))"
proof -
  have free: "q_owner (qx s) = None \<Longrightarrow> q_waiting (qx s) = []"
    and own: "q_owner (qx s) = Some t \<Longrightarrow> t \<notin> set (q_waiting (qx s))"
    and ins: "t \<in> set (inside s) \<Longrightarrow> q_owner (qx s) = Some t" for t
    using assms(1) by (auto simp: qsys_ok_def split: option.splits)
  have pass: "q_waiting (qx s) @ [] = q_granted x s @ q_waiting (qx (q_step x s))"
    if "q_owner (qx s) = Some t" and "qx (q_step x s) = snd (unlock_or_giveup t (qx s))" for t
  proof (cases "q_waiting (qx s)")
    case Nil
    then show ?thesis using that by (simp add: q_granted_def q_ops)
  next
    case (Cons w ws)
    then have "w \<noteq> t" using own [OF that(1)] by auto
    then show ?thesis using that Cons by (simp add: q_granted_def q_ops)
  qed
  show ?thesis
  proof (cases x)
    case (Lock t)
    then show ?thesis using free by (cases "q_owner (qx s)") (simp_all add: q_ops q_granted_def)
  next
    case (Try_lock got t)
    then show ?thesis using free by (cases "q_owner (qx s)") (simp_all add: q_ops q_granted_def)
  next
    case (Unlock t)
    then have "q_owner (qx s) = Some t" using ins assms(2) by (simp add: q_no_giveup_def)
    then show ?thesis using pass [of t] Unlock by (simp add: Let_def case_prod_beta)
  next
    case (Throw t)
    then have "q_owner (qx s) = Some t" using assms(2) by (simp add: q_no_giveup_def)
    then show ?thesis using pass [of t] Throw by (simp add: Let_def case_prod_beta)
  qed (simp_all add: q_ops q_granted_def)
qed

interpretation qtx: fifo_stream qsys_ok "\<lambda>s. q_waiting (qx s)" q_step q_arrived q_granted q_no_giveup
  by unfold_locales (auto simp: q_step_fifo q_no_giveup_def intro: q_step_ok)

lemma qsys_run_ok: "qsys_ok s \<Longrightarrow> all_legal q_step q_legal xs s \<Longrightarrow> qsys_ok (run_ops q_step xs s)"
  by (induction xs arbitrary: s) (auto intro: q_step_ok)

section \<open>Properties\<close>

text \<open>
  C8: for any interleaving of any tasks, with spurious wake-ups and waits ended by an
  exception, at most one task is between \<open>lock\<close> and \<open>unlock\<close> and it is the owner; and
  whenever a task waits, the owner is inside or has a wake-up pending, so no hand-over is
  lost.
\<close>

theorem qutex_excludes:
  assumes "all_legal q_step q_legal xs qsys_init"
  shows "let s = run_ops q_step xs qsys_init
    in length (inside s) \<le> 1 \<and> (\<forall>t \<in> set (inside s). q_owner (qx s) = Some t)
       \<and> (\<forall>t \<in> set (in_lock s). \<exists>u. q_owner (qx s) = Some u
            \<and> (u \<in> set (inside s) \<or> u \<in> set (in_lock s) \<and> u \<in> set (woken s)))"
  using qsys_run_ok [OF qsys_init_ok assms]
  by (cases rule: qsys_ok_cases) (simp_all add: Let_def)

theorem qutex_excludes_witness:
  "let s = run_ops q_step [Lock 1, Lock 2, Lock 3, Throw 2, Unlock 1] qsys_init
   in inside s = [] \<and> q_owner (qx s) = Some 3 \<and> 3 \<in> set (in_lock s) \<and> 3 \<in> set (woken s)
      \<and> length (inside s) \<le> 1"
  using qutex_excludes [of "[Lock 1, Lock 2, Lock 3, Throw 2, Unlock 1]"]
  by (simp add: q_ops qsys_init_def qutex_new_def)

text \<open>
  C29: as long as no waiting task gives up, the lock is granted in the order in which tasks
  asked for it: the sequence of grants is a prefix of the sequence of arrivals, and the
  rest of that sequence is the wait queue.
\<close>

theorem qutex_fifo:
  assumes "all_legal q_step q_no_giveup xs qsys_init"
  shows "collect q_step q_arrived xs qsys_init =
    collect q_step q_granted xs qsys_init @ q_waiting (qx (run_ops q_step xs qsys_init))"
  using qtx.session_conserves [OF qsys_init_ok assms] by (simp add: qsys_init_def qutex_new_def)

theorem qutex_fifo_witness:
  "collect q_step q_granted [Lock 1, Lock 2, Lock 3, Unlock 1, Resume 2, Unlock 2] qsys_init = [1, 2, 3]
   \<and> collect q_step q_arrived [Lock 1, Lock 2, Lock 3, Unlock 1, Resume 2, Unlock 2] qsys_init = [1, 2, 3]"
  using qutex_fifo [of "[Lock 1, Lock 2, Lock 3, Unlock 1, Resume 2, Unlock 2]"]
  by (simp add: q_ops qsys_init_def qutex_new_def q_granted_def q_no_giveup_def)

end
