(* ===== verification/Rendez.thy ===== *)
theory Rendez
  imports Ten_Prelude
begin

text \<open>
  The rendezvous point of \<open>src/rendez.cc\<close> and \<open>include/ten/task/rendez.hh\<close>: the list of
  sleeping tasks and the atomic sections of \<open>sleep\<close>, \<open>wakeup\<close> and \<open>wakeupall\<close>.  A task is
  inside \<open>sleep\<close> from the moment it is put on the list until \<open>sleep\<close> returns or throws;
  it is woken once it has been taken off the list.

  The locale is the contract a client of such a wait list relies on, and holds the
  accounting argument by which no wake-up is lost: while a task is parked, every unit the
  sleepers wait for is matched by a woken sleeper that has not yet claimed it.
\<close>

section \<open>State and operations\<close>

record rendez =
  rz_waiting :: "task_id list"

definition rendez_new :: rendez where
  "rendez_new = \<lparr>rz_waiting = []\<rparr>"

text \<open>The first section of \<open>sleep\<close>, before it releases the lock.\<close>

definition rendez_sleep :: "task_id \<Rightarrow> rendez \<Rightarrow> rendez" where
  "rendez_sleep t r = r\<lparr>rz_waiting := rz_waiting r @ [t]\<rparr>"

text \<open>Each of these returns the tasks it readies.\<close>

definition rendez_wakeup :: "rendez \<Rightarrow> task_id list \<times> rendez" where
  "rendez_wakeup r =
     (case rz_waiting r of [] \<Rightarrow> ([], r) | t # ts \<Rightarrow> ([t], r\<lparr>rz_waiting := ts\<rparr>))"

definition rendez_wakeupall :: "rendez \<Rightarrow> task_id list \<times> rendez" where
  "rendez_wakeupall r = (rz_waiting r, r\<lparr>rz_waiting := []\<rparr>)"

text \<open>
  The handler of \<open>sleep\<close>: a task that is cancelled or passes its deadline leaves the list;
  if a wake-up had already chosen it, it wakes another task instead.
\<close>

definition rendez_interrupted :: "task_id \<Rightarrow> rendez \<Rightarrow> task_id list \<times> rendez" where
  "rendez_interrupted t r =
     (if t \<in> set (rz_waiting r) then ([], r\<lparr>rz_waiting := remove1 t (rz_waiting r)\<rparr>)
      else case rz_waiting r of
             [] \<Rightarrow> ([], r)
           | w # ws \<Rightarrow> ([w], r\<lparr>rz_waiting := ws\<rparr>))"

section \<open>The accounting of wake-ups\<close>

text \<open>
  \<open>ts\<close> are the tasks inside \<open>sleep\<close>, \<open>ws\<close> those still on the list, \<open>n\<close> the units available:
  items for receivers, free places for senders.
\<close>

definition covered :: "nat \<Rightarrow> task_id list \<Rightarrow> task_id list \<Rightarrow> bool" where
  "covered n ts ws \<longleftrightarrow> distinct ts \<and> distinct ws \<and> set ws \<subseteq> set ts
     \<and> (ws \<noteq> [] \<longrightarrow> n + length ws \<le> length ts)"

lemma covered_Nil [simp]: "covered n ts [] \<longleftrightarrow> distinct ts"
  by (simp add: covered_def)

lemma covered_sub_less:
  assumes "distinct ts" "distinct ws" "set ws \<subseteq> set ts" "t \<in> set ts" "t \<notin> set ws"
  shows "Suc (length ws) \<le> length ts"
proof -
  have "card (insert t (set ws)) \<le> card (set ts)" by (rule card_mono) (use assms in auto)
  then show ?thesis using assms by (simp add: distinct_card)
qed

lemma covered_0: "covered 0 ts ws \<longleftrightarrow> distinct ts \<and> distinct ws \<and> set ws \<subseteq> set ts"
proof -
  have "length ws \<le> length ts" if "distinct ts" "distinct ws" "set ws \<subseteq> set ts"
    using card_mono [OF _ that(3)] distinct_card [OF that(1)] distinct_card [OF that(2)] by simp
  then show ?thesis by (auto simp: covered_def)
qed

lemma covered_less: "covered n ts ws \<Longrightarrow> m \<le> n \<Longrightarrow> covered m ts ws"
  by (auto simp: covered_def)

text \<open>If a task is parked although a unit is available, a woken task is on its way.\<close>

lemma covered_woken:
  assumes "covered n ts ws" and "ws \<noteq> []" and "0 < n"
  obtains t where "t \<in> set ts" and "t \<notin> set ws"
proof -
  have "length ws < length ts" using assms by (simp add: covered_def)
  then have "card (set ws) < card (set ts)" using assms(1) by (simp add: covered_def distinct_card)
  then have "\<not> set ts \<subseteq> set ws" by (metis List.finite_set card_mono leD)
  then show thesis using that by blast
qed

lemma covered_claim:
  assumes "covered n ts ws" and "t \<in> set ts" and "t \<notin> set ws"
  shows "covered (n - 1) (remove1 t ts) ws"
  using assms covered_sub_less [of ts ws t]
  by (auto simp: covered_def length_remove1)

locale wait_point =
  fixes waiting :: "'w \<Rightarrow> task_id list"
    and push :: "task_id \<Rightarrow> 'w \<Rightarrow> 'w"
    and wake :: "'w \<Rightarrow> task_id list \<times> 'w"
    and wakeall :: "'w \<Rightarrow> task_id list \<times> 'w"
    and giveup :: "task_id \<Rightarrow> 'w \<Rightarrow> task_id list \<times> 'w"
  assumes push: "waiting (push t w) = waiting w @ [t]"
    and wake: "fst (wake w) = take 1 (waiting w)" "waiting (snd (wake w)) = drop 1 (waiting w)"
    and wakeall: "fst (wakeall w) = waiting w" "waiting (snd (wakeall w)) = []"
    and giveup_parked: "t \<in> set (waiting w) \<Longrightarrow>
      fst (giveup t w) = [] \<and> waiting (snd (giveup t w)) = remove1 t (waiting w)"
    and giveup_woken: "t \<notin> set (waiting w) \<Longrightarrow> giveup t w = wake w"
begin

lemma covered_push:
  assumes "covered 0 ts (waiting w)" and "t \<notin> set ts"
  shows "covered 0 (t # ts) (waiting (push t w))"
  using assms by (auto simp: covered_0 push)

lemma covered_push_again:
  assumes "covered 0 ts (waiting w)" and "t \<in> set ts" and "t \<notin> set (waiting w)"
  shows "covered 0 ts (waiting (push t w))"
  using assms by (auto simp: covered_0 push)

lemma covered_wake: "covered n ts (waiting w) \<Longrightarrow> covered (Suc n) ts (waiting (snd (wake w)))"
  by (cases "waiting w") (auto simp: covered_def wake)

lemma covered_wakeall: "distinct ts \<Longrightarrow> covered n ts (waiting (snd (wakeall w)))"
  by (simp add: wakeall)

lemma covered_giveup:
  assumes "covered n ts (waiting w)" and "t \<in> set ts"
  shows "covered n (remove1 t ts) (waiting (snd (giveup t w)))"
proof (cases "t \<in> set (waiting w)")
  case True
  then have "n + (length (waiting w) - Suc 0) \<le> length ts - Suc 0"
    if "n + length (waiting w) \<le> length ts" using that by (cases "waiting w") auto
  then show ?thesis
    using assms True giveup_parked [OF True] by (auto simp: covered_def length_remove1)
next
  case False
  then show ?thesis
    using assms giveup_woken [OF False] wake [of w] covered_sub_less [of ts "waiting w" t]
    by (cases "waiting w") (auto simp: covered_def length_remove1)
qed

end

interpretation rz: wait_point rz_waiting rendez_sleep rendez_wakeup rendez_wakeupall rendez_interrupted
  by unfold_locales
    (auto simp: rendez_sleep_def rendez_wakeup_def rendez_wakeupall_def rendez_interrupted_def
      split: list.split)

end
