(* ===== verification/Channel.thy ===== *)
theory Channel
  imports Fifo Rendez
begin

text \<open>
  The channel of \<open>include/ten/channel.hh\<close>.  Its methods run under the qutex \<open>qtx\<close>, which
  \<open>rendez::sleep\<close> releases; a method is therefore a sequence of sections, each from taking
  the qutex to sleeping, returning or throwing.  \<open>send_try\<close> and \<open>recv_try\<close> are these
  sections: the test of the wait loop and what follows it.  Mutual exclusion of the
  qutex makes a section atomic, so the steps of the system below are sections, together
  with the handler of an interrupted sleep, which takes only the list's own mutex.

  A sleeping task resumes when it has been taken off the list or when it is interrupted.
  The results: items come out in the order they went in and the buffer never exceeds its
  capacity; no wake-up is lost, so a receiver is never left parked beside an item nor a
  sender beside a free place; closing a channel parks nobody.
\<close>

section \<open>State and operations\<close>

record 'a chan =
  ch_capacity :: nat
  ch_queue :: "'a list"
  ch_closed :: bool
  not_empty :: rendez
  not_full :: rendez

text \<open>\<open>None\<close> is the failing \<open>CHECK\<close> on the capacity.\<close>

definition chan_new :: "nat \<Rightarrow> 'a chan option" where
  "chan_new n =
     (if 1 \<le> n
      then Some \<lparr>ch_capacity = n, ch_queue = [], ch_closed = False,
                 not_empty = rendez_new, not_full = rendez_new\<rparr>
      else None)"

definition is_empty :: "'a chan \<Rightarrow> bool" where
  "is_empty c \<longleftrightarrow> ch_queue c = []"

definition is_full :: "'a chan \<Rightarrow> bool" where
  "is_full c \<longleftrightarrow> ch_capacity c \<le> length (ch_queue c)"

definition unread :: "'a chan \<Rightarrow> nat" where
  "unread c = length (ch_queue c)"

datatype send_result = Sleep_full | Sleep_sync | Sent nat | Send_closed
datatype 'a recv_result = Sleep_empty | Received 'a | Recv_closed

text \<open>The second wait of a synchronous send: until the item has been received.\<close>

definition sync_try :: "task_id \<Rightarrow> nat \<Rightarrow> 'a chan \<Rightarrow> send_result \<times> 'a chan" where
  "sync_try t ret c =
     (if is_full c \<and> \<not> ch_closed c
      then (Sleep_sync, c\<lparr>not_full := rendez_sleep t (not_full c)\<rparr>)
      else (Sent ret, c))"

definition send_try :: "task_id \<Rightarrow> 'a \<Rightarrow> nat \<Rightarrow> 'a chan \<Rightarrow> send_result \<times> 'a chan" where
  "send_try t p ret c =
     (if is_full c \<and> \<not> ch_closed c
      then (Sleep_full, c\<lparr>not_full := rendez_sleep t (not_full c)\<rparr>)
      else if ch_closed c then (Send_closed, c)
      else let c1 = c\<lparr>ch_queue := ch_queue c @ [p], not_empty := snd (rendez_wakeup (not_empty c))\<rparr>
           in if ch_capacity c = 1 then sync_try t ret c1 else (Sent ret, c1))"

definition send_enter :: "task_id \<Rightarrow> 'a \<Rightarrow> 'a chan \<Rightarrow> send_result \<times> 'a chan" where
  "send_enter t p c = send_try t p (length (ch_queue c)) c"

definition recv_try :: "task_id \<Rightarrow> 'a chan \<Rightarrow> 'a recv_result \<times> 'a chan" where
  "recv_try t c =
     (if is_empty c \<and> \<not> ch_closed c
      then (Sleep_empty, c\<lparr>not_empty := rendez_sleep t (not_empty c)\<rparr>)
      else case ch_queue c of
             [] \<Rightarrow> (Recv_closed, c)
           | x # xs \<Rightarrow>
               (Received x,
                c\<lparr>ch_queue := xs,
                  not_full := snd (if ch_capacity c = 1 then rendez_wakeupall (not_full c)
                                   else rendez_wakeup (not_full c))\<rparr>))"

definition chan_close :: "'a chan \<Rightarrow> 'a chan" where
  "chan_close c =
     c\<lparr>ch_closed := True, not_empty := snd (rendez_wakeupall (not_empty c)),
       not_full := snd (rendez_wakeupall (not_full c))\<rparr>"

definition chan_clear :: "'a chan \<Rightarrow> 'a chan" where
  "chan_clear c = c\<lparr>ch_queue := [], not_full := snd (rendez_wakeupall (not_full c))\<rparr>"

section \<open>Tasks using one channel\<close>

text \<open>
  \<open>tx\<close> are the tasks inside \<open>not_full.sleep\<close>: their item while it is still to be pushed,
  and the value their \<open>send\<close> will return; \<open>rx\<close> are those inside \<open>not_empty.sleep\<close>.
\<close>

record 'a chan_sys =
  ch :: "'a chan"
  tx :: "(task_id \<times> 'a option \<times> nat) list"
  rx :: "task_id list"

datatype 'a chan_op =
  Send task_id 'a | Send_again task_id "'a option" nat | Stop_send task_id "'a option" nat
| Recv task_id | Recv_again task_id | Stop_recv task_id | Close | Clear

definition after_send ::
  "task_id \<Rightarrow> 'a \<Rightarrow> nat \<Rightarrow> send_result \<times> 'a chan \<Rightarrow> 'a chan_sys \<Rightarrow> 'a chan_sys" where
  "after_send t p ret rc s =
     (case fst rc of
        Sleep_full \<Rightarrow> s\<lparr>ch := snd rc, tx := (t, Some p, ret) # tx s\<rparr>
      | Sleep_sync \<Rightarrow> s\<lparr>ch := snd rc, tx := (t, None, ret) # tx s\<rparr>
      | _ \<Rightarrow> s\<lparr>ch := snd rc\<rparr>)"

definition after_sync :: "task_id \<Rightarrow> nat \<Rightarrow> send_result \<times> 'a chan \<Rightarrow> 'a chan_sys \<Rightarrow> 'a chan_sys" where
  "after_sync t ret rc s =
     (if fst rc = Sleep_sync then s\<lparr>ch := snd rc, tx := (t, None, ret) # tx s\<rparr> else s\<lparr>ch := snd rc\<rparr>)"

definition after_recv :: "task_id \<Rightarrow> 'a recv_result \<times> 'a chan \<Rightarrow> 'a chan_sys \<Rightarrow> 'a chan_sys" where
  "after_recv t rc s =
     (case fst rc of Sleep_empty \<Rightarrow> s\<lparr>ch := snd rc, rx := t # rx s\<rparr> | _ \<Rightarrow> s\<lparr>ch := snd rc\<rparr>)"

primrec chan_step :: "'a chan_op \<Rightarrow> 'a chan_sys \<Rightarrow> 'a chan_sys" where
  "chan_step (Send t p) s = after_send t p (length (ch_queue (ch s))) (send_enter t p (ch s)) s"
| "chan_step (Send_again t po ret) s =
     (let s1 = s\<lparr>tx := remove1 (t, po, ret) (tx s)\<rparr>
      in case po of
           Some p \<Rightarrow> after_send t p ret (send_try t p ret (ch s)) s1
         | None \<Rightarrow> after_sync t ret (sync_try t ret (ch s)) s1)"
| "chan_step (Stop_send t po ret) s =
     s\<lparr>ch := (ch s)\<lparr>not_full := snd (rendez_interrupted t (not_full (ch s)))\<rparr>,
       tx := remove1 (t, po, ret) (tx s)\<rparr>"
| "chan_step (Recv t) s = after_recv t (recv_try t (ch s)) s"
| "chan_step (Recv_again t) s = after_recv t (recv_try t (ch s)) (s\<lparr>rx := remove1 t (rx s)\<rparr>)"
| "chan_step (Stop_recv t) s =
     s\<lparr>ch := (ch s)\<lparr>not_empty := snd (rendez_interrupted t (not_empty (ch s)))\<rparr>,
       rx := remove1 t (rx s)\<rparr>"
| "chan_step Close s = s\<lparr>ch := chan_close (ch s)\<rparr>"
| "chan_step Clear s = s\<lparr>ch := chan_clear (ch s)\<rparr>"

primrec chan_legal :: "'a chan_op \<Rightarrow> 'a chan_sys \<Rightarrow> bool" where
  "chan_legal (Send t p) s \<longleftrightarrow> t \<notin> fst ` set (tx s) \<and> t \<notin> set (rx s)"
| "chan_legal (Send_again t po ret) s \<longleftrightarrow>
     (t, po, ret) \<in> set (tx s) \<and> t \<notin> set (rz_waiting (not_full (ch s)))"
| "chan_legal (Stop_send t po ret) s \<longleftrightarrow> (t, po, ret) \<in> set (tx s)"
| "chan_legal (Recv t) s \<longleftrightarrow> t \<notin> fst ` set (tx s) \<and> t \<notin> set (rx s)"
| "chan_legal (Recv_again t) s \<longleftrightarrow> t \<in> set (rx s) \<and> t \<notin> set (rz_waiting (not_empty (ch s)))"
| "chan_legal (Stop_recv t) s \<longleftrightarrow> t \<in> set (rx s)"
| "chan_legal Close s \<longleftrightarrow> True"
| "chan_legal Clear s \<longleftrightarrow> True"

definition chan_start :: "nat \<Rightarrow> 'a chan_sys" where
  "chan_start n = \<lparr>ch = the (chan_new n), tx = [], rx = []\<rparr>"

section \<open>Invariant\<close>

definition free_places :: "'a chan \<Rightarrow> nat" where
  "free_places c = ch_capacity c - length (ch_queue c)"

text \<open>
  On a synchronous channel a woken sender need not take the free place, but \<open>recv\<close> wakes
  all of them: nobody stays parked unless the channel is full.
\<close>

definition senders_ok :: "'a chan \<Rightarrow> nat \<Rightarrow> task_id list \<Rightarrow> bool" where
  "senders_ok c n ts \<longleftrightarrow>
     (if ch_capacity c = 1
      then covered 0 ts (rz_waiting (not_full c)) \<and> (rz_waiting (not_full c) \<noteq> [] \<longrightarrow> is_full c)
      else covered n ts (rz_waiting (not_full c)))"

text \<open>
  The channel seen by its sleepers \<open>rs\<close> and \<open>ts\<close>.  \<open>chan_acct\<close> takes the number of items and
  of free places that parked tasks may count on: a running receiver or sender is about to
  use one.
\<close>

definition chan_acct :: "nat \<Rightarrow> nat \<Rightarrow> 'a chan \<Rightarrow> task_id list \<Rightarrow> task_id list \<Rightarrow> bool" where
  "chan_acct i n c rs ts \<longleftrightarrow>
     1 \<le> ch_capacity c \<and> length (ch_queue c) \<le> ch_capacity c
     \<and> covered i rs (rz_waiting (not_empty c)) \<and> senders_ok c n ts
     \<and> (ch_closed c \<longrightarrow> rz_waiting (not_empty c) = [] \<and> rz_waiting (not_full c) = [])"

definition chan_ok :: "'a chan_sys \<Rightarrow> bool" where
  "chan_ok s \<longleftrightarrow>
     chan_acct (length (ch_queue (ch s))) (free_places (ch s)) (ch s) (rx s) (map fst (tx s))
     \<and> (ch_capacity (ch s) \<noteq> 1 \<longrightarrow> (\<forall>e \<in> set (tx s). fst (snd e) \<noteq> None))"

lemma chan_start_ok: "1 \<le> n \<Longrightarrow> chan_ok (chan_start n)"
  by (simp add: chan_ok_def chan_acct_def chan_start_def chan_new_def rendez_new_def senders_ok_def)

lemma map_fst_remove1:
  "distinct (map fst xs) \<Longrightarrow> x \<in> set xs \<Longrightarrow> map fst (remove1 x xs) = remove1 (fst x) (map fst xs)"
  by (induction xs) (auto simp: image_iff)

lemma senders_ok_less: "senders_ok c n ts \<Longrightarrow> m \<le> n \<Longrightarrow> senders_ok c m ts"
  by (auto simp: senders_ok_def intro: covered_less)

lemma senders_ok_distinct: "senders_ok c n ts \<Longrightarrow> distinct ts"
  by (auto simp: senders_ok_def covered_def split: if_splits)

lemma senders_ok_leave:
  assumes "senders_ok c n ts" and "t \<in> set ts" and "t \<notin> set (rz_waiting (not_full c))"
  shows "senders_ok c (n - 1) (remove1 t ts)"
  using assms covered_claim [of 0 ts _ t] covered_claim [of n ts _ t]
  by (auto simp: senders_ok_def)

lemma senders_ok_stop:
  assumes "senders_ok c n ts" and "t \<in> set ts"
  shows "senders_ok (c\<lparr>not_full := snd (rendez_interrupted t (not_full c))\<rparr>) n (remove1 t ts)"
proof -
  have "rz_waiting (snd (rendez_interrupted t (not_full c))) \<noteq> [] \<Longrightarrow> rz_waiting (not_full c) \<noteq> []"
    by (auto simp: rendez_interrupted_def split: if_splits list.splits)
  then show ?thesis
    using assms rz.covered_giveup [of 0 ts "not_full c" t] rz.covered_giveup [of n ts "not_full c" t]
    by (auto simp: senders_ok_def is_full_def)
qed

lemma senders_ok_park:
  assumes "senders_ok c 0 ts" and "t \<notin> set ts" and "is_full c"
  shows "senders_ok (c\<lparr>not_full := rendez_sleep t (not_full c)\<rparr>) 0 (t # ts)"
  using assms rz.covered_push [of ts "not_full c" t] by (auto simp: senders_ok_def is_full_def)

lemma sync_try_ok:
  assumes "chan_acct i (free_places c) c rs ts" and "t \<notin> set ts" and "sync_try t ret c = (r, c')"
  shows "chan_acct i (free_places c') c' rs (if r = Sleep_sync then t # ts else ts)"
    and "ch_queue c' = ch_queue c" and "ch_capacity c' = ch_capacity c" and "r \<noteq> Sleep_full"
proof -
  have free: "is_full c \<Longrightarrow> free_places c = 0" by (simp add: is_full_def free_places_def)
  show "chan_acct i (free_places c') c' rs (if r = Sleep_sync then t # ts else ts)"
    using assms senders_ok_park [of c ts t] free
    by (auto simp: sync_try_def chan_acct_def free_places_def split: if_splits)
qed (use assms(3) in \<open>auto simp: sync_try_def split: if_splits\<close>)

text \<open>A sender that is let through uses a free place and wakes a receiver for its item.\<close>

lemma send_push_ok:
  assumes "chan_acct (length (ch_queue c)) (free_places c - 1) c rs ts"
    and "\<not> is_full c" and "\<not> ch_closed c"
    and "c' = c\<lparr>ch_queue := ch_queue c @ [p], not_empty := snd (rendez_wakeup (not_empty c))\<rparr>"
  shows "chan_acct (length (ch_queue c')) (free_places c') c' rs ts"
proof -
  have "rz_waiting (not_full c) = []" if "ch_capacity c = 1"
    using assms(1,2) that by (auto simp: chan_acct_def senders_ok_def)
  then have "senders_ok c' (free_places c') ts"
    using assms(1,4) by (auto simp: chan_acct_def senders_ok_def free_places_def)
  then show ?thesis
    using assms rz.covered_wake [of "length (ch_queue c)" rs "not_empty c"]
    by (auto simp: chan_acct_def is_full_def)
qed

definition send_sleeps :: "send_result \<Rightarrow> bool" where
  "send_sleeps r \<longleftrightarrow> r = Sleep_full \<or> r = Sleep_sync"

lemma send_try_ok:
  assumes acct: "chan_acct (length (ch_queue c)) (free_places c - 1) c rs ts"
    and "t \<notin> set ts" and r: "send_try t p ret c = (r, c')"
  shows "chan_acct (length (ch_queue c')) (free_places c') c' rs (if send_sleeps r then t # ts else ts)"
    and "ch_capacity c' = ch_capacity c" and "r = Sleep_sync \<Longrightarrow> ch_capacity c = 1"
proof -
  let ?c1 = "c\<lparr>ch_queue := ch_queue c @ [p], not_empty := snd (rendez_wakeup (not_empty c))\<rparr>"
  have free: "is_full c \<Longrightarrow> free_places c = 0" by (simp add: is_full_def free_places_def)
  consider (full) "is_full c" "\<not> ch_closed c" | (closed) "ch_closed c"
    | (push) "\<not> is_full c" "\<not> ch_closed c" by blast
  then show "chan_acct (length (ch_queue c')) (free_places c') c' rs (if send_sleeps r then t # ts else ts)"
  proof cases
    case full
    then show ?thesis using assms senders_ok_park [of c ts t] free
      by (auto simp: send_try_def chan_acct_def free_places_def send_sleeps_def)
  next
    case closed
    then show ?thesis using assms
      by (auto simp: send_try_def chan_acct_def senders_ok_def send_sleeps_def split: if_splits)
  next
    case push
    have ok: "chan_acct (length (ch_queue ?c1)) (free_places ?c1) ?c1 rs ts"
      by (rule send_push_ok [OF acct push refl])
    show ?thesis
    proof (cases "ch_capacity c = 1")
      case True
      then have "sync_try t ret ?c1 = (r, c')" using r push by (simp add: send_try_def Let_def)
      from sync_try_ok [OF ok assms(2) this] show ?thesis by (auto simp: send_sleeps_def)
    qed (use r push ok in \<open>auto simp: send_try_def Let_def send_sleeps_def\<close>)
  qed
qed (use r in \<open>auto simp: send_try_def sync_try_def Let_def split: if_splits\<close>)

lemma recv_try_ok:
  assumes acct: "chan_acct (length (ch_queue c) - 1) (free_places c) c rs ts"
    and "t \<notin> set rs" and r: "recv_try t c = (r, c')"
  shows "chan_acct (length (ch_queue c')) (free_places c') c' (if r = Sleep_empty then t # rs else rs) ts"
    and "ch_capacity c' = ch_capacity c"
proof -
  show "chan_acct (length (ch_queue c')) (free_places c') c' (if r = Sleep_empty then t # rs else rs) ts"
  proof (cases "ch_queue c")
    case Nil
    then show ?thesis using assms rz.covered_push [of rs "not_empty c" t]
      by (auto simp: recv_try_def is_empty_def chan_acct_def free_places_def senders_ok_def is_full_def
        split: if_splits)
  next
    case (Cons x xs)
    have le: "length (ch_queue c) \<le> ch_capacity c" using acct by (simp add: chan_acct_def)
    let ?nf = "snd (if ch_capacity c = 1 then rendez_wakeupall (not_full c) else rendez_wakeup (not_full c))"
    have c': "r = Received x" "c' = c\<lparr>ch_queue := xs, not_full := ?nf\<rparr>"
      using r Cons by (auto simp: recv_try_def is_empty_def)
    have fp: "free_places c' = Suc (free_places c)" using le Cons c' by (simp add: free_places_def)
    have so: "senders_ok c (free_places c) ts" using acct by (simp add: chan_acct_def)
    have "senders_ok c' (free_places c') ts"
    proof (cases "ch_capacity c = 1")
      case True
      then show ?thesis using senders_ok_distinct [OF so] c' by (simp add: senders_ok_def rz.wakeall)
    next
      case False
      then show ?thesis using so c' fp rz.covered_wake [of "free_places c" ts "not_full c"]
        by (simp add: senders_ok_def)
    qed
    moreover have "rz_waiting (not_full c') = []" if "ch_closed c"
      using acct that c' by (auto simp: chan_acct_def rendez_wakeup_def rendez_wakeupall_def)
    ultimately show ?thesis using acct c' Cons by (auto simp: chan_acct_def)
  qed
qed (use r in \<open>auto simp: recv_try_def split: if_splits list.splits\<close>)


lemma send_step_ok:
  assumes "chan_acct (length (ch_queue (ch s))) (free_places (ch s) - 1) (ch s) (rx s) (map fst (tx s))"
    and "ch_capacity (ch s) \<noteq> 1 \<longrightarrow> (\<forall>e \<in> set (tx s). fst (snd e) \<noteq> None)"
    and "t \<notin> fst ` set (tx s)"
  shows "chan_ok (after_send t p ret (send_try t p ret (ch s)) s)"
proof -
  obtain r c' where r: "send_try t p ret (ch s) = (r, c')" by fastforce
  note ok = send_try_ok [OF assms(1) _ r]
  show ?thesis
    using ok assms(2,3) r by (cases r) (auto simp: chan_ok_def after_send_def send_sleeps_def)
qed

lemma recv_step_ok:
  assumes "chan_acct (length (ch_queue (ch s)) - 1) (free_places (ch s)) (ch s) (rx s) (map fst (tx s))"
    and "ch_capacity (ch s) \<noteq> 1 \<longrightarrow> (\<forall>e \<in> set (tx s). fst (snd e) \<noteq> None)"
    and "t \<notin> set (rx s)"
  shows "chan_ok (after_recv t (recv_try t (ch s)) s)"
proof -
  obtain r c' where r: "recv_try t (ch s) = (r, c')" by fastforce
  note ok = recv_try_ok [OF assms(1,3) r]
  show ?thesis
    using ok assms(2) r by (cases r) (auto simp: chan_ok_def after_recv_def)
qed

lemma chan_acct_less: "chan_acct i n c rs ts \<Longrightarrow> j \<le> i \<Longrightarrow> m \<le> n \<Longrightarrow> chan_acct j m c rs ts"
  by (auto simp: chan_acct_def intro: covered_less senders_ok_less)

lemma send_again_ok:
  assumes "chan_ok s" and "chan_legal (Send_again t po ret) s"
  shows "chan_ok (chan_step (Send_again t po ret) s)"
proof -
  let ?s1 = "s\<lparr>tx := remove1 (t, po, ret) (tx s)\<rparr>"
  have acct: "chan_acct (length (ch_queue (ch s))) (free_places (ch s)) (ch s) (rx s) (map fst (tx s))"
    and some: "ch_capacity (ch s) \<noteq> 1 \<longrightarrow> (\<forall>e \<in> set (tx s). fst (snd e) \<noteq> None)"
    using assms(1) by (simp_all add: chan_ok_def)
  have mem: "(t, po, ret) \<in> set (tx s)" and woken: "t \<notin> set (rz_waiting (not_full (ch s)))"
    using assms(2) by simp_all
  have dist: "distinct (map fst (tx s))" using acct senders_ok_distinct by (auto simp: chan_acct_def)
  have mt: "map fst (tx ?s1) = remove1 t (map fst (tx s))" using map_fst_remove1 [OF dist mem] by simp
  have t: "t \<in> set (map fst (tx s))" using mem by force
  have "t \<notin> set (map fst (tx ?s1))" unfolding mt using dist by simp
  then have out: "t \<notin> fst ` set (tx ?s1)" by simp
  have leave: "chan_acct (length (ch_queue (ch s))) (free_places (ch s) - 1) (ch s) (rx s) (map fst (tx ?s1))"
    using acct senders_ok_leave [OF _ t woken] unfolding mt by (auto simp: chan_acct_def)
  have some1: "ch_capacity (ch ?s1) \<noteq> 1 \<longrightarrow> (\<forall>e \<in> set (tx ?s1). fst (snd e) \<noteq> None)"
    using some set_remove1_subset [of "(t, po, ret)" "tx s"] by auto
  show ?thesis
  proof (cases po)
    case (Some p)
    then show ?thesis using send_step_ok [of ?s1 t p ret] leave some1 out by simp
  next
    case None
    then have cap: "ch_capacity (ch s) = 1" using some mem by force
    obtain r c' where r: "sync_try t ret (ch s) = (r, c')" by fastforce
    have "chan_acct (length (ch_queue (ch s))) (free_places (ch s)) (ch s) (rx s) (map fst (tx ?s1))"
      using leave cap by (simp add: chan_acct_def senders_ok_def)
    from sync_try_ok [OF this _ r] out cap r some1 None show ?thesis
      by (auto simp: chan_ok_def after_sync_def Let_def)
  qed
qed

lemma chan_step_ok [ten_inv]:
  assumes ok: "chan_ok s" and legal: "chan_legal x s"
  shows "chan_ok (chan_step x s)"
proof -
  have acct: "chan_acct (length (ch_queue (ch s))) (free_places (ch s)) (ch s) (rx s) (map fst (tx s))"
    and some: "ch_capacity (ch s) \<noteq> 1 \<longrightarrow> (\<forall>e \<in> set (tx s). fst (snd e) \<noteq> None)"
    using ok by (simp_all add: chan_ok_def)
  have dist: "distinct (map fst (tx s))" "distinct (rx s)"
    using acct senders_ok_distinct by (auto simp: chan_acct_def covered_def)
  show ?thesis
  proof (cases x)
    case (Send t p)
    then show ?thesis
      using send_step_ok [of s t p] chan_acct_less [OF acct] some legal by (simp add: send_enter_def)
  next
    case (Send_again t po ret)
    then show ?thesis using send_again_ok [OF ok] legal by simp
  next
    case (Stop_send t po ret)
    then have mem: "(t, po, ret) \<in> set (tx s)" using legal by simp
    then have "t \<in> set (map fst (tx s))" by force
    then show ?thesis
      using Stop_send acct some senders_ok_stop [of "ch s" "free_places (ch s)" "map fst (tx s)" t]
        map_fst_remove1 [OF dist(1) mem] set_remove1_subset [of "(t, po, ret)" "tx s"]
      by (auto simp: chan_ok_def chan_acct_def free_places_def rendez_interrupted_def)
  next
    case (Recv t)
    then show ?thesis
      using recv_step_ok [of s t] chan_acct_less [OF acct] some legal by simp
  next
    case (Recv_again t)
    let ?s1 = "s\<lparr>rx := remove1 t (rx s)\<rparr>"
    have "chan_acct (length (ch_queue (ch s)) - 1) (free_places (ch s)) (ch s) (rx ?s1) (map fst (tx s))"
      using acct covered_claim [of _ "rx s" _ t] legal Recv_again by (auto simp: chan_acct_def)
    then show ?thesis
      using recv_step_ok [of ?s1 t] some dist(2) Recv_again by simp
  next
    case (Stop_recv t)
    then show ?thesis
      using acct some legal rz.covered_giveup [of _ "rx s" "not_empty (ch s)" t]
      by (auto simp: chan_ok_def chan_acct_def free_places_def senders_ok_def is_full_def rendez_interrupted_def)
  next
    case Close
    then show ?thesis
      using acct some dist by (auto simp: chan_ok_def chan_acct_def senders_ok_def chan_close_def rz.wakeall)
  next
    case Clear
    then show ?thesis
      using acct some dist by (auto simp: chan_ok_def chan_acct_def senders_ok_def chan_clear_def rz.wakeall
        dest: covered_less [where m = 0])
  qed
qed


section \<open>Order\<close>

primrec chan_pushed :: "'a chan_op \<Rightarrow> 'a chan_sys \<Rightarrow> 'a list" where
  "chan_pushed (Send t p) s = (if is_full (ch s) \<or> ch_closed (ch s) then [] else [p])"
| "chan_pushed (Send_again t po ret) s =
     (if is_full (ch s) \<or> ch_closed (ch s) then [] else set_option_list po)"
| "chan_pushed (Stop_send t po ret) s = []"
| "chan_pushed (Recv t) s = []"
| "chan_pushed (Recv_again t) s = []"
| "chan_pushed (Stop_recv t) s = []"
| "chan_pushed Close s = []"
| "chan_pushed Clear s = []"

definition received :: "'a recv_result \<Rightarrow> 'a list" where
  "received r = (case r of Received x \<Rightarrow> [x] | _ \<Rightarrow> [])"

text \<open>What leaves the queue: an item handed to a receiver, or all items dropped by \<open>clear\<close>.\<close>

primrec chan_popped :: "'a chan_op \<Rightarrow> 'a chan_sys \<Rightarrow> 'a list" where
  "chan_popped (Send t p) s = []"
| "chan_popped (Send_again t po ret) s = []"
| "chan_popped (Stop_send t po ret) s = []"
| "chan_popped (Recv t) s = received (fst (recv_try t (ch s)))"
| "chan_popped (Recv_again t) s = received (fst (recv_try t (ch s)))"
| "chan_popped (Stop_recv t) s = []"
| "chan_popped Close s = []"
| "chan_popped Clear s = ch_queue (ch s)"

lemma send_try_queue:
  "ch_queue (snd (send_try t p ret c)) = ch_queue c @ (if is_full c \<or> ch_closed c then [] else [p])"
  by (simp add: send_try_def sync_try_def Let_def)

lemma recv_try_queue: "ch_queue c = received (fst (recv_try t c)) @ ch_queue (snd (recv_try t c))"
  by (simp add: recv_try_def is_empty_def received_def split: list.split)

lemma ch_after [simp]:
  "ch (after_send t p ret rc s) = snd rc" "ch (after_sync t ret rc s) = snd rc"
  "ch (after_recv t rc2 s) = snd rc2"
  by (simp_all add: after_send_def after_sync_def after_recv_def split: send_result.split recv_result.split)

lemma chan_step_queue:
  "ch_queue (ch s) @ chan_pushed x s = chan_popped x s @ ch_queue (ch (chan_step x s))"
proof (cases x)
  case (Send_again t po ret)
  then show ?thesis
    by (cases po) (simp_all add: send_try_queue sync_try_def Let_def)
next
  case (Recv t)
  then show ?thesis using recv_try_queue [of "ch s" t] by simp
next
  case (Recv_again t)
  then show ?thesis using recv_try_queue [of "ch s" t] by simp
qed (simp_all add: send_enter_def send_try_queue chan_close_def chan_clear_def)

interpretation chan: fifo_stream chan_ok "\<lambda>s. ch_queue (ch s)" chan_step chan_pushed chan_popped chan_legal
  by unfold_locales (simp_all add: chan_step_queue chan_step_ok)

section \<open>Properties\<close>

text \<open>
  C10: over any interleaving of senders and receivers, with interrupted waits, \<open>close\<close> and
  \<open>clear\<close>, the items pushed are, in order, the items that left the channel followed by
  those still queued, and the queue never holds more than the capacity.
\<close>

theorem channel_fifo_bounded:
  assumes "1 \<le> n" and "all_legal chan_step chan_legal xs (chan_start n)"
  shows "collect chan_step chan_pushed xs (chan_start n) =
      collect chan_step chan_popped xs (chan_start n) @ ch_queue (ch (run_ops chan_step xs (chan_start n)))
    \<and> length (ch_queue (ch (run_ops chan_step xs (chan_start n))))
        \<le> ch_capacity (ch (run_ops chan_step xs (chan_start n)))"
proof -
  note ok = chan_start_ok [OF assms(1)]
  have e: "ch_queue (ch (chan_start n)) = []" using assms(1) by (simp add: chan_start_def chan_new_def)
  show ?thesis
    using chan.session_conserves [OF ok assms(2)] chan.session_ok [OF ok assms(2)]
    by (simp add: e chan_ok_def chan_acct_def)
qed

lemmas chan_eval = chan_start_def chan_new_def rendez_new_def send_enter_def send_try_def sync_try_def
  recv_try_def after_send_def after_sync_def after_recv_def is_full_def is_empty_def rendez_sleep_def
  rendez_wakeup_def rendez_wakeupall_def rendez_interrupted_def received_def chan_close_def chan_clear_def
  Let_def

theorem channel_fifo_bounded_witness:
  "collect chan_step chan_popped
     [Send 1 ''a'', Send 2 ''b'', Send 3 ''c'', Recv 4, Send_again 3 (Some ''c'') 2, Recv 5] (chan_start 2)
   = [''a'', ''b'']
   \<and> collect chan_step chan_pushed
     [Send 1 ''a'', Send 2 ''b'', Send 3 ''c'', Recv 4, Send_again 3 (Some ''c'') 2, Recv 5] (chan_start 2)
   = [''a'', ''b'', ''c'']"
  using channel_fifo_bounded [of 2
      "[Send 1 ''a'', Send 2 ''b'', Send 3 ''c'', Recv 4, Send_again 3 (Some ''c'') 2, Recv 5]"]
  by (simp add: chan_eval)

text \<open>
  C9: no wake-up is lost, whatever is interrupted on the way.  If a receiver is parked while
  an item is queued, another receiver has been woken and has not yet run; if a sender is
  parked while there is room, another sender has been woken; and on a closed channel
  nobody is parked.
\<close>

theorem channel_no_lost_wakeup:
  assumes "1 \<le> n" and "all_legal chan_step chan_legal xs (chan_start n)"
  shows "let s = run_ops chan_step xs (chan_start n);
      nonempty_parked = rz_waiting (not_empty (ch s)); full_parked = rz_waiting (not_full (ch s))
    in (nonempty_parked \<noteq> [] \<longrightarrow> \<not> is_empty (ch s) \<longrightarrow> (\<exists>t \<in> set (rx s). t \<notin> set nonempty_parked))
     \<and> (full_parked \<noteq> [] \<longrightarrow> \<not> is_full (ch s) \<longrightarrow> (\<exists>t \<in> fst ` set (tx s). t \<notin> set full_parked))
     \<and> (ch_closed (ch s) \<longrightarrow> nonempty_parked = [] \<and> full_parked = [])"
proof -
  define s where "s = run_ops chan_step xs (chan_start n)"
  have "chan_ok s" unfolding s_def by (rule chan.session_ok [OF chan_start_ok [OF assms(1)] assms(2)])
  then have ne: "covered (length (ch_queue (ch s))) (rx s) (rz_waiting (not_empty (ch s)))"
    and nf: "senders_ok (ch s) (free_places (ch s)) (map fst (tx s))"
    and cl: "ch_closed (ch s) \<longrightarrow> rz_waiting (not_empty (ch s)) = [] \<and> rz_waiting (not_full (ch s)) = []"
    by (simp_all add: chan_ok_def chan_acct_def)
  have "\<exists>t \<in> set (rx s). t \<notin> set (rz_waiting (not_empty (ch s)))"
    if "rz_waiting (not_empty (ch s)) \<noteq> []" "\<not> is_empty (ch s)"
    using covered_woken [OF ne that(1)] that(2) by (auto simp: is_empty_def)
  moreover have "\<exists>t \<in> fst ` set (tx s). t \<notin> set (rz_waiting (not_full (ch s)))"
    if p: "rz_waiting (not_full (ch s)) \<noteq> []" "\<not> is_full (ch s)"
  proof -
    have "covered (free_places (ch s)) (map fst (tx s)) (rz_waiting (not_full (ch s)))"
      using nf p by (auto simp: senders_ok_def split: if_splits)
    moreover have "0 < free_places (ch s)" using p(2) by (simp add: is_full_def free_places_def)
    ultimately obtain t where "t \<in> set (map fst (tx s))" "t \<notin> set (rz_waiting (not_full (ch s)))"
      using covered_woken [OF _ p(1)] by blast
    then show ?thesis by auto
  qed
  ultimately show ?thesis using cl unfolding s_def [symmetric] by (simp add: Let_def)
qed

theorem channel_no_lost_wakeup_witness:
  "let s = run_ops chan_step [Recv 1, Recv 2, Recv 3, Send 4 ''a'', Stop_recv 1] (chan_start 2)
   in rz_waiting (not_empty (ch s)) = [3] \<and> \<not> is_empty (ch s)
      \<and> (\<exists>t \<in> set (rx s). t \<notin> set (rz_waiting (not_empty (ch s))))"
  using channel_no_lost_wakeup [of 2 "[Recv 1, Recv 2, Recv 3, Send 4 ''a'', Stop_recv 1]"]
  by (simp add: chan_eval)


text \<open>
  C30: a send on a synchronous channel returns only after its item has left the channel.  On a
  channel of capacity 1, a send that has pushed its item goes to sleep, and when its wait
  ends normally with the channel still open, every item ever pushed has been received or
  cleared.
\<close>

theorem channel_sync_send:
  assumes "all_legal chan_step chan_legal xs (chan_start 1)"
    and "s = run_ops chan_step xs (chan_start 1)" and "\<not> ch_closed (ch s)"
  shows "(\<not> is_full (ch s) \<longrightarrow> fst (send_try t p ret (ch s)) = Sleep_sync)
    \<and> (fst (sync_try t ret (ch s)) = Sent ret \<longrightarrow>
         collect chan_step chan_pushed xs (chan_start 1) = collect chan_step chan_popped xs (chan_start 1))"
proof -
  have 1: "1 \<le> (1 :: nat)" by simp
  have cap: "ch_capacity (ch (chan_step x s)) = ch_capacity (ch s)" for x and s :: "'a chan_sys"
    by (cases x)
      (auto simp: send_enter_def send_try_def sync_try_def recv_try_def chan_close_def chan_clear_def Let_def
        split: option.split list.split)
  have "ch_capacity (ch (run_ops chan_step xs s)) = ch_capacity (ch s)" for s :: "'a chan_sys"
    by (induction xs arbitrary: s) (simp_all add: cap)
  then have c1: "ch_capacity (ch s) = 1" using assms(2) by (simp add: chan_start_def chan_new_def)
  have q0: "ch_queue (ch (chan_start 1)) = ([] :: 'a list)" by (simp add: chan_start_def chan_new_def)
  have "collect chan_step chan_pushed xs (chan_start 1)
      = collect chan_step chan_popped xs (chan_start 1) @ ch_queue (ch s)"
    using chan.session_conserves [OF chan_start_ok [OF 1] assms(1)] unfolding q0 assms(2) by simp
  moreover have "ch_queue (ch s) = []" if "fst (sync_try t ret (ch s)) = Sent ret"
    using that assms(3) c1 by (auto simp: sync_try_def is_full_def not_le split: if_splits)
  moreover have "fst (send_try t p ret (ch s)) = Sleep_sync" if "\<not> is_full (ch s)"
    using that assms(3) c1 by (auto simp: send_try_def sync_try_def is_full_def)
  ultimately show ?thesis by simp
qed

theorem channel_sync_send_witness:
  "let s = run_ops chan_step [Send 1 ''a'', Recv 2] (chan_start 1)
   in fst (send_try 3 ''b'' 0 (ch s)) = Sleep_sync \<and> fst (sync_try 1 0 (ch s)) = Sent 0
      \<and> collect chan_step chan_popped [Send 1 ''a'', Recv 2] (chan_start 1) = [''a'']
      \<and> collect chan_step chan_pushed [Send 1 ''a'', Recv 2] (chan_start 1) = [''a'']"
proof -
  let ?xs = "[Send 1 ''a'', Recv 2]"
  have l: "all_legal chan_step chan_legal ?xs (chan_start 1)" by (simp add: chan_eval)
  have o: "\<not> ch_closed (ch (run_ops chan_step ?xs (chan_start 1)))" by (simp add: chan_eval)
  from channel_sync_send [OF l refl o, of 3 "''b''" 0] channel_sync_send [OF l refl o, of 1 "''b''" 0]
  show ?thesis by (simp add: chan_eval)
qed

end
