(* ===== verification/Http_Tables.thy ===== *)
theory Http_Tables
  imports Ten_Prelude
begin

text \<open>
  The types and character classes of the HTTP parser that libten bundles:
  \<open>include/ten/http/http_parser.h\<close> and the first part of \<open>src/http_parser.c\<close>.  The tables
  \<open>tokens\<close>, \<open>unhex\<close> and \<open>normal_url_char\<close> are transcribed; entries an initialiser leaves out
  are zero.  The argument \<open>strict\<close> is the compile-time switch \<open>HTTP_PARSER_STRICT\<close>; libten
  builds with it off, the header's default is on.

  There are only definitions here.  That the token table keeps a character up to its case, which the comparison of header
  names rests on, is shown in \<open>Http_Roundtrip\<close>, where it is needed.
\<close>

section \<open>Enumerations\<close>

datatype http_method =
  HTTP_DELETE | HTTP_GET | HTTP_HEAD | HTTP_POST | HTTP_PUT | HTTP_CONNECT | HTTP_OPTIONS |
  HTTP_TRACE | HTTP_COPY | HTTP_LOCK | HTTP_MKCOL | HTTP_MOVE | HTTP_PROPFIND | HTTP_PROPPATCH |
  HTTP_SEARCH | HTTP_UNLOCK | HTTP_REPORT | HTTP_MKACTIVITY | HTTP_CHECKOUT | HTTP_MERGE |
  HTTP_MSEARCH | HTTP_NOTIFY | HTTP_SUBSCRIBE | HTTP_UNSUBSCRIBE | HTTP_PATCH | HTTP_PURGE

datatype http_errno =
  HPE_OK | HPE_CB_message_begin | HPE_CB_status_complete | HPE_CB_url | HPE_CB_header_field |
  HPE_CB_header_value | HPE_CB_headers_complete | HPE_CB_body | HPE_CB_message_complete |
  HPE_INVALID_EOF_STATE | HPE_HEADER_OVERFLOW | HPE_CLOSED_CONNECTION | HPE_INVALID_VERSION |
  HPE_INVALID_STATUS | HPE_INVALID_METHOD | HPE_INVALID_URL | HPE_INVALID_HOST |
  HPE_INVALID_PORT | HPE_INVALID_PATH | HPE_INVALID_QUERY_STRING | HPE_INVALID_FRAGMENT |
  HPE_LF_EXPECTED | HPE_INVALID_HEADER_TOKEN | HPE_INVALID_CONTENT_LENGTH |
  HPE_INVALID_CHUNK_SIZE | HPE_INVALID_CONSTANT | HPE_INVALID_INTERNAL_STATE | HPE_STRICT |
  HPE_PAUSED | HPE_UNKNOWN

datatype state =
  s_dead | s_start_req_or_res | s_res_or_resp_H | s_start_res | s_res_H | s_res_HT | s_res_HTT |
  s_res_HTTP | s_res_first_http_major | s_res_http_major | s_res_first_http_minor |
  s_res_http_minor | s_res_first_status_code | s_res_status_code | s_res_status |
  s_res_line_almost_done | s_start_req | s_req_method | s_req_spaces_before_url | s_req_schema |
  s_req_schema_slash | s_req_schema_slash_slash | s_req_server_start | s_req_server |
  s_req_server_with_at | s_req_path | s_req_query_string_start | s_req_query_string |
  s_req_fragment_start | s_req_fragment | s_req_http_start | s_req_http_H | s_req_http_HT |
  s_req_http_HTT | s_req_http_HTTP | s_req_first_http_major | s_req_http_major |
  s_req_first_http_minor | s_req_http_minor | s_req_line_almost_done | s_header_field_start |
  s_header_field | s_header_value_start | s_header_value | s_header_value_lws |
  s_header_almost_done | s_chunk_size_start | s_chunk_size | s_chunk_parameters |
  s_chunk_size_almost_done | s_headers_almost_done | s_headers_done | s_chunk_data |
  s_chunk_data_almost_done | s_chunk_data_done | s_body_identity | s_body_identity_eof |
  s_message_done

datatype header_states =
  h_general | h_C | h_CO | h_CON | h_matching_connection | h_matching_proxy_connection |
  h_matching_content_length | h_matching_transfer_encoding | h_matching_upgrade | h_connection |
  h_content_length | h_transfer_encoding | h_upgrade | h_matching_transfer_encoding_chunked |
  h_matching_connection_keep_alive | h_matching_connection_close | h_transfer_encoding_chunked |
  h_connection_keep_alive | h_connection_close

datatype http_parser_type = HTTP_REQUEST | HTTP_RESPONSE | HTTP_BOTH

datatype flag =
  F_CHUNKED | F_CONNECTION_KEEP_ALIVE | F_CONNECTION_CLOSE | F_TRAILING | F_UPGRADE | F_SKIPBODY

primrec method_string :: "http_method \<Rightarrow> string" where
  "method_string HTTP_DELETE = ''DELETE''"
| "method_string HTTP_GET = ''GET''"
| "method_string HTTP_HEAD = ''HEAD''"
| "method_string HTTP_POST = ''POST''"
| "method_string HTTP_PUT = ''PUT''"
| "method_string HTTP_CONNECT = ''CONNECT''"
| "method_string HTTP_OPTIONS = ''OPTIONS''"
| "method_string HTTP_TRACE = ''TRACE''"
| "method_string HTTP_COPY = ''COPY''"
| "method_string HTTP_LOCK = ''LOCK''"
| "method_string HTTP_MKCOL = ''MKCOL''"
| "method_string HTTP_MOVE = ''MOVE''"
| "method_string HTTP_PROPFIND = ''PROPFIND''"
| "method_string HTTP_PROPPATCH = ''PROPPATCH''"
| "method_string HTTP_SEARCH = ''SEARCH''"
| "method_string HTTP_UNLOCK = ''UNLOCK''"
| "method_string HTTP_REPORT = ''REPORT''"
| "method_string HTTP_MKACTIVITY = ''MKACTIVITY''"
| "method_string HTTP_CHECKOUT = ''CHECKOUT''"
| "method_string HTTP_MERGE = ''MERGE''"
| "method_string HTTP_MSEARCH = ''M-SEARCH''"
| "method_string HTTP_NOTIFY = ''NOTIFY''"
| "method_string HTTP_SUBSCRIBE = ''SUBSCRIBE''"
| "method_string HTTP_UNSUBSCRIBE = ''UNSUBSCRIBE''"
| "method_string HTTP_PATCH = ''PATCH''"
| "method_string HTTP_PURGE = ''PURGE''"

text \<open>The states up to \<open>s_headers_done\<close> in the order of the enumeration.\<close>

definition parsing_header :: "state \<Rightarrow> bool" where
  "parsing_header s \<longleftrightarrow>
     s \<notin> {s_chunk_data, s_chunk_data_almost_done, s_chunk_data_done,
          s_body_identity, s_body_identity_eof, s_message_done}"

section \<open>Characters\<close>

abbreviation NUL :: char where "NUL \<equiv> CHR 0x00"
abbreviation TAB :: char where "TAB \<equiv> CHR 0x09"
abbreviation LF :: char where "LF \<equiv> CHR 0x0A"
abbreviation FF :: char where "FF \<equiv> CHR 0x0C"
abbreviation CR :: char where "CR \<equiv> CHR 0x0D"

text \<open>\<open>LOWER(c)\<close> sets bit 5.\<close>

primrec lower :: "char \<Rightarrow> char" where
  "lower (Char b0 b1 b2 b3 b4 b5 b6 b7) = Char b0 b1 b2 b3 b4 True b6 b7"

definition is_alpha :: "char \<Rightarrow> bool" where
  "is_alpha c \<longleftrightarrow> 97 \<le> code (lower c) \<and> code (lower c) \<le> 122"

definition is_num :: "char \<Rightarrow> bool" where
  "is_num c \<longleftrightarrow> 48 \<le> code c \<and> code c \<le> 57"

definition is_alphanum :: "char \<Rightarrow> bool" where
  "is_alphanum c \<longleftrightarrow> is_alpha c \<or> is_num c"

definition is_hex :: "char \<Rightarrow> bool" where
  "is_hex c \<longleftrightarrow> is_num c \<or> 97 \<le> code (lower c) \<and> code (lower c) \<le> 102"

definition is_mark :: "char \<Rightarrow> bool" where
  "is_mark c \<longleftrightarrow> c \<in> set ''-_.!~*'' \<or> c = CHR 0x27 \<or> c = CHR ''('' \<or> c = CHR '')''"

definition is_userinfo_char :: "char \<Rightarrow> bool" where
  "is_userinfo_char c \<longleftrightarrow> is_alphanum c \<or> is_mark c \<or> c \<in> set ''%;:&=+$,''"

definition is_host_char :: "bool \<Rightarrow> char \<Rightarrow> bool" where
  "is_host_char strict c \<longleftrightarrow>
     is_alphanum c \<or> c = CHR ''.'' \<or> c = CHR ''-'' \<or> \<not> strict \<and> c = CHR ''_''"

definition digit :: "char \<Rightarrow> nat" where
  "digit c = code c - 48"

section \<open>Tables\<close>

definition tokens_table :: "nat list" where
  "tokens_table =
     [0, 0, 0, 0, 0, 0, 0, 0, 0, 0, 0, 0, 0, 0, 0, 0,
      0, 0, 0, 0, 0, 0, 0, 0, 0, 0, 0, 0, 0, 0, 0, 0,
      0, 33, 0, 35, 36, 37, 38, 39, 0, 0, 42, 43, 0, 45, 46, 0,
      48, 49, 50, 51, 52, 53, 54, 55, 56, 57, 0, 0, 0, 0, 0, 0,
      0, 97, 98, 99, 100, 101, 102, 103, 104, 105, 106, 107, 108, 109, 110, 111,
      112, 113, 114, 115, 116, 117, 118, 119, 120, 121, 122, 0, 0, 0, 94, 95,
      96, 97, 98, 99, 100, 101, 102, 103, 104, 105, 106, 107, 108, 109, 110, 111,
      112, 113, 114, 115, 116, 117, 118, 119, 120, 121, 122, 0, 124, 0, 126, 0]"

definition tokens :: "char \<Rightarrow> char" where
  "tokens c = (if code c < length tokens_table then char_of (tokens_table ! code c) else NUL)"

definition token :: "bool \<Rightarrow> char \<Rightarrow> char" where
  "token strict c = (if \<not> strict \<and> c = CHR '' '' then CHR '' '' else tokens c)"

definition unhex_table :: "int list" where
  "unhex_table =
     [-1, -1, -1, -1, -1, -1, -1, -1, -1, -1, -1, -1, -1, -1, -1, -1,
      -1, -1, -1, -1, -1, -1, -1, -1, -1, -1, -1, -1, -1, -1, -1, -1,
      -1, -1, -1, -1, -1, -1, -1, -1, -1, -1, -1, -1, -1, -1, -1, -1,
      0, 1, 2, 3, 4, 5, 6, 7, 8, 9, -1, -1, -1, -1, -1, -1,
      -1, 10, 11, 12, 13, 14, 15, -1, -1, -1, -1, -1, -1, -1, -1, -1,
      -1, -1, -1, -1, -1, -1, -1, -1, -1, -1, -1, -1, -1, -1, -1, -1,
      -1, 10, 11, 12, 13, 14, 15, -1, -1, -1, -1, -1, -1, -1, -1, -1,
      -1, -1, -1, -1, -1, -1, -1, -1, -1, -1, -1, -1, -1, -1, -1, -1]"

definition unhex :: "char \<Rightarrow> int" where
  "unhex c = (if code c < length unhex_table then unhex_table ! code c else 0)"

text \<open>Each byte of \<open>normal_url_char\<close> holds the bits of eight characters.\<close>

definition normal_url_char :: "bool \<Rightarrow> nat list" where
  "normal_url_char strict =
     [0, (if strict then 0 else 2 + 16), 0, 0, 2 + 4 + 16 + 32 + 64 + 128, 255, 255, 127,
      255, 255, 255, 255, 255, 255, 255, 127] @ replicate 16 0"

definition bit_at :: "nat list \<Rightarrow> nat \<Rightarrow> bool" where
  "bit_at a i \<longleftrightarrow> bit (a ! (i div 8)) (i mod 8)"

definition is_url_char :: "bool \<Rightarrow> char \<Rightarrow> bool" where
  "is_url_char strict c \<longleftrightarrow> bit_at (normal_url_char strict) (code c) \<or> \<not> strict \<and> 128 \<le> code c"

end
