(* ===== verification/Http_Parser.thy ===== *)
theory Http_Parser
  imports Http_Tables
begin

text \<open>
  \<open>http_parser_execute\<close> of \<open>src/http_parser.c\<close>, the state machine under libten's HTTP server and
  client, with \<open>http_parser_init\<close>, \<open>http_should_keep_alive\<close>, \<open>http_message_needs_eof\<close> and
  \<open>http_parser_pause\<close>.

  Each arm of the big \<open>switch\<close> is a definition that reads the parser and the byte and
  returns a \<open>step\<close>: the updated parser, the mark it sets, how far it moves the data pointer,
  the callback it makes and how it leaves the \<open>switch\<close>.  Every arm makes at most one
  callback, as the last thing before it leaves, so \<open>run_byte\<close> performs the step: the mark,
  the callback, then \<open>break\<close>, \<open>goto reexecute_byte\<close>, \<open>goto error\<close> or \<open>return\<close>.  A failed
  \<open>assert\<close> is the outcome \<open>Abort\<close>.

  Callbacks are a parameter: functions on the application's state that return the C result
  and whether they paused the parser.  Numbers that the code bounds before they could wrap
  (\<open>nread\<close>, \<open>index\<close>, the version and status digits) are naturals; the content length,
  which can wrap, is a 64-bit word.
\<close>

section \<open>State\<close>

record http_parser =
  p_type :: http_parser_type
  p_flags :: "flag set"
  p_state :: state
  p_header_state :: header_states
  p_index :: nat
  p_nread :: nat
  p_content_length :: u64
  p_http_major :: nat
  p_http_minor :: nat
  p_status_code :: nat
  p_method :: http_method
  p_errno :: http_errno
  p_upgrade :: bool

definition HTTP_MAX_HEADER_SIZE :: nat where
  "HTTP_MAX_HEADER_SIZE = 80 * 1024"

definition ULLONG_MAX :: u64 where
  "ULLONG_MAX = - 1"

definition http_parser_init :: "http_parser_type \<Rightarrow> http_parser" where
  "http_parser_init t =
     \<lparr>p_type = t, p_flags = {},
      p_state = (if t = HTTP_REQUEST then s_start_req
                 else if t = HTTP_RESPONSE then s_start_res else s_start_req_or_res),
      p_header_state = h_general, p_index = 0, p_nread = 0, p_content_length = 0,
      p_http_major = 0, p_http_minor = 0, p_status_code = 0, p_method = HTTP_DELETE,
      p_errno = HPE_OK, p_upgrade = False\<rparr>"

definition http_message_needs_eof :: "http_parser \<Rightarrow> bool" where
  "http_message_needs_eof P =
     (if p_type P = HTTP_REQUEST then False
      else if p_status_code P div 100 = 1 \<or> p_status_code P = 204 \<or> p_status_code P = 304
              \<or> F_SKIPBODY \<in> p_flags P then False
      else if F_CHUNKED \<in> p_flags P \<or> p_content_length P \<noteq> ULLONG_MAX then False
      else True)"

definition http_should_keep_alive :: "http_parser \<Rightarrow> bool" where
  "http_should_keep_alive P =
     (if p_http_major P > 0 \<and> p_http_minor P > 0
      then (if F_CONNECTION_CLOSE \<in> p_flags P then False else \<not> http_message_needs_eof P)
      else (if F_CONNECTION_KEEP_ALIVE \<notin> p_flags P then False else \<not> http_message_needs_eof P))"

definition start_state :: "http_parser \<Rightarrow> state" where
  "start_state P = (if p_type P = HTTP_REQUEST then s_start_req else s_start_res)"

definition new_message :: "bool \<Rightarrow> http_parser \<Rightarrow> state" where
  "new_message strict P =
     (if strict then (if http_should_keep_alive P then start_state P else s_dead) else start_state P)"

text \<open>\<open>None\<close> is the failing assertion.\<close>

definition http_parser_pause :: "bool \<Rightarrow> http_parser \<Rightarrow> http_parser option" where
  "http_parser_pause paused P =
     (if p_errno P = HPE_OK \<or> p_errno P = HPE_PAUSED
      then Some (P\<lparr>p_errno := if paused then HPE_PAUSED else HPE_OK\<rparr>) else None)"

definition http_body_is_final :: "http_parser \<Rightarrow> bool" where
  "http_body_is_final P \<longleftrightarrow> p_state P = s_message_done"

section \<open>Steps\<close>

datatype data_kind = K_header_field | K_header_value | K_url | K_body
datatype notify_kind = N_message_begin | N_status_complete | N_message_complete

text \<open>
  The callback macros: \<open>CALLBACK_NOTIFY\<close>, \<open>CALLBACK_DATA\<close>, \<open>CALLBACK_DATA_NOADVANCE\<close>, the body
  callback that includes the current byte, and the call of \<open>on_headers_complete\<close>.
\<close>

datatype action =
  No_callback | Notify notify_kind | Data data_kind | Data_noadvance data_kind
| Data_through data_kind | Headers_complete

datatype control = Break | Reexecute | Return_next | Error http_errno | Assert_fails

record step =
  st_parser :: http_parser
  st_mark :: "data_kind option"
  st_advance :: nat
  st_action :: action
  st_control :: control

definition leave :: "http_parser \<Rightarrow> action \<Rightarrow> control \<Rightarrow> step" where
  "leave P a c = \<lparr>st_parser = P, st_mark = None, st_advance = 0, st_action = a, st_control = c\<rparr>"

abbreviation brk :: "http_parser \<Rightarrow> step" where
  "brk P \<equiv> leave P No_callback Break"

abbreviation error :: "http_errno \<Rightarrow> http_parser \<Rightarrow> step" where
  "error e P \<equiv> leave P No_callback (Error e)"

abbreviation goto_state :: "state \<Rightarrow> http_parser \<Rightarrow> step" where
  "goto_state s P \<equiv> brk (P\<lparr>p_state := s\<rparr>)"

definition marking :: "data_kind \<Rightarrow> step \<Rightarrow> step" where
  "marking k st = st\<lparr>st_mark := Some k\<rparr>"

text \<open>\<open>STRICT_CHECK(ch != c)\<close> and the transition that follows it.\<close>

definition expect :: "bool \<Rightarrow> char \<Rightarrow> char \<Rightarrow> http_parser \<Rightarrow> step \<Rightarrow> step" where
  "expect strict c ch P st = (if strict \<and> ch \<noteq> c then error HPE_STRICT P else st)"

section \<open>The URL automaton\<close>

definition parse_url_server :: "char \<Rightarrow> state" where
  "parse_url_server ch =
     (if ch = CHR ''/'' then s_req_path
      else if ch = CHR ''?'' then s_req_query_string_start
      else if ch = CHR ''@'' then s_req_server_with_at
      else if is_userinfo_char ch \<or> ch = CHR ''['' \<or> ch = CHR '']'' then s_req_server
      else s_dead)"

definition parse_url_char :: "bool \<Rightarrow> state \<Rightarrow> char \<Rightarrow> state" where
  "parse_url_char strict s ch =
     (if ch = CHR '' '' \<or> ch = CR \<or> ch = LF then s_dead
      else if strict \<and> (ch = TAB \<or> ch = FF) then s_dead
      else case s of
        s_req_spaces_before_url \<Rightarrow>
          (if ch = CHR ''/'' \<or> ch = CHR ''*'' then s_req_path
           else if is_alpha ch then s_req_schema else s_dead)
      | s_req_schema \<Rightarrow>
          (if is_alpha ch then s else if ch = CHR '':'' then s_req_schema_slash else s_dead)
      | s_req_schema_slash \<Rightarrow> (if ch = CHR ''/'' then s_req_schema_slash_slash else s_dead)
      | s_req_schema_slash_slash \<Rightarrow> (if ch = CHR ''/'' then s_req_server_start else s_dead)
      | s_req_server_with_at \<Rightarrow> (if ch = CHR ''@'' then s_dead else parse_url_server ch)
      | s_req_server_start \<Rightarrow> parse_url_server ch
      | s_req_server \<Rightarrow> parse_url_server ch
      | s_req_path \<Rightarrow>
          (if is_url_char strict ch then s
           else if ch = CHR ''?'' then s_req_query_string_start
           else if ch = CHR ''#'' then s_req_fragment_start else s_dead)
      | s_req_query_string_start \<Rightarrow>
          (if is_url_char strict ch then s_req_query_string
           else if ch = CHR ''?'' then s_req_query_string
           else if ch = CHR ''#'' then s_req_fragment_start else s_dead)
      | s_req_query_string \<Rightarrow>
          (if is_url_char strict ch then s_req_query_string
           else if ch = CHR ''?'' then s_req_query_string
           else if ch = CHR ''#'' then s_req_fragment_start else s_dead)
      | s_req_fragment_start \<Rightarrow>
          (if is_url_char strict ch then s_req_fragment
           else if ch = CHR ''?'' then s_req_fragment
           else if ch = CHR ''#'' then s else s_dead)
      | s_req_fragment \<Rightarrow>
          (if is_url_char strict ch then s
           else if ch = CHR ''?'' \<or> ch = CHR ''#'' then s else s_dead)
      | _ \<Rightarrow> s_dead)"

section \<open>Start of a message and the response line\<close>

definition on_start_req_or_res :: "http_parser \<Rightarrow> char \<Rightarrow> step" where
  "on_start_req_or_res P ch =
     (if ch = CR \<or> ch = LF then brk P
      else let P1 = P\<lparr>p_flags := {}, p_content_length := ULLONG_MAX\<rparr>
           in if ch = CHR ''H'' then leave (P1\<lparr>p_state := s_res_or_resp_H\<rparr>) (Notify N_message_begin) Break
              else leave (P1\<lparr>p_type := HTTP_REQUEST, p_state := s_start_req\<rparr>) No_callback Reexecute)"

definition on_res_or_resp_H :: "http_parser \<Rightarrow> char \<Rightarrow> step" where
  "on_res_or_resp_H P ch =
     (if ch = CHR ''T'' then brk (P\<lparr>p_type := HTTP_RESPONSE, p_state := s_res_HT\<rparr>)
      else if ch \<noteq> CHR ''E'' then error HPE_INVALID_CONSTANT P
      else brk (P\<lparr>p_type := HTTP_REQUEST, p_method := HTTP_HEAD, p_index := 2, p_state := s_req_method\<rparr>))"

definition on_start_res :: "http_parser \<Rightarrow> char \<Rightarrow> step" where
  "on_start_res P ch =
     (let P1 = P\<lparr>p_flags := {}, p_content_length := ULLONG_MAX\<rparr>
      in if ch = CHR ''H'' then leave (P1\<lparr>p_state := s_res_H\<rparr>) (Notify N_message_begin) Break
         else if ch = CR \<or> ch = LF then leave P1 (Notify N_message_begin) Break
         else error HPE_INVALID_CONSTANT P1)"

text \<open>The digits of a version or status, at most 999.\<close>

definition push_digit :: "nat \<Rightarrow> char \<Rightarrow> nat" where
  "push_digit n ch = n * 10 + digit ch"

definition on_first_major :: "nat \<Rightarrow> state \<Rightarrow> http_parser \<Rightarrow> char \<Rightarrow> step" where
  "on_first_major lowest s P ch =
     (if code ch < 48 + lowest \<or> code ch > 57 then error HPE_INVALID_VERSION P
      else brk (P\<lparr>p_http_major := digit ch, p_state := s\<rparr>))"

definition on_major :: "state \<Rightarrow> http_parser \<Rightarrow> char \<Rightarrow> step" where
  "on_major s P ch =
     (if ch = CHR ''.'' then goto_state s P
      else if \<not> is_num ch then error HPE_INVALID_VERSION P
      else let P1 = P\<lparr>p_http_major := push_digit (p_http_major P) ch\<rparr>
           in if p_http_major P1 > 999 then error HPE_INVALID_VERSION P1 else brk P1)"

definition on_first_minor :: "state \<Rightarrow> http_parser \<Rightarrow> char \<Rightarrow> step" where
  "on_first_minor s P ch =
     (if \<not> is_num ch then error HPE_INVALID_VERSION P
      else brk (P\<lparr>p_http_minor := digit ch, p_state := s\<rparr>))"

definition minor_digit :: "http_parser \<Rightarrow> char \<Rightarrow> step" where
  "minor_digit P ch =
     (if \<not> is_num ch then error HPE_INVALID_VERSION P
      else let P1 = P\<lparr>p_http_minor := push_digit (p_http_minor P) ch\<rparr>
           in if p_http_minor P1 > 999 then error HPE_INVALID_VERSION P1 else brk P1)"

definition on_res_minor :: "http_parser \<Rightarrow> char \<Rightarrow> step" where
  "on_res_minor P ch = (if ch = CHR '' '' then goto_state s_res_first_status_code P else minor_digit P ch)"

definition on_first_status :: "http_parser \<Rightarrow> char \<Rightarrow> step" where
  "on_first_status P ch =
     (if \<not> is_num ch
      then (if ch = CHR '' '' then brk P else error HPE_INVALID_STATUS P)
      else brk (P\<lparr>p_status_code := digit ch, p_state := s_res_status_code\<rparr>))"

definition on_status_code :: "http_parser \<Rightarrow> char \<Rightarrow> step" where
  "on_status_code P ch =
     (if \<not> is_num ch
      then (if ch = CHR '' '' then goto_state s_res_status P
            else if ch = CR then goto_state s_res_line_almost_done P
            else if ch = LF then goto_state s_header_field_start P
            else error HPE_INVALID_STATUS P)
      else let P1 = P\<lparr>p_status_code := push_digit (p_status_code P) ch\<rparr>
           in if p_status_code P1 > 999 then error HPE_INVALID_STATUS P1 else brk P1)"

definition on_res_status :: "http_parser \<Rightarrow> char \<Rightarrow> step" where
  "on_res_status P ch =
     (if ch = CR then goto_state s_res_line_almost_done P
      else if ch = LF then goto_state s_header_field_start P else brk P)"


section \<open>The request line\<close>

definition first_method :: "char \<Rightarrow> http_method option" where
  "first_method ch =
     map_of [(CHR ''C'', HTTP_CONNECT), (CHR ''D'', HTTP_DELETE), (CHR ''G'', HTTP_GET),
       (CHR ''H'', HTTP_HEAD), (CHR ''L'', HTTP_LOCK), (CHR ''M'', HTTP_MKCOL), (CHR ''N'', HTTP_NOTIFY),
       (CHR ''O'', HTTP_OPTIONS), (CHR ''P'', HTTP_POST), (CHR ''R'', HTTP_REPORT),
       (CHR ''S'', HTTP_SUBSCRIBE), (CHR ''T'', HTTP_TRACE), (CHR ''U'', HTTP_UNLOCK)] ch"

definition on_start_req :: "http_parser \<Rightarrow> char \<Rightarrow> step" where
  "on_start_req P ch =
     (if ch = CR \<or> ch = LF then brk P
      else let P1 = P\<lparr>p_flags := {}, p_content_length := ULLONG_MAX\<rparr>
           in if \<not> is_alpha ch then error HPE_INVALID_METHOD P1
              else let P2 = P1\<lparr>p_method := HTTP_DELETE, p_index := 1\<rparr>
                   in case first_method ch of
                        None \<Rightarrow> error HPE_INVALID_METHOD P2
                      | Some m \<Rightarrow>
                          leave (P2\<lparr>p_method := m, p_state := s_req_method\<rparr>) (Notify N_message_begin) Break)"

text \<open>Where a method's name departs from the one assumed so far; \<open>None\<close> is an invalid method.\<close>

definition other_method :: "http_method \<Rightarrow> nat \<Rightarrow> char \<Rightarrow> http_method option" where
  "other_method m i ch =
     (if m = HTTP_CONNECT
      then (if i = 1 \<and> ch = CHR ''H'' then Some HTTP_CHECKOUT
            else if i = 2 \<and> ch = CHR ''P'' then Some HTTP_COPY else None)
      else if m = HTTP_MKCOL
      then (if i = 1 \<and> ch = CHR ''O'' then Some HTTP_MOVE
            else if i = 1 \<and> ch = CHR ''E'' then Some HTTP_MERGE
            else if i = 1 \<and> ch = CHR ''-'' then Some HTTP_MSEARCH
            else if i = 2 \<and> ch = CHR ''A'' then Some HTTP_MKACTIVITY else None)
      else if m = HTTP_SUBSCRIBE
      then (if i = 1 \<and> ch = CHR ''E'' then Some HTTP_SEARCH else None)
      else if i = 1 \<and> m = HTTP_POST
      then (if ch = CHR ''R'' then Some HTTP_PROPFIND
            else if ch = CHR ''U'' then Some HTTP_PUT
            else if ch = CHR ''A'' then Some HTTP_PATCH else None)
      else if i = 2
      then (if m = HTTP_PUT then (if ch = CHR ''R'' then Some HTTP_PURGE else None)
            else if m = HTTP_UNLOCK then (if ch = CHR ''S'' then Some HTTP_UNSUBSCRIBE else None)
            else None)
      else if i = 4 \<and> m = HTTP_PROPFIND \<and> ch = CHR ''P'' then Some HTTP_PROPPATCH
      else None)"

text \<open>The character of a C string at an index, its terminator included.\<close>

definition c_at :: "string \<Rightarrow> nat \<Rightarrow> char" where
  "c_at w i = (if i < length w then w ! i else NUL)"

definition on_req_method :: "http_parser \<Rightarrow> char \<Rightarrow> step" where
  "on_req_method P ch =
     (if ch = NUL then error HPE_INVALID_METHOD P
      else let matcher = method_string (p_method P); next_index = (\<lambda>P. P\<lparr>p_index := Suc (p_index P)\<rparr>)
           in if ch = CHR '' '' \<and> c_at matcher (p_index P) = NUL
              then brk (next_index (P\<lparr>p_state := s_req_spaces_before_url\<rparr>))
              else if ch = c_at matcher (p_index P) then brk (next_index P)
              else case other_method (p_method P) (p_index P) ch of
                     None \<Rightarrow> error HPE_INVALID_METHOD P
                   | Some m \<Rightarrow> brk (next_index (P\<lparr>p_method := m\<rparr>)))"

definition url_next :: "bool \<Rightarrow> http_parser \<Rightarrow> char \<Rightarrow> step" where
  "url_next strict P ch =
     (let P1 = P\<lparr>p_state := parse_url_char strict (p_state P) ch\<rparr>
      in if p_state P1 = s_dead then error HPE_INVALID_URL P1 else brk P1)"

definition on_spaces_before_url :: "bool \<Rightarrow> http_parser \<Rightarrow> char \<Rightarrow> step" where
  "on_spaces_before_url strict P ch =
     (if ch = CHR '' '' then brk P
      else let P1 = (if p_method P = HTTP_CONNECT then P\<lparr>p_state := s_req_server_start\<rparr> else P)
           in marking K_url (url_next strict P1 ch))"

definition on_url_no_space :: "bool \<Rightarrow> http_parser \<Rightarrow> char \<Rightarrow> step" where
  "on_url_no_space strict P ch =
     (if ch = CHR '' '' \<or> ch = CR \<or> ch = LF then error HPE_INVALID_URL P else url_next strict P ch)"

definition on_url :: "bool \<Rightarrow> http_parser \<Rightarrow> char \<Rightarrow> step" where
  "on_url strict P ch =
     (if ch = CHR '' '' then leave (P\<lparr>p_state := s_req_http_start\<rparr>) (Data K_url) Break
      else if ch = CR \<or> ch = LF
      then leave (P\<lparr>p_http_major := 0, p_http_minor := 9,
                    p_state := if ch = CR then s_req_line_almost_done else s_header_field_start\<rparr>)
             (Data K_url) Break
      else url_next strict P ch)"

definition on_req_http_start :: "http_parser \<Rightarrow> char \<Rightarrow> step" where
  "on_req_http_start P ch =
     (if ch = CHR ''H'' then goto_state s_req_http_H P
      else if ch = CHR '' '' then brk P else error HPE_INVALID_CONSTANT P)"

definition on_req_minor :: "http_parser \<Rightarrow> char \<Rightarrow> step" where
  "on_req_minor P ch =
     (if ch = CR then goto_state s_req_line_almost_done P
      else if ch = LF then goto_state s_header_field_start P else minor_digit P ch)"

definition on_req_line_almost_done :: "http_parser \<Rightarrow> char \<Rightarrow> step" where
  "on_req_line_almost_done P ch =
     (if ch \<noteq> LF then error HPE_LF_EXPECTED P else goto_state s_header_field_start P)"

section \<open>Headers\<close>

text \<open>One more character of a header name or value that is being matched with \<open>w\<close>.\<close>

definition match_next :: "string \<Rightarrow> header_states \<Rightarrow> char \<Rightarrow> http_parser \<Rightarrow> http_parser" where
  "match_next w matched c P =
     (let i = Suc (p_index P); P1 = P\<lparr>p_index := i\<rparr>
      in if i > length w \<or> c \<noteq> c_at w i then P1\<lparr>p_header_state := h_general\<rparr>
         else if i = length w - 1 then P1\<lparr>p_header_state := matched\<rparr> else P1)"

definition on_header_field_start :: "bool \<Rightarrow> http_parser \<Rightarrow> char \<Rightarrow> step" where
  "on_header_field_start strict P ch =
     (if ch = CR then goto_state s_headers_almost_done P
      else if ch = LF then leave (P\<lparr>p_state := s_headers_almost_done\<rparr>) No_callback Reexecute
      else let c = token strict ch
           in if c = NUL then error HPE_INVALID_HEADER_TOKEN P
              else marking K_header_field
                (brk (P\<lparr>p_index := 0, p_state := s_header_field,
                   p_header_state :=
                     if c = CHR ''c'' then h_C
                     else if c = CHR ''p'' then h_matching_proxy_connection
                     else if c = CHR ''t'' then h_matching_transfer_encoding
                     else if c = CHR ''u'' then h_matching_upgrade
                     else h_general\<rparr>)))"

text \<open>\<open>None\<close> is the assertion against an unknown header state.\<close>

definition header_field_char :: "char \<Rightarrow> char \<Rightarrow> http_parser \<Rightarrow> http_parser option" where
  "header_field_char ch c P =
     (let P1 = P\<lparr>p_index := Suc (p_index P)\<rparr>
      in case p_header_state P of
           h_general \<Rightarrow> Some P
         | h_C \<Rightarrow> Some (P1\<lparr>p_header_state := if c = CHR ''o'' then h_CO else h_general\<rparr>)
         | h_CO \<Rightarrow> Some (P1\<lparr>p_header_state := if c = CHR ''n'' then h_CON else h_general\<rparr>)
         | h_CON \<Rightarrow> Some (P1\<lparr>p_header_state :=
               if c = CHR ''n'' then h_matching_connection
               else if c = CHR ''t'' then h_matching_content_length else h_general\<rparr>)
         | h_matching_connection \<Rightarrow> Some (match_next ''connection'' h_connection c P)
         | h_matching_proxy_connection \<Rightarrow> Some (match_next ''proxy-connection'' h_connection c P)
         | h_matching_content_length \<Rightarrow> Some (match_next ''content-length'' h_content_length c P)
         | h_matching_transfer_encoding \<Rightarrow> Some (match_next ''transfer-encoding'' h_transfer_encoding c P)
         | h_matching_upgrade \<Rightarrow> Some (match_next ''upgrade'' h_upgrade c P)
         | h_connection \<Rightarrow> Some (if ch \<noteq> CHR '' '' then P\<lparr>p_header_state := h_general\<rparr> else P)
         | h_content_length \<Rightarrow> Some (if ch \<noteq> CHR '' '' then P\<lparr>p_header_state := h_general\<rparr> else P)
         | h_transfer_encoding \<Rightarrow> Some (if ch \<noteq> CHR '' '' then P\<lparr>p_header_state := h_general\<rparr> else P)
         | h_upgrade \<Rightarrow> Some (if ch \<noteq> CHR '' '' then P\<lparr>p_header_state := h_general\<rparr> else P)
         | _ \<Rightarrow> None)"

definition on_header_field :: "bool \<Rightarrow> http_parser \<Rightarrow> char \<Rightarrow> step" where
  "on_header_field strict P ch =
     (let c = token strict ch
      in if c \<noteq> NUL
         then (case header_field_char ch c P of
                 Some P1 \<Rightarrow> brk P1 | None \<Rightarrow> leave P No_callback Assert_fails)
         else if ch = CHR '':'' then leave (P\<lparr>p_state := s_header_value_start\<rparr>) (Data K_header_field) Break
         else if ch = CR then leave (P\<lparr>p_state := s_header_almost_done\<rparr>) (Data K_header_field) Break
         else if ch = LF then leave (P\<lparr>p_state := s_header_field_start\<rparr>) (Data K_header_field) Break
         else error HPE_INVALID_HEADER_TOKEN P)"

definition header_value_first :: "http_parser \<Rightarrow> char \<Rightarrow> step" where
  "header_value_first P ch =
     (let c = lower ch
      in case p_header_state P of
           h_upgrade \<Rightarrow> brk (P\<lparr>p_flags := insert F_UPGRADE (p_flags P), p_header_state := h_general\<rparr>)
         | h_transfer_encoding \<Rightarrow>
             brk (P\<lparr>p_header_state :=
                      if c = CHR ''c'' then h_matching_transfer_encoding_chunked else h_general\<rparr>)
         | h_content_length \<Rightarrow>
             (if \<not> is_num ch then error HPE_INVALID_CONTENT_LENGTH P
              else brk (P\<lparr>p_content_length := of_nat (digit ch)\<rparr>))
         | h_connection \<Rightarrow>
             brk (P\<lparr>p_header_state :=
                      if c = CHR ''k'' then h_matching_connection_keep_alive
                      else if c = CHR ''c'' then h_matching_connection_close else h_general\<rparr>)
         | _ \<Rightarrow> brk (P\<lparr>p_header_state := h_general\<rparr>))"

definition on_header_value_start :: "http_parser \<Rightarrow> char \<Rightarrow> step" where
  "on_header_value_start P ch =
     (if ch = CHR '' '' \<or> ch = TAB then brk P
      else let P1 = P\<lparr>p_state := s_header_value, p_index := 0\<rparr>
           in marking K_header_value
             (if ch = CR
              then leave (P1\<lparr>p_header_state := h_general, p_state := s_header_almost_done\<rparr>)
                     (Data K_header_value) Break
              else if ch = LF
              then leave (P1\<lparr>p_state := s_header_field_start\<rparr>) (Data K_header_value) Break
              else header_value_first P1 ch))"

text \<open>
  A digit appended to a 64-bit length, with the code's test for overflow: \<open>None\<close> is an
  invalid length.
\<close>

definition length_digit :: "u64 \<Rightarrow> u64 \<Rightarrow> u64 \<Rightarrow> u64 option" where
  "length_digit base n d =
     (let t = n * base + d in if t < n \<or> t = ULLONG_MAX then None else Some t)"

definition header_value_char :: "http_parser \<Rightarrow> char \<Rightarrow> step" where
  "header_value_char P ch =
     (let c = lower ch
      in case p_header_state P of
           h_general \<Rightarrow> brk P
         | h_connection \<Rightarrow> leave P No_callback Assert_fails
         | h_transfer_encoding \<Rightarrow> leave P No_callback Assert_fails
         | h_content_length \<Rightarrow>
             (if ch = CHR '' '' then brk P
              else if \<not> is_num ch then error HPE_INVALID_CONTENT_LENGTH P
              else case length_digit 10 (p_content_length P) (of_nat (digit ch)) of
                     None \<Rightarrow> error HPE_INVALID_CONTENT_LENGTH P
                   | Some t \<Rightarrow> brk (P\<lparr>p_content_length := t\<rparr>))
         | h_matching_transfer_encoding_chunked \<Rightarrow>
             brk (match_next ''chunked'' h_transfer_encoding_chunked c P)
         | h_matching_connection_keep_alive \<Rightarrow>
             brk (match_next ''keep-alive'' h_connection_keep_alive c P)
         | h_matching_connection_close \<Rightarrow> brk (match_next ''close'' h_connection_close c P)
         | h_transfer_encoding_chunked \<Rightarrow>
             brk (if ch \<noteq> CHR '' '' then P\<lparr>p_header_state := h_general\<rparr> else P)
         | h_connection_keep_alive \<Rightarrow>
             brk (if ch \<noteq> CHR '' '' then P\<lparr>p_header_state := h_general\<rparr> else P)
         | h_connection_close \<Rightarrow>
             brk (if ch \<noteq> CHR '' '' then P\<lparr>p_header_state := h_general\<rparr> else P)
         | _ \<Rightarrow> brk (P\<lparr>p_state := s_header_value, p_header_state := h_general\<rparr>))"

definition on_header_value :: "http_parser \<Rightarrow> char \<Rightarrow> step" where
  "on_header_value P ch =
     (if ch = CR then leave (P\<lparr>p_state := s_header_almost_done\<rparr>) (Data K_header_value) Break
      else if ch = LF
      then leave (P\<lparr>p_state := s_header_almost_done\<rparr>) (Data_noadvance K_header_value) Reexecute
      else header_value_char P ch)"

definition on_header_almost_done :: "bool \<Rightarrow> http_parser \<Rightarrow> char \<Rightarrow> step" where
  "on_header_almost_done strict P ch =
     expect strict LF ch P
       (let P1 = P\<lparr>p_state := s_header_value_lws\<rparr>
        in case p_header_state P of
             h_connection_keep_alive \<Rightarrow> brk (P1\<lparr>p_flags := insert F_CONNECTION_KEEP_ALIVE (p_flags P)\<rparr>)
           | h_connection_close \<Rightarrow> brk (P1\<lparr>p_flags := insert F_CONNECTION_CLOSE (p_flags P)\<rparr>)
           | h_transfer_encoding_chunked \<Rightarrow> brk (P1\<lparr>p_flags := insert F_CHUNKED (p_flags P)\<rparr>)
           | _ \<Rightarrow> brk P1)"

definition on_header_value_lws :: "http_parser \<Rightarrow> char \<Rightarrow> step" where
  "on_header_value_lws P ch =
     (if ch = CHR '' '' \<or> ch = TAB then goto_state s_header_value_start P
      else leave (P\<lparr>p_state := s_header_field_start\<rparr>) No_callback Reexecute)"


section \<open>End of the headers\<close>

definition message_done :: "bool \<Rightarrow> http_parser \<Rightarrow> control \<Rightarrow> step" where
  "message_done strict P c =
     leave (P\<lparr>p_state := new_message strict P\<rparr>) (Notify N_message_complete) c"

definition on_headers_almost_done :: "bool \<Rightarrow> http_parser \<Rightarrow> char \<Rightarrow> step" where
  "on_headers_almost_done strict P ch =
     expect strict LF ch P
       (if F_TRAILING \<in> p_flags P then message_done strict P Break
        else leave
          (P\<lparr>p_state := s_headers_done,
             p_upgrade := F_UPGRADE \<in> p_flags P \<or> p_method P = HTTP_CONNECT\<rparr>)
          Headers_complete Reexecute)"

definition on_headers_done :: "bool \<Rightarrow> http_parser \<Rightarrow> char \<Rightarrow> step" where
  "on_headers_done strict P ch =
     expect strict LF ch P
       (let P1 = P\<lparr>p_nread := 0\<rparr>
        in if p_upgrade P1 then message_done strict P1 Return_next
           else if F_SKIPBODY \<in> p_flags P1 then message_done strict P1 Break
           else if F_CHUNKED \<in> p_flags P1 then goto_state s_chunk_size_start P1
           else if p_content_length P1 = 0 then message_done strict P1 Break
           else if p_content_length P1 \<noteq> ULLONG_MAX then goto_state s_body_identity P1
           else if p_type P1 = HTTP_REQUEST \<or> \<not> http_message_needs_eof P1
           then message_done strict P1 Break
           else goto_state s_body_identity_eof P1)"

section \<open>Bodies\<close>

definition to_read :: "nat \<Rightarrow> http_parser \<Rightarrow> nat" where
  "to_read rem P = min (unat (p_content_length P)) rem"

definition take_body :: "nat \<Rightarrow> http_parser \<Rightarrow> http_parser" where
  "take_body rem P = P\<lparr>p_content_length := p_content_length P - of_nat (to_read rem P)\<rparr>"

definition body_step :: "nat \<Rightarrow> step \<Rightarrow> step" where
  "body_step n st = st\<lparr>st_mark := Some K_body, st_advance := n - 1\<rparr>"

definition on_body_identity :: "nat \<Rightarrow> http_parser \<Rightarrow> step" where
  "on_body_identity rem P =
     (if p_content_length P = 0 \<or> p_content_length P = ULLONG_MAX
      then leave P No_callback Assert_fails
      else let P1 = take_body rem P
           in body_step (to_read rem P)
             (if p_content_length P1 = 0
              then leave (P1\<lparr>p_state := s_message_done\<rparr>) (Data_through K_body) Reexecute
              else brk P1))"

definition on_body_identity_eof :: "nat \<Rightarrow> http_parser \<Rightarrow> step" where
  "on_body_identity_eof rem P = body_step rem (brk P)"

definition assert_chunked :: "http_parser \<Rightarrow> step \<Rightarrow> step" where
  "assert_chunked P st = (if F_CHUNKED \<in> p_flags P then st else leave P No_callback Assert_fails)"

definition on_chunk_size_start :: "http_parser \<Rightarrow> char \<Rightarrow> step" where
  "on_chunk_size_start P ch =
     (if p_nread P \<noteq> 1 then leave P No_callback Assert_fails
      else assert_chunked P
        (if unhex ch = -1 then error HPE_INVALID_CHUNK_SIZE P
         else brk (P\<lparr>p_content_length := of_int (unhex ch), p_state := s_chunk_size\<rparr>)))"

definition on_chunk_size :: "http_parser \<Rightarrow> char \<Rightarrow> step" where
  "on_chunk_size P ch =
     assert_chunked P
       (if ch = CR then goto_state s_chunk_size_almost_done P
        else if unhex ch = -1
        then (if ch = CHR '';'' \<or> ch = CHR '' '' then goto_state s_chunk_parameters P
              else error HPE_INVALID_CHUNK_SIZE P)
        else case length_digit 16 (p_content_length P) (of_int (unhex ch)) of
               None \<Rightarrow> error HPE_INVALID_CONTENT_LENGTH P
             | Some t \<Rightarrow> brk (P\<lparr>p_content_length := t\<rparr>))"

definition on_chunk_parameters :: "http_parser \<Rightarrow> char \<Rightarrow> step" where
  "on_chunk_parameters P ch =
     assert_chunked P (if ch = CR then goto_state s_chunk_size_almost_done P else brk P)"

definition on_chunk_size_almost_done :: "bool \<Rightarrow> http_parser \<Rightarrow> char \<Rightarrow> step" where
  "on_chunk_size_almost_done strict P ch =
     assert_chunked P
       (expect strict LF ch P
         (let P1 = P\<lparr>p_nread := 0\<rparr>
          in if p_content_length P1 = 0
             then brk (P1\<lparr>p_flags := insert F_TRAILING (p_flags P1), p_state := s_header_field_start\<rparr>)
             else goto_state s_chunk_data P1))"

definition on_chunk_data :: "nat \<Rightarrow> http_parser \<Rightarrow> step" where
  "on_chunk_data rem P =
     assert_chunked P
       (if p_content_length P = 0 \<or> p_content_length P = ULLONG_MAX
        then leave P No_callback Assert_fails
        else let P1 = take_body rem P
             in body_step (to_read rem P)
               (if p_content_length P1 = 0 then goto_state s_chunk_data_almost_done P1 else brk P1))"

definition on_chunk_data_almost_done :: "bool \<Rightarrow> http_parser \<Rightarrow> char \<Rightarrow> step" where
  "on_chunk_data_almost_done strict P ch =
     assert_chunked P
       (if p_content_length P \<noteq> 0 then leave P No_callback Assert_fails
        else expect strict CR ch P (leave (P\<lparr>p_state := s_chunk_data_done\<rparr>) (Data K_body) Break))"

definition on_chunk_data_done :: "bool \<Rightarrow> http_parser \<Rightarrow> char \<Rightarrow> step" where
  "on_chunk_data_done strict P ch =
     assert_chunked P
       (expect strict LF ch P (brk (P\<lparr>p_nread := 0, p_state := s_chunk_size_start\<rparr>)))"

section \<open>The switch\<close>

text \<open>\<open>rem\<close> is the number of bytes from the current one to the end of the data.\<close>

definition on_byte :: "bool \<Rightarrow> nat \<Rightarrow> http_parser \<Rightarrow> char \<Rightarrow> step" where
  "on_byte strict rem P ch =
     (case p_state P of
        s_dead \<Rightarrow> (if ch = CR \<or> ch = LF then brk P else error HPE_CLOSED_CONNECTION P)
      | s_start_req_or_res \<Rightarrow> on_start_req_or_res P ch
      | s_res_or_resp_H \<Rightarrow> on_res_or_resp_H P ch
      | s_start_res \<Rightarrow> on_start_res P ch
      | s_res_H \<Rightarrow> expect strict (CHR ''T'') ch P (goto_state s_res_HT P)
      | s_res_HT \<Rightarrow> expect strict (CHR ''T'') ch P (goto_state s_res_HTT P)
      | s_res_HTT \<Rightarrow> expect strict (CHR ''P'') ch P (goto_state s_res_HTTP P)
      | s_res_HTTP \<Rightarrow> expect strict (CHR ''/'') ch P (goto_state s_res_first_http_major P)
      | s_res_first_http_major \<Rightarrow> on_first_major 0 s_res_http_major P ch
      | s_res_http_major \<Rightarrow> on_major s_res_first_http_minor P ch
      | s_res_first_http_minor \<Rightarrow> on_first_minor s_res_http_minor P ch
      | s_res_http_minor \<Rightarrow> on_res_minor P ch
      | s_res_first_status_code \<Rightarrow> on_first_status P ch
      | s_res_status_code \<Rightarrow> on_status_code P ch
      | s_res_status \<Rightarrow> on_res_status P ch
      | s_res_line_almost_done \<Rightarrow>
          expect strict LF ch P (leave (P\<lparr>p_state := s_header_field_start\<rparr>) (Notify N_status_complete) Break)
      | s_start_req \<Rightarrow> on_start_req P ch
      | s_req_method \<Rightarrow> on_req_method P ch
      | s_req_spaces_before_url \<Rightarrow> on_spaces_before_url strict P ch
      | s_req_schema \<Rightarrow> on_url_no_space strict P ch
      | s_req_schema_slash \<Rightarrow> on_url_no_space strict P ch
      | s_req_schema_slash_slash \<Rightarrow> on_url_no_space strict P ch
      | s_req_server_start \<Rightarrow> on_url_no_space strict P ch
      | s_req_server \<Rightarrow> on_url strict P ch
      | s_req_server_with_at \<Rightarrow> on_url strict P ch
      | s_req_path \<Rightarrow> on_url strict P ch
      | s_req_query_string_start \<Rightarrow> on_url strict P ch
      | s_req_query_string \<Rightarrow> on_url strict P ch
      | s_req_fragment_start \<Rightarrow> on_url strict P ch
      | s_req_fragment \<Rightarrow> on_url strict P ch
      | s_req_http_start \<Rightarrow> on_req_http_start P ch
      | s_req_http_H \<Rightarrow> expect strict (CHR ''T'') ch P (goto_state s_req_http_HT P)
      | s_req_http_HT \<Rightarrow> expect strict (CHR ''T'') ch P (goto_state s_req_http_HTT P)
      | s_req_http_HTT \<Rightarrow> expect strict (CHR ''P'') ch P (goto_state s_req_http_HTTP P)
      | s_req_http_HTTP \<Rightarrow> expect strict (CHR ''/'') ch P (goto_state s_req_first_http_major P)
      | s_req_first_http_major \<Rightarrow> on_first_major 1 s_req_http_major P ch
      | s_req_http_major \<Rightarrow> on_major s_req_first_http_minor P ch
      | s_req_first_http_minor \<Rightarrow> on_first_minor s_req_http_minor P ch
      | s_req_http_minor \<Rightarrow> on_req_minor P ch
      | s_req_line_almost_done \<Rightarrow> on_req_line_almost_done P ch
      | s_header_field_start \<Rightarrow> on_header_field_start strict P ch
      | s_header_field \<Rightarrow> on_header_field strict P ch
      | s_header_value_start \<Rightarrow> on_header_value_start P ch
      | s_header_value \<Rightarrow> on_header_value P ch
      | s_header_value_lws \<Rightarrow> on_header_value_lws P ch
      | s_header_almost_done \<Rightarrow> on_header_almost_done strict P ch
      | s_chunk_size_start \<Rightarrow> on_chunk_size_start P ch
      | s_chunk_size \<Rightarrow> on_chunk_size P ch
      | s_chunk_parameters \<Rightarrow> on_chunk_parameters P ch
      | s_chunk_size_almost_done \<Rightarrow> on_chunk_size_almost_done strict P ch
      | s_headers_almost_done \<Rightarrow> on_headers_almost_done strict P ch
      | s_headers_done \<Rightarrow> on_headers_done strict P ch
      | s_chunk_data \<Rightarrow> on_chunk_data rem P
      | s_chunk_data_almost_done \<Rightarrow> on_chunk_data_almost_done strict P ch
      | s_chunk_data_done \<Rightarrow> on_chunk_data_done strict P ch
      | s_body_identity \<Rightarrow> on_body_identity rem P
      | s_body_identity_eof \<Rightarrow> on_body_identity_eof rem P
      | s_message_done \<Rightarrow> message_done strict P Break)"

section \<open>Callbacks and marks\<close>

text \<open>A callback returns the C result, whether it paused the parser, and the new application state.\<close>

record 'u settings =
  on_notify :: "notify_kind \<Rightarrow> (http_parser \<Rightarrow> 'u \<Rightarrow> int \<times> bool \<times> 'u) option"
  on_data :: "data_kind \<Rightarrow> (http_parser \<Rightarrow> string \<Rightarrow> 'u \<Rightarrow> int \<times> bool \<times> 'u) option"
  on_headers_complete :: "(http_parser \<Rightarrow> 'u \<Rightarrow> int \<times> bool \<times> 'u) option"

record 'u exec =
  e_parser :: http_parser
  e_user :: 'u
  e_pos :: nat
  e_marks :: "data_kind \<Rightarrow> nat option"

definition notify_errno :: "notify_kind \<Rightarrow> http_errno" where
  "notify_errno k =
     (case k of N_message_begin \<Rightarrow> HPE_CB_message_begin | N_status_complete \<Rightarrow> HPE_CB_status_complete
      | N_message_complete \<Rightarrow> HPE_CB_message_complete)"

definition data_errno :: "data_kind \<Rightarrow> http_errno" where
  "data_errno k =
     (case k of K_header_field \<Rightarrow> HPE_CB_header_field | K_header_value \<Rightarrow> HPE_CB_header_value
      | K_url \<Rightarrow> HPE_CB_url | K_body \<Rightarrow> HPE_CB_body)"

definition set_errno :: "http_errno \<Rightarrow> 'u exec \<Rightarrow> 'u exec" where
  "set_errno e E = E\<lparr>e_parser := (e_parser E)\<lparr>p_errno := e\<rparr>\<rparr>"

text \<open>The state after a callback that fails with \<open>e\<close> if its result is not zero.\<close>

definition after_callback :: "http_errno \<Rightarrow> int \<times> bool \<times> 'u \<Rightarrow> 'u exec \<Rightarrow> 'u exec" where
  "after_callback e r E =
     (let (ret, paused, u) = r; E1 = E\<lparr>e_user := u\<rparr>
      in if ret \<noteq> 0 then set_errno e E1 else if paused then set_errno HPE_PAUSED E1 else E1)"

definition call_notify :: "'u settings \<Rightarrow> notify_kind \<Rightarrow> 'u exec \<Rightarrow> 'u exec" where
  "call_notify S k E =
     (case on_notify S k of
        None \<Rightarrow> E
      | Some f \<Rightarrow> after_callback (notify_errno k) (f (e_parser E) (e_user E)) E)"

text \<open>The data callback on the bytes from the mark to \<open>hi\<close>; the mark is cleared.\<close>

definition call_data :: "'u settings \<Rightarrow> string \<Rightarrow> data_kind \<Rightarrow> nat \<Rightarrow> 'u exec \<Rightarrow> 'u exec" where
  "call_data S D k hi E =
     (case e_marks E k of
        None \<Rightarrow> E
      | Some m \<Rightarrow>
          (let E1 = (case on_data S k of
                       None \<Rightarrow> E
                     | Some f \<Rightarrow>
                         after_callback (data_errno k) (f (e_parser E) (slice m hi D) (e_user E)) E)
           in E1\<lparr>e_marks := (e_marks E1)(k := None)\<rparr>))"

definition call_headers_complete :: "'u settings \<Rightarrow> 'u exec \<Rightarrow> 'u exec" where
  "call_headers_complete S E =
     (case on_headers_complete S of
        None \<Rightarrow> E
      | Some f \<Rightarrow>
          (let (ret, paused, u) = f (e_parser E) (e_user E); P = e_parser E
           in if ret = 1
              then after_callback HPE_CB_headers_complete (0, paused, u)
                     (E\<lparr>e_parser := P\<lparr>p_flags := insert F_SKIPBODY (p_flags P)\<rparr>\<rparr>)
              else after_callback HPE_CB_headers_complete (ret, paused, u) E))"

text \<open>The state after an action, and what \<open>http_parser_execute\<close> returns if it set the error number.\<close>

definition perform :: "'u settings \<Rightarrow> string \<Rightarrow> action \<Rightarrow> 'u exec \<Rightarrow> 'u exec \<times> nat" where
  "perform S D a E =
     (case a of
        No_callback \<Rightarrow> (E, e_pos E)
      | Notify k \<Rightarrow> (call_notify S k E, Suc (e_pos E))
      | Data k \<Rightarrow> (call_data S D k (e_pos E) E, Suc (e_pos E))
      | Data_noadvance k \<Rightarrow> (call_data S D k (e_pos E) E, e_pos E)
      | Data_through k \<Rightarrow> (call_data S D k (Suc (e_pos E)) E, e_pos E)
      | Headers_complete \<Rightarrow> (call_headers_complete S E, e_pos E))"

definition set_mark :: "data_kind option \<Rightarrow> 'u exec \<Rightarrow> 'u exec" where
  "set_mark mk E =
     (case mk of
        None \<Rightarrow> E
      | Some k \<Rightarrow> (if e_marks E k = None then E\<lparr>e_marks := (e_marks E)(k := Some (e_pos E))\<rparr> else E))"

definition apply_step :: "step \<Rightarrow> 'u exec \<Rightarrow> 'u exec" where
  "apply_step st E =
     (let E1 = set_mark (st_mark st) E
      in E1\<lparr>e_parser := st_parser st, e_pos := e_pos E1 + st_advance st\<rparr>)"

section \<open>The loop\<close>

datatype 'u flow = Next "'u exec" | Stop nat "'u exec" | Abort

text \<open>The states from which \<open>goto reexecute_byte\<close> may still follow, counted down.\<close>

definition reexec_rank :: "state \<Rightarrow> nat" where
  "reexec_rank s =
     (case s of
        s_start_req_or_res \<Rightarrow> 1 | s_header_value \<Rightarrow> 1 | s_headers_almost_done \<Rightarrow> 1 | s_body_identity \<Rightarrow> 1
      | s_header_field_start \<Rightarrow> 2 | s_header_value_lws \<Rightarrow> 3 | _ \<Rightarrow> 0)"


lemmas request_line_defs = on_start_req_or_res_def on_start_req_def on_req_method_def url_next_def
  on_spaces_before_url_def on_url_no_space_def on_url_def on_req_http_start_def on_req_minor_def
  on_req_line_almost_done_def

lemmas response_line_defs = on_res_or_resp_H_def on_start_res_def on_first_major_def on_major_def
  on_first_minor_def minor_digit_def on_res_minor_def on_first_status_def on_status_code_def on_res_status_def

lemmas header_defs = on_header_field_start_def on_header_field_def on_header_value_start_def
  header_value_first_def on_header_value_def header_value_char_def on_header_almost_done_def
  on_header_value_lws_def

lemmas body_defs = message_done_def on_headers_almost_done_def on_headers_done_def on_body_identity_def
  on_body_identity_eof_def on_chunk_size_start_def on_chunk_size_def on_chunk_parameters_def
  on_chunk_size_almost_done_def on_chunk_data_def on_chunk_data_almost_done_def on_chunk_data_done_def
  assert_chunked_def body_step_def take_body_def

lemmas step_defs = leave_def expect_def marking_def Let_def

lemmas on_byte_defs = on_byte_def request_line_defs response_line_defs header_defs body_defs step_defs

lemma start_rank [simp]: "reexec_rank (start_state P) = 0" "reexec_rank (new_message strict P) = 0"
  by (simp_all add: start_state_def new_message_def reexec_rank_def)

lemma header_value_char_breaks: "st_control (header_value_char P ch) \<noteq> Reexecute"
  by (simp add: header_value_char_def leave_def Let_def split: header_states.split option.split)

lemma header_value_first_breaks: "st_control (header_value_first P ch) \<noteq> Reexecute"
  by (simp add: header_value_first_def leave_def Let_def split: header_states.split)

lemma on_byte_reexec:
  "st_control (on_byte strict rem P ch) = Reexecute \<Longrightarrow>
     reexec_rank (p_state (st_parser (on_byte strict rem P ch))) < reexec_rank (p_state P)"
  by (cases "p_state P")
    (auto simp: on_byte_def request_line_defs response_line_defs body_defs step_defs
      on_header_field_start_def on_header_field_def on_header_value_start_def on_header_value_def
      on_header_almost_done_def on_header_value_lws_def header_value_char_breaks header_value_first_breaks
      reexec_rank_def split: if_splits option.splits header_states.splits)


lemma callback_state [simp]:
  "p_state (e_parser (set_errno e E)) = p_state (e_parser E)"
  "p_state (e_parser (after_callback e r E)) = p_state (e_parser E)"
  "p_state (e_parser (call_notify S k E)) = p_state (e_parser E)"
  "p_state (e_parser (call_data S D j hi E)) = p_state (e_parser E)"
  "p_state (e_parser (call_headers_complete S E)) = p_state (e_parser E)"
proof -
  show 1: "p_state (e_parser (set_errno e E)) = p_state (e_parser E)" for e and E :: "'a exec"
    by (simp add: set_errno_def)
  show 2: "p_state (e_parser (after_callback e r E)) = p_state (e_parser E)" for e r and E :: "'a exec"
    by (simp add: after_callback_def 1 Let_def split: prod.split)
  show "p_state (e_parser (call_notify S k E)) = p_state (e_parser E)"
    by (simp add: call_notify_def 2 split: option.split)
  show "p_state (e_parser (call_data S D j hi E)) = p_state (e_parser E)"
    by (simp add: call_data_def 2 Let_def split: option.split)
  show "p_state (e_parser (call_headers_complete S E)) = p_state (e_parser E)"
    by (simp add: call_headers_complete_def 2 Let_def split: option.split prod.split)
qed

lemma perform_state [simp]: "p_state (e_parser (fst (perform S D a E))) = p_state (e_parser E)"
  by (simp add: perform_def split: action.split)

lemma apply_step_parser [simp]: "e_parser (apply_step st E) = st_parser st"
  by (simp add: apply_step_def Let_def)

text \<open>\<open>ch\<close> is read once per iteration; re-execution keeps it.\<close>

function run_byte :: "bool \<Rightarrow> 'u settings \<Rightarrow> string \<Rightarrow> char \<Rightarrow> 'u exec \<Rightarrow> 'u flow" where
  "run_byte strict S D ch E =
     (let st = on_byte strict (length D - e_pos E) (e_parser E) ch; E1 = apply_step st E;
          (E2, n) = perform S D (st_action st) E1
      in if st_action st \<noteq> No_callback \<and> st_action st \<noteq> Headers_complete
            \<and> p_errno (e_parser E1) \<noteq> HPE_OK then Abort
         else if st_action st \<noteq> No_callback \<and> p_errno (e_parser E2) \<noteq> HPE_OK then Stop n E2
         else case st_control st of
                Break \<Rightarrow> Next E2
              | Reexecute \<Rightarrow> run_byte strict S D ch E2
              | Return_next \<Rightarrow> Stop (Suc (e_pos E2)) E2
              | Error e \<Rightarrow> Stop (e_pos E2) (set_errno e E2)
              | Assert_fails \<Rightarrow> Abort)"
  by pat_completeness auto
termination
proof (relation "measure (\<lambda>(strict, S, D, ch, E). reexec_rank (p_state (e_parser E)))", goal_cases)
  case (2 strict S D ch E st E1 p E2 n)
  have "E2 = fst (perform S D (st_action st) E1)" using 2(3,4) by (metis fst_conv)
  then have "p_state (e_parser E2) = p_state (st_parser st)" using 2(2) by simp
  then show ?case using on_byte_reexec 2(1,7) by auto
qed simp

declare run_byte.simps [simp del]

text \<open>The count of header bytes, then the byte.\<close>

definition iterate :: "bool \<Rightarrow> 'u settings \<Rightarrow> string \<Rightarrow> 'u exec \<Rightarrow> 'u flow" where
  "iterate strict S D E =
     (let P = e_parser E; ch = D ! e_pos E
      in if parsing_header (p_state P)
         then let E1 = E\<lparr>e_parser := P\<lparr>p_nread := Suc (p_nread P)\<rparr>\<rparr>
              in if Suc (p_nread P) > HTTP_MAX_HEADER_SIZE
                 then Stop (e_pos E) (set_errno HPE_HEADER_OVERFLOW E1)
                 else run_byte strict S D ch E1
         else run_byte strict S D ch E)"


lemma callback_pos [simp]:
  "e_pos (set_errno e E) = e_pos E" "e_pos (after_callback e r E) = e_pos E"
  "e_pos (call_notify S k E) = e_pos E" "e_pos (call_data S D j hi E) = e_pos E"
  "e_pos (call_headers_complete S E) = e_pos E"
proof -
  show 1: "e_pos (set_errno e E) = e_pos E" for e and E :: "'a exec" by (simp add: set_errno_def)
  show 2: "e_pos (after_callback e r E) = e_pos E" for e r and E :: "'a exec"
    by (simp add: after_callback_def 1 Let_def split: prod.split)
  show "e_pos (call_notify S k E) = e_pos E" by (simp add: call_notify_def 2 split: option.split)
  show "e_pos (call_data S D j hi E) = e_pos E" by (simp add: call_data_def 2 Let_def split: option.split)
  show "e_pos (call_headers_complete S E) = e_pos E"
    by (simp add: call_headers_complete_def 2 Let_def split: option.split prod.split)
qed

lemma perform_pos [simp]: "e_pos (fst (perform S D a E)) = e_pos E"
  by (simp add: perform_def split: action.split)

lemma apply_step_pos [simp]: "e_pos (apply_step st E) = e_pos E + st_advance st"
  by (simp add: apply_step_def set_mark_def Let_def split: option.split)

lemma run_byte_pos: "run_byte strict S D ch E = Next E' \<Longrightarrow> e_pos E \<le> e_pos E'"
proof (induction strict S D ch E rule: run_byte.induct)
  case (1 strict S D ch E)
  let ?st = "on_byte strict (length D - e_pos E) (e_parser E) ch"
  obtain E2 n where p: "perform S D (st_action ?st) (apply_step ?st E) = (E2, n)" by fastforce
  have e2: "e_pos E2 = e_pos E + st_advance ?st" using perform_pos [of S D "st_action ?st" "apply_step ?st E"] p by simp
  show ?case
    using "1.prems" "1.IH" [OF refl refl p [symmetric] refl] p e2
    by (subst (asm) run_byte.simps) (auto simp: Let_def split: if_splits control.splits)
qed

lemma iterate_pos: "iterate strict S D E = Next E' \<Longrightarrow> e_pos E \<le> e_pos E'"
  using run_byte_pos by (fastforce simp: iterate_def Let_def split: if_splits)

text \<open>
  After the loop the data callbacks of marks that are still set run; at most one may be set.
  Both the failing and the normal return give the length.
\<close>

primrec call_marks :: "'u settings \<Rightarrow> string \<Rightarrow> data_kind list \<Rightarrow> 'u exec \<Rightarrow> 'u exec" where
  "call_marks S D [] E = E"
| "call_marks S D (k # ks) E =
     (let E1 = call_data S D k (e_pos E) E
      in if p_errno (e_parser E1) \<noteq> HPE_OK then E1 else call_marks S D ks E1)"

definition finish :: "'u settings \<Rightarrow> string \<Rightarrow> 'u exec \<Rightarrow> (nat \<times> 'u exec) option" where
  "finish S D E =
     (let ks = [K_header_field, K_header_value, K_url, K_body]
      in if length (filter (\<lambda>k. e_marks E k \<noteq> None) ks) > 1 \<or> p_errno (e_parser E) \<noteq> HPE_OK
         then None else Some (e_pos E, call_marks S D ks E))"

function exec_loop :: "bool \<Rightarrow> 'u settings \<Rightarrow> string \<Rightarrow> 'u exec \<Rightarrow> (nat \<times> 'u exec) option" where
  "exec_loop strict S D E =
     (if e_pos E < length D
      then case iterate strict S D E of
             Next E' \<Rightarrow> exec_loop strict S D (E'\<lparr>e_pos := Suc (e_pos E')\<rparr>)
           | Stop n E' \<Rightarrow> Some (n, E')
           | Abort \<Rightarrow> None
      else finish S D E)"
  by pat_completeness auto
termination
  by (relation "measure (\<lambda>(strict, S, D, E). length D - e_pos E)") (auto dest: iterate_pos)

declare exec_loop.simps [simp del]

definition url_states :: "state set" where
  "url_states = {s_req_path, s_req_schema, s_req_schema_slash, s_req_schema_slash_slash,
     s_req_server_start, s_req_server, s_req_server_with_at, s_req_query_string_start,
     s_req_query_string, s_req_fragment_start, s_req_fragment}"

text \<open>A call in the middle of a name, value or URL starts with its mark at the first byte.\<close>

definition initial_marks :: "state \<Rightarrow> data_kind \<Rightarrow> nat option" where
  "initial_marks s =
     (\<lambda>k. if k = K_header_field \<and> s = s_header_field \<or> k = K_header_value \<and> s = s_header_value
             \<or> k = K_url \<and> s \<in> url_states then Some 0 else None)"

text \<open>An empty buffer stands for the end of the stream.\<close>

definition execute_eof :: "'u settings \<Rightarrow> http_parser \<Rightarrow> 'u \<Rightarrow> nat \<times> http_parser \<times> 'u" where
  "execute_eof S P u =
     (if p_state P = s_body_identity_eof
      then let E = call_notify S N_message_complete
                     \<lparr>e_parser = P, e_user = u, e_pos = 0, e_marks = (\<lambda>_. None)\<rparr>
           in (0, e_parser E, e_user E)
      else if p_state P \<in> {s_dead, s_start_req_or_res, s_start_res, s_start_req} then (0, P, u)
      else (1, P\<lparr>p_errno := HPE_INVALID_EOF_STATE\<rparr>, u))"

definition http_parser_execute ::
  "bool \<Rightarrow> 'u settings \<Rightarrow> http_parser \<Rightarrow> 'u \<Rightarrow> string \<Rightarrow> (nat \<times> http_parser \<times> 'u) option" where
  "http_parser_execute strict S P u D =
     (if p_errno P \<noteq> HPE_OK then Some (0, P, u)
      else if D = [] then Some (execute_eof S P u)
      else map_option (\<lambda>(n, E). (n, e_parser E, e_user E))
             (exec_loop strict S D
               \<lparr>e_parser = P, e_user = u, e_pos = 0, e_marks = initial_marks (p_state P)\<rparr>))"

end
