(* ===== verification/Http_Safety.thy ===== *)
theory Http_Safety
  imports Http_Parser
begin

text \<open>
  Safety of the HTTP parser: an invariant of the parser's fields and of the marks, kept by
  every arm of the switch, from which no assertion of \<open>src/http_parser.c\<close> can fail, the
  number of bytes reported never exceeds the buffer, a short count means an error or an
  upgrade, and the header bytes counted never pass the limit.
\<close>

section \<open>The invariant\<close>

definition field_states :: "header_states set" where
  "field_states = {h_general, h_C, h_CO, h_CON, h_matching_connection, h_matching_proxy_connection,
     h_matching_content_length, h_matching_transfer_encoding, h_matching_upgrade, h_connection,
     h_content_length, h_transfer_encoding, h_upgrade}"

text \<open>
  What each state requires.  \<open>n\<close> is the value of \<open>nread\<close> at the start of a chunk size: 0
  between bytes, 1 when the current byte has been counted.
\<close>

definition state_ok :: "nat \<Rightarrow> http_parser \<Rightarrow> bool" where
  "state_ok n P \<longleftrightarrow>
     (case p_state P of
        s_header_field \<Rightarrow> p_header_state P \<in> field_states
      | s_header_value \<Rightarrow> p_header_state P \<noteq> h_connection \<and> p_header_state P \<noteq> h_transfer_encoding
      | s_chunk_size_start \<Rightarrow> F_CHUNKED \<in> p_flags P \<and> p_nread P = n
      | s_chunk_size \<Rightarrow> F_CHUNKED \<in> p_flags P \<and> p_content_length P \<noteq> ULLONG_MAX
      | s_chunk_parameters \<Rightarrow> F_CHUNKED \<in> p_flags P \<and> p_content_length P \<noteq> ULLONG_MAX
      | s_chunk_size_almost_done \<Rightarrow> F_CHUNKED \<in> p_flags P \<and> p_content_length P \<noteq> ULLONG_MAX
      | s_chunk_data \<Rightarrow>
          F_CHUNKED \<in> p_flags P \<and> p_content_length P \<noteq> 0 \<and> p_content_length P \<noteq> ULLONG_MAX
      | s_chunk_data_almost_done \<Rightarrow> F_CHUNKED \<in> p_flags P \<and> p_content_length P = 0
      | s_chunk_data_done \<Rightarrow> F_CHUNKED \<in> p_flags P
      | s_body_identity \<Rightarrow> p_content_length P \<noteq> 0 \<and> p_content_length P \<noteq> ULLONG_MAX
      | _ \<Rightarrow> True)"

definition parser_ok :: "nat \<Rightarrow> http_parser \<Rightarrow> bool" where
  "parser_ok n P \<longleftrightarrow> p_nread P \<le> HTTP_MAX_HEADER_SIZE \<and> state_ok n P"

definition body_states :: "state set" where
  "body_states = {s_body_identity, s_body_identity_eof, s_chunk_data, s_chunk_data_almost_done}"

definition marks_ok :: "state \<Rightarrow> (data_kind \<Rightarrow> nat option) \<Rightarrow> bool" where
  "marks_ok s m \<longleftrightarrow>
     (m K_header_field \<noteq> None \<longleftrightarrow> s = s_header_field) \<and> (m K_header_value \<noteq> None \<longleftrightarrow> s = s_header_value)
     \<and> (m K_url \<noteq> None \<longleftrightarrow> s \<in> url_states) \<and> (m K_body \<noteq> None \<longrightarrow> s \<in> body_states)"

text \<open>The control flows that leave a parser in use.\<close>

definition goes_on :: "control \<Rightarrow> bool" where
  "goes_on c \<longleftrightarrow> c = Break \<or> c = Reexecute \<or> c = Return_next"

definition step_ok :: "step \<Rightarrow> bool" where
  "step_ok st \<longleftrightarrow> st_control st \<noteq> Assert_fails \<and> (goes_on (st_control st) \<longrightarrow> parser_ok 0 (st_parser st))"

lemma parse_url_char_range:
  "parse_url_char strict s ch \<noteq> s_dead \<Longrightarrow> parse_url_char strict s ch \<in> url_states"
proof -
  have "parse_url_server ch \<in> insert s_dead url_states"
    by (simp add: parse_url_server_def url_states_def)
  then have "parse_url_char strict s ch \<in> insert s_dead url_states"
    by (cases s) (simp_all add: parse_url_char_def, (simp_all add: url_states_def)?)
  then show "parse_url_char strict s ch \<noteq> s_dead \<Longrightarrow> parse_url_char strict s ch \<in> url_states" by simp
qed

lemma url_states_ok: "p_state P \<in> url_states \<Longrightarrow> state_ok n P"
  by (auto simp: url_states_def state_ok_def)

lemma fresh_states_ok: "p_state P \<in> {s_start_req, s_start_res, s_dead, s_message_done} \<Longrightarrow> state_ok n P"
  by (auto simp: state_ok_def)

lemma new_message_range: "new_message strict P \<in> {s_start_req, s_start_res, s_dead, s_message_done}"
  by (simp add: new_message_def start_state_def)

lemma step_ok_brk: "step_ok (brk P) \<longleftrightarrow> parser_ok 0 P"
  by (simp add: step_ok_def leave_def goes_on_def)

lemma step_ok_leave:
  "parser_ok 0 P \<Longrightarrow> c \<noteq> Assert_fails \<Longrightarrow> step_ok (leave P a c)"
  "step_ok (error e P)"
  by (simp_all add: step_ok_def leave_def goes_on_def)

lemma step_ok_wrap [simp]:
  "step_ok (marking k st) = step_ok st" "step_ok (body_step n st) = step_ok st"
  by (simp_all add: step_ok_def marking_def body_step_def)

lemma step_ok_expect: "step_ok st \<Longrightarrow> step_ok (expect strict c ch P st)"
  by (simp add: expect_def step_ok_leave)

lemma url_next_ok: "parser_ok n P \<Longrightarrow> step_ok (url_next strict P ch)"
  using parse_url_char_range [of strict "p_state P" ch]
  by (auto simp: url_next_def Let_def step_ok_brk step_ok_leave parser_ok_def intro: url_states_ok)

lemma message_done_ok: "p_nread P \<le> HTTP_MAX_HEADER_SIZE \<Longrightarrow> c \<noteq> Assert_fails \<Longrightarrow> step_ok (message_done strict P c)"
  using new_message_range [of strict P]
  by (auto simp: message_done_def parser_ok_def intro!: step_ok_leave(1) fresh_states_ok)

lemma match_next_ok:
  "p_state (match_next w h c P) = p_state P" "p_flags (match_next w h c P) = p_flags P"
  "p_content_length (match_next w h c P) = p_content_length P" "p_nread (match_next w h c P) = p_nread P"
  "p_header_state (match_next w h c P) \<in> {h_general, h, p_header_state P}"
  by (simp_all add: match_next_def Let_def)


section \<open>Every arm keeps it\<close>

lemma header_field_char_ok:
  assumes "p_header_state P \<in> field_states"
  obtains P1 where "header_field_char ch c P = Some P1" and "p_state P1 = p_state P"
    and "p_nread P1 = p_nread P" and "p_header_state P1 \<in> field_states"
proof -
  have "h \<in> field_states \<Longrightarrow> p_header_state (match_next w h c P) \<in> field_states" for w h
    using match_next_ok(5) [of w h c P] assms by (auto simp: field_states_def)
  then show thesis
    using that assms
    by (cases "p_header_state P")
      (auto simp: header_field_char_def field_states_def match_next_ok Let_def)
qed

lemma on_header_field_ok:
  assumes "parser_ok n P" and "p_state P = s_header_field" shows "step_ok (on_header_field strict P ch)"
proof -
  have f: "p_header_state P \<in> field_states" and n: "p_nread P \<le> HTTP_MAX_HEADER_SIZE"
    using assms by (simp_all add: parser_ok_def state_ok_def)
  obtain P1 where "header_field_char ch (token strict ch) P = Some P1" "p_state P1 = s_header_field"
    "p_nread P1 = p_nread P" "p_header_state P1 \<in> field_states"
    using header_field_char_ok [OF f] assms(2) by metis
  then show ?thesis
    using n by (auto simp: on_header_field_def Let_def step_ok_brk parser_ok_def state_ok_def
        intro!: step_ok_leave)
qed

lemma on_header_field_start_ok:
  assumes "parser_ok n P" shows "step_ok (on_header_field_start strict P ch)"
  using assms
  by (auto simp: on_header_field_start_def Let_def step_ok_brk parser_ok_def state_ok_def field_states_def
      intro!: step_ok_leave)

lemma header_value_first_ok:
  assumes "p_nread P \<le> HTTP_MAX_HEADER_SIZE" and "p_state P = s_header_value"
  shows "step_ok (header_value_first P ch)"
  using assms
  by (cases "p_header_state P")
    (auto simp: header_value_first_def Let_def step_ok_brk step_ok_leave parser_ok_def state_ok_def)

lemma on_header_value_start_ok:
  assumes "parser_ok n P" and "p_state P = s_header_value_start" shows "step_ok (on_header_value_start P ch)"
  using assms
  by (auto simp: on_header_value_start_def Let_def step_ok_brk parser_ok_def state_ok_def
      intro!: step_ok_leave header_value_first_ok)

lemma header_value_char_ok:
  assumes "parser_ok n P" and "p_state P = s_header_value" shows "step_ok (header_value_char P ch)"
proof -
  have m: "parser_ok 0 (match_next w h c P)" if "h \<noteq> h_connection" "h \<noteq> h_transfer_encoding" for w h c
    using match_next_ok [of w h c P] that assms by (auto simp: parser_ok_def state_ok_def)
  show ?thesis
    using assms m
    by (cases "p_header_state P")
      (auto simp: header_value_char_def Let_def step_ok_brk step_ok_leave parser_ok_def state_ok_def
        split: option.split)
qed

lemma on_header_value_ok:
  assumes "parser_ok n P" and "p_state P = s_header_value" shows "step_ok (on_header_value P ch)"
  using assms header_value_char_ok [OF assms]
  by (auto simp: on_header_value_def parser_ok_def state_ok_def intro!: step_ok_leave)

lemma on_header_almost_done_ok:
  "p_nread P \<le> HTTP_MAX_HEADER_SIZE \<Longrightarrow> step_ok (on_header_almost_done strict P ch)"
  unfolding on_header_almost_done_def
  by (rule step_ok_expect) (auto simp: Let_def step_ok_brk parser_ok_def state_ok_def split: header_states.split)

lemma length_digit_not_max: "length_digit b n d = Some t \<Longrightarrow> t \<noteq> ULLONG_MAX"
  by (auto simp: length_digit_def Let_def split: if_splits)

lemma unhex_range: "-1 \<le> unhex c" "unhex c \<le> 15"
proof -
  have "\<forall>x \<in> set unhex_table. -1 \<le> x \<and> x \<le> 15" by (simp add: unhex_table_def)
  then show "-1 \<le> unhex c" "unhex c \<le> 15" by (simp_all add: unhex_def)
qed

lemma unhex_not_max: "unhex c \<noteq> -1 \<Longrightarrow> (of_int (unhex c) :: u64) \<noteq> ULLONG_MAX"
proof
  assume "unhex c \<noteq> -1" and max: "(of_int (unhex c) :: u64) = ULLONG_MAX"
  then have "0 \<le> unhex c" using unhex_range(1) [of c] by simp
  then have "uint (of_int (unhex c) :: u64) = unhex c"
    using unhex_range(2) [of c] by (simp add: uint_word_of_int)
  moreover have "uint ULLONG_MAX = 2 ^ 64 - 1" unfolding ULLONG_MAX_def by (simp add: unsigned_minus_1_eq_mask mask_eq_exp_minus_1)
  ultimately show False using max unhex_range(2) [of c] by simp
qed

lemma take_body_ok:
  assumes "p_content_length P \<noteq> ULLONG_MAX"
  shows "p_content_length (take_body rem P) \<noteq> ULLONG_MAX"
proof -
  have le: "of_nat (to_read rem P) \<le> p_content_length P"
    by (simp add: to_read_def word_le_nat_alt unat_of_nat min_def le_less_trans [OF mod_less_eq_dividend]
        order.trans [OF mod_less_eq_dividend])
  then have "unat (p_content_length (take_body rem P)) \<le> unat (p_content_length P)"
    by (simp add: take_body_def unat_sub)
  moreover have "unat (p_content_length P) < unat ULLONG_MAX"
    using assms unfolding ULLONG_MAX_def by (metis word_less_nat_alt max_word_max order.not_eq_order_implies_strict)
  ultimately show ?thesis by auto
qed


lemma body_arms_ok:
  assumes "parser_ok 1 P"
  shows "p_state P = s_body_identity \<Longrightarrow> step_ok (on_body_identity rem P)"
    and "p_state P = s_chunk_data \<Longrightarrow> step_ok (on_chunk_data rem P)"
    and "p_state P = s_body_identity_eof \<Longrightarrow> step_ok (on_body_identity_eof rem P)"
  using assms take_body_ok [of P rem]
  by (auto simp: on_body_identity_def on_chunk_data_def on_body_identity_eof_def assert_chunked_def Let_def
      step_ok_brk parser_ok_def state_ok_def take_body_def intro!: step_ok_leave)

lemma chunk_arms_ok:
  assumes "parser_ok 1 P"
  shows "p_state P = s_chunk_size_start \<Longrightarrow> step_ok (on_chunk_size_start P ch)"
    and "p_state P = s_chunk_size \<Longrightarrow> step_ok (on_chunk_size P ch)"
    and "p_state P = s_chunk_parameters \<Longrightarrow> step_ok (on_chunk_parameters P ch)"
    and "p_state P = s_chunk_size_almost_done \<Longrightarrow> step_ok (on_chunk_size_almost_done strict P ch)"
    and "p_state P = s_chunk_data_almost_done \<Longrightarrow> step_ok (on_chunk_data_almost_done strict P ch)"
    and "p_state P = s_chunk_data_done \<Longrightarrow> step_ok (on_chunk_data_done strict P ch)"
  using assms unhex_not_max [of ch] length_digit_not_max
  by (auto simp: on_chunk_size_start_def on_chunk_size_def on_chunk_parameters_def on_chunk_size_almost_done_def
      on_chunk_data_almost_done_def on_chunk_data_done_def assert_chunked_def Let_def step_ok_brk
      parser_ok_def state_ok_def intro!: step_ok_leave step_ok_expect split: option.split)

lemma headers_done_ok:
  assumes "parser_ok 1 P"
  shows "step_ok (on_headers_almost_done strict P ch)" and "step_ok (on_headers_done strict P ch)"
  using assms
  by (auto simp: on_headers_almost_done_def on_headers_done_def Let_def step_ok_brk parser_ok_def state_ok_def
      intro!: step_ok_leave step_ok_expect message_done_ok)

lemma request_arms_ok:
  assumes "parser_ok 1 P"
  shows "p_state P = s_start_req_or_res \<Longrightarrow> step_ok (on_start_req_or_res P ch)"
    and "p_state P = s_start_req \<Longrightarrow> step_ok (on_start_req P ch)"
    and "p_state P = s_req_method \<Longrightarrow> step_ok (on_req_method P ch)"
    and "p_state P = s_req_spaces_before_url \<Longrightarrow> step_ok (on_spaces_before_url strict P ch)"
    and "p_state P \<in> url_states \<Longrightarrow> step_ok (on_url_no_space strict P ch)"
    and "p_state P \<in> url_states \<Longrightarrow> step_ok (on_url strict P ch)"
    and "p_state P = s_req_http_start \<Longrightarrow> step_ok (on_req_http_start P ch)"
    and "p_state P = s_req_http_minor \<Longrightarrow> step_ok (on_req_minor P ch)"
    and "step_ok (on_req_line_almost_done P ch)"
proof -
  have n: "p_nread P \<le> HTTP_MAX_HEADER_SIZE" using assms by (simp add: parser_ok_def)
  have url: "step_ok (url_next strict P ch)" by (rule url_next_ok [OF assms])
  have conn: "step_ok (url_next strict (P\<lparr>p_state := s_req_server_start\<rparr>) ch)"
    by (rule url_next_ok [where n = 1]) (simp add: parser_ok_def state_ok_def n)
  show "p_state P = s_req_spaces_before_url \<Longrightarrow> step_ok (on_spaces_before_url strict P ch)"
    using url conn assms by (auto simp: on_spaces_before_url_def Let_def step_ok_brk parser_ok_def state_ok_def)
  show "step_ok (on_url_no_space strict P ch)" using url by (simp add: on_url_no_space_def step_ok_leave)
  show "step_ok (on_url strict P ch)"
    using url n by (auto simp: on_url_def parser_ok_def state_ok_def intro!: step_ok_leave(1))
qed (use assms in \<open>auto simp: request_line_defs minor_digit_def Let_def step_ok_brk parser_ok_def state_ok_def
    intro!: step_ok_leave split: option.split\<close>)

lemma response_arms_ok:
  assumes "parser_ok 1 P"
  shows "p_state P = s_res_or_resp_H \<Longrightarrow> step_ok (on_res_or_resp_H P ch)"
    and "p_state P = s_start_res \<Longrightarrow> step_ok (on_start_res P ch)"
    and "s \<in> {s_res_http_major, s_req_http_major} \<Longrightarrow> step_ok (on_first_major lo s P ch)"
    and "p_state P \<in> {s_res_http_major, s_req_http_major} \<Longrightarrow> s \<in> {s_res_first_http_minor, s_req_first_http_minor}
      \<Longrightarrow> step_ok (on_major s P ch)"
    and "s \<in> {s_res_http_minor, s_req_http_minor} \<Longrightarrow> step_ok (on_first_minor s P ch)"
    and "p_state P = s_res_http_minor \<Longrightarrow> step_ok (on_res_minor P ch)"
    and "p_state P = s_res_first_status_code \<Longrightarrow> step_ok (on_first_status P ch)"
    and "p_state P = s_res_status_code \<Longrightarrow> step_ok (on_status_code P ch)"
    and "p_state P = s_res_status \<Longrightarrow> step_ok (on_res_status P ch)"
  using assms
  by (auto simp: response_line_defs Let_def step_ok_brk parser_ok_def state_ok_def intro!: step_ok_leave)

lemma on_byte_ok:
  assumes "parser_ok 1 P" shows "step_ok (on_byte strict rem P ch)"
proof -
  have n: "p_nread P \<le> HTTP_MAX_HEADER_SIZE" using assms by (simp add: parser_ok_def)
  have goto: "step_ok (expect strict c ch P (goto_state s P))"
    if "s \<in> {s_res_HT, s_res_HTT, s_res_HTTP, s_res_first_http_major, s_req_http_HT, s_req_http_HTT,
         s_req_http_HTTP, s_req_first_http_major}" for c s
    using that n by (intro step_ok_expect) (auto simp: step_ok_brk parser_ok_def state_ok_def)
  note arms = request_arms_ok [OF assms] response_arms_ok [OF assms] body_arms_ok [OF assms]
    chunk_arms_ok [OF assms] headers_done_ok [OF assms] on_header_field_ok [OF assms]
    on_header_field_start_ok [OF assms] on_header_value_start_ok [OF assms] on_header_value_ok [OF assms]
    on_header_almost_done_ok [OF n] message_done_ok [OF n] goto
  show ?thesis
    using assms
    by (cases "p_state P")
      (auto simp: on_byte_def url_states_def arms on_header_value_lws_def step_ok_brk parser_ok_def state_ok_def
        intro!: step_ok_leave step_ok_expect)
qed


section \<open>Marks, position and error number of a step\<close>

definition act_kind :: "action \<Rightarrow> data_kind option" where
  "act_kind a = (case a of Data k \<Rightarrow> Some k | Data_noadvance k \<Rightarrow> Some k | Data_through k \<Rightarrow> Some k | _ \<Rightarrow> None)"

definition step_marks :: "step \<Rightarrow> nat \<Rightarrow> (data_kind \<Rightarrow> nat option) \<Rightarrow> data_kind \<Rightarrow> nat option" where
  "step_marks st pos m =
     (\<lambda>k. if act_kind (st_action st) = Some k then None
          else if st_mark st = Some k \<and> m k = None then Some pos else m k)"

lemma callback_marks [simp]:
  "e_marks (set_errno e E) = e_marks E" "e_marks (after_callback e r E) = e_marks E"
  "e_marks (call_notify S k E) = e_marks E"
  "e_marks (call_data S D j hi E) = (e_marks E)(j := None)"
  "e_marks (call_headers_complete S E) = e_marks E"
proof -
  show 1: "e_marks (set_errno e E) = e_marks E" for e and E :: "'a exec" by (simp add: set_errno_def)
  show 2: "e_marks (after_callback e r E) = e_marks E" for e r and E :: "'a exec"
    by (simp add: after_callback_def 1 Let_def split: prod.split)
  show "e_marks (call_notify S k E) = e_marks E" by (simp add: call_notify_def 2 split: option.split)
  show "e_marks (call_data S D j hi E) = (e_marks E)(j := None)"
    by (auto simp: call_data_def 2 Let_def fun_eq_iff split: option.split)
  show "e_marks (call_headers_complete S E) = e_marks E"
    by (simp add: call_headers_complete_def 2 Let_def split: option.split prod.split)
qed

lemma perform_marks:
  "e_marks (fst (perform S D (st_action st) (apply_step st E))) = step_marks st (e_pos E) (e_marks E)"
  by (auto simp: perform_def apply_step_def set_mark_def step_marks_def act_kind_def Let_def fun_eq_iff
      split: action.split option.split)

text \<open>How an arm's mark and callback fit the states it connects.\<close>

definition arm_ok :: "state \<Rightarrow> step \<Rightarrow> bool" where
  "arm_ok s st \<longleftrightarrow>
     (goes_on (st_control st) \<longrightarrow>
        (\<forall>m pos. marks_ok s m \<longrightarrow> marks_ok (p_state (st_parser st)) (step_marks st pos m)))"

lemma marks_ok_simps:
  "marks_ok s_header_field m \<longleftrightarrow> m K_header_field \<noteq> None \<and> m K_header_value = None \<and> m K_url = None \<and> m K_body = None"
  "marks_ok s_header_value m \<longleftrightarrow> m K_header_field = None \<and> m K_header_value \<noteq> None \<and> m K_url = None \<and> m K_body = None"
  "s \<in> url_states \<Longrightarrow>
     marks_ok s m \<longleftrightarrow> m K_header_field = None \<and> m K_header_value = None \<and> m K_url \<noteq> None \<and> m K_body = None"
  "s \<in> body_states \<Longrightarrow> marks_ok s m \<longleftrightarrow> m K_header_field = None \<and> m K_header_value = None \<and> m K_url = None"
  "s \<notin> body_states \<union> url_states \<union> {s_header_field, s_header_value} \<Longrightarrow>
     marks_ok s m \<longleftrightarrow> m K_header_field = None \<and> m K_header_value = None \<and> m K_url = None \<and> m K_body = None"
  by (auto simp: marks_ok_def url_states_def body_states_def)

definition plain_states :: "state set" where
  "plain_states = - (body_states \<union> url_states \<union> {s_header_field, s_header_value})"

lemma arm_ok_plain:
  assumes "s \<in> plain_states" and "p_state (st_parser st) \<in> plain_states" and "st_mark st = None"
  shows "arm_ok s st"
  using assms marks_ok_simps(5) [of s] marks_ok_simps(5) [of "p_state (st_parser st)"]
  by (auto simp: arm_ok_def plain_states_def step_marks_def)

lemma arm_ok_error [simp]: "arm_ok s (error e P)" "arm_ok s (leave P a Assert_fails)"
  by (simp_all add: arm_ok_def leave_def goes_on_def)

lemma arm_ok_stay: "p_state P = s \<Longrightarrow> arm_ok s (brk P)"
  by (auto simp: arm_ok_def leave_def step_marks_def act_kind_def)

lemma arm_ok_expect: "arm_ok s st \<Longrightarrow> arm_ok s (expect strict c ch P st)"
  by (simp add: expect_def)

lemma arm_ok_chunked: "arm_ok s st \<Longrightarrow> arm_ok s (assert_chunked P st)"
  by (simp add: assert_chunked_def)

lemma new_message_plain [simp]: "new_message strict P \<in> plain_states" "start_state P \<in> plain_states"
  by (simp_all add: new_message_def start_state_def plain_states_def body_states_def url_states_def)

text \<open>The state a step leads to when the arm neither marks nor flushes anything.\<close>

lemma arm_ok_leave:
  "s \<in> plain_states \<Longrightarrow> p_state P \<in> plain_states \<Longrightarrow> arm_ok s (leave P a c)"
  by (rule arm_ok_plain) (simp_all add: leave_def)

lemma arm_ok_message_done: "s \<in> plain_states \<Longrightarrow> arm_ok s (message_done strict P c)"
  unfolding message_done_def by (rule arm_ok_leave) simp_all


lemmas state_sets = plain_states_def body_states_def url_states_def

lemma arm_ok_url_next:
  "s \<in> url_states \<Longrightarrow> arm_ok s (url_next strict P ch)"
  "s \<in> plain_states \<Longrightarrow> arm_ok s (marking K_url (url_next strict P ch))"
proof -
  let ?s' = "parse_url_char strict (p_state P) ch"
  have u: "?s' \<noteq> s_dead \<Longrightarrow> ?s' \<in> url_states" by (rule parse_url_char_range)
  show "s \<in> url_states \<Longrightarrow> arm_ok s (url_next strict P ch)"
    using u marks_ok_simps(3) [of s] marks_ok_simps(3) [of ?s']
    by (auto simp: url_next_def arm_ok_def leave_def step_marks_def act_kind_def goes_on_def Let_def)
  show "s \<in> plain_states \<Longrightarrow> arm_ok s (marking K_url (url_next strict P ch))"
    using u marks_ok_simps(5) [of s] marks_ok_simps(3) [of ?s']
    by (auto simp: url_next_def marking_def arm_ok_def leave_def step_marks_def act_kind_def goes_on_def
        plain_states_def Let_def)
qed

text \<open>Flushing a mark on the way to a plain state.\<close>

lemma arm_ok_flush:
  assumes "p_state P \<in> plain_states" and "act_kind a = Some k"
    and "k = K_url \<and> s \<in> url_states \<or> k = K_header_field \<and> s = s_header_field
         \<or> k = K_header_value \<and> s = s_header_value \<or> k = K_body \<and> s \<in> body_states"
  shows "arm_ok s (leave P a c)"
proof -
  have "marks_ok s m \<Longrightarrow> j \<noteq> k \<Longrightarrow> m j = None" for m j
    using assms(3) marks_ok_simps(3) [of s m] marks_ok_simps(4) [of s m]
    by (cases j) (auto simp: marks_ok_simps(1,2))
  then have sm: "step_marks (leave P a c) pos m = (\<lambda>_. None)" if "marks_ok s m" for m pos
    using assms(2) that by (auto simp: step_marks_def leave_def fun_eq_iff)
  have "marks_ok (p_state P) (\<lambda>_. None)"
    using assms(1) marks_ok_simps(5) [of "p_state P"] by (simp add: plain_states_def)
  then show ?thesis by (simp add: arm_ok_def sm) (simp add: leave_def)
qed

lemma arm_ok_url_arms:
  "s \<in> url_states \<Longrightarrow> arm_ok s (on_url strict P ch)"
  "s \<in> url_states \<Longrightarrow> arm_ok s (on_url_no_space strict P ch)"
proof -
  assume u: "s \<in> url_states"
  have "arm_ok s (leave P1 (Data K_url) Break)" if "p_state P1 \<in> plain_states" for P1
    by (rule arm_ok_flush [where k = K_url]) (use u that in \<open>simp_all add: act_kind_def\<close>)
  then show "arm_ok s (on_url strict P ch)"
    using arm_ok_url_next(1) [OF u] by (simp add: on_url_def state_sets)
  show "arm_ok s (on_url_no_space strict P ch)"
    using u arm_ok_url_next(1) by (simp add: on_url_no_space_def)
qed

lemma arm_ok_header_field:
  assumes "p_state P = s_header_field" shows "arm_ok s_header_field (on_header_field strict P ch)"
proof -
  have "p_state P1 = s_header_field" if "header_field_char ch c P = Some P1" for c P1
    using that assms
    by (cases "p_header_state P") (auto simp: header_field_char_def match_next_ok(1) Let_def)
  moreover have "arm_ok s_header_field (leave P1 (Data K_header_field) Break)" if "p_state P1 \<in> plain_states" for P1
    by (rule arm_ok_flush [where k = K_header_field]) (use that in \<open>simp_all add: act_kind_def\<close>)
  moreover have "s_header_value_start \<in> plain_states" "s_header_almost_done \<in> plain_states"
    "s_header_field_start \<in> plain_states" by (simp_all add: state_sets)
  ultimately show ?thesis
    by (simp add: on_header_field_def Let_def arm_ok_stay split: option.split)
qed

lemma arm_ok_header_field_start:
  assumes "p_state P = s_header_field_start"
  shows "arm_ok s_header_field_start (on_header_field_start strict P ch)"
proof -
  have "arm_ok s_header_field_start (marking K_header_field (brk P1))" if "p_state P1 = s_header_field" for P1
    using that marks_ok_simps(1) marks_ok_simps(5) [of s_header_field_start]
    by (auto simp: arm_ok_def marking_def leave_def step_marks_def act_kind_def state_sets)
  then show ?thesis
    by (auto simp: on_header_field_start_def Let_def state_sets intro!: arm_ok_leave)
qed

lemma arm_ok_header_value:
  assumes "p_state P = s_header_value" shows "arm_ok s_header_value (on_header_value P ch)"
proof -
  have "arm_ok s_header_value (header_value_char P ch)"
    using assms by (cases "p_header_state P")
      (auto simp: header_value_char_def Let_def match_next_ok intro!: arm_ok_stay split: option.split)
  then show ?thesis
    by (auto simp: on_header_value_def act_kind_def state_sets intro!: arm_ok_flush [where k = K_header_value])
qed

lemma arm_ok_header_value_start:
  assumes "p_state P = s_header_value_start"
  shows "arm_ok s_header_value_start (on_header_value_start P ch)"
proof -
  have first: "arm_ok s_header_value_start (marking K_header_value (header_value_first P1 ch))"
    if "p_state P1 = s_header_value" for P1
    using that marks_ok_simps(2) marks_ok_simps(5) [of s_header_value_start]
    by (cases "p_header_state P1")
      (auto simp: header_value_first_def arm_ok_def marking_def leave_def step_marks_def act_kind_def
        state_sets goes_on_def Let_def)
  have flush: "arm_ok s_header_value_start (marking K_header_value (leave P1 (Data K_header_value) Break))"
    if "p_state P1 \<in> plain_states" for P1
    using that marks_ok_simps(5) [of "p_state P1"] marks_ok_simps(5) [of s_header_value_start]
    by (auto simp: arm_ok_def marking_def leave_def step_marks_def act_kind_def state_sets)
  show ?thesis
    using assms first flush
    by (auto simp: on_header_value_start_def Let_def state_sets intro!: arm_ok_stay)
qed

lemma arm_ok_body:
  assumes "s \<in> body_states" and "p_state (st_parser st) \<in> body_states" and "act_kind (st_action st) = None"
    and "st_mark st = None \<or> st_mark st = Some K_body"
  shows "arm_ok s st"
proof -
  have "step_marks st pos m k = m k" if "k \<noteq> K_body" for pos m k
    using assms(3,4) that by (auto simp: step_marks_def)
  then show ?thesis
    unfolding arm_ok_def marks_ok_simps(4) [OF assms(1)] marks_ok_simps(4) [OF assms(2)] by simp
qed

lemma arm_ok_body_arms:
  "p_state P = s_body_identity \<Longrightarrow> arm_ok s_body_identity (on_body_identity rem P)"
  "p_state P = s_body_identity_eof \<Longrightarrow> arm_ok s_body_identity_eof (on_body_identity_eof rem P)"
  "p_state P = s_chunk_data \<Longrightarrow> arm_ok s_chunk_data (on_chunk_data rem P)"
  "arm_ok s_chunk_data_almost_done (on_chunk_data_almost_done strict P ch)"
proof -
  have dn: "arm_ok s_body_identity (body_step n (leave P1 (Data_through K_body) Reexecute))"
    if "p_state P1 = s_message_done" for n P1
    using that marks_ok_simps(4) [of s_body_identity] marks_ok_simps(5) [of s_message_done]
    by (auto simp: arm_ok_def body_step_def leave_def step_marks_def act_kind_def state_sets)
  have stay: "arm_ok s (body_step n (brk P1))" if "s \<in> body_states" "p_state P1 \<in> body_states" for s n P1
    by (rule arm_ok_body) (use that in \<open>simp_all add: body_step_def leave_def act_kind_def\<close>)
  show "p_state P = s_body_identity \<Longrightarrow> arm_ok s_body_identity (on_body_identity rem P)"
    using dn stay by (auto simp: on_body_identity_def take_body_def body_states_def Let_def)
  show "p_state P = s_body_identity_eof \<Longrightarrow> arm_ok s_body_identity_eof (on_body_identity_eof rem P)"
    using stay by (auto simp: on_body_identity_eof_def body_states_def)
  show "p_state P = s_chunk_data \<Longrightarrow> arm_ok s_chunk_data (on_chunk_data rem P)"
    using stay by (auto simp: on_chunk_data_def take_body_def body_states_def Let_def intro!: arm_ok_chunked)
  have "arm_ok s_chunk_data_almost_done (leave (P\<lparr>p_state := s_chunk_data_done\<rparr>) (Data K_body) Break)"
    by (rule arm_ok_flush [where k = K_body]) (simp_all add: act_kind_def state_sets)
  then show "arm_ok s_chunk_data_almost_done (on_chunk_data_almost_done strict P ch)"
    by (simp add: on_chunk_data_almost_done_def assert_chunked_def expect_def)
qed


definition plain_step :: "step \<Rightarrow> bool" where
  "plain_step st \<longleftrightarrow> st_mark st = None \<and> (goes_on (st_control st) \<longrightarrow> p_state (st_parser st) \<in> plain_states)"

lemma plain_step_simps [simp]:
  "plain_step (leave P a c) \<longleftrightarrow> (goes_on c \<longrightarrow> p_state P \<in> plain_states)"
  "plain_step st \<Longrightarrow> plain_step (expect strict x ch P st)"
  "plain_step st \<Longrightarrow> plain_step (assert_chunked P st)"
  "plain_step (message_done strict P d)"
  by (auto simp: plain_step_def leave_def expect_def assert_chunked_def message_done_def goes_on_def)

lemma arm_ok_plain_step: "s \<in> plain_states \<Longrightarrow> plain_step st \<Longrightarrow> arm_ok s st"
  using arm_ok_plain [of s st] by (auto simp: plain_step_def arm_ok_def)

lemma goes_on_simps [simp]: "\<not> goes_on (Error e)" "\<not> goes_on Assert_fails"
  by (simp_all add: goes_on_def)

lemma first_line_plain:
  assumes "p_state P \<in> plain_states"
  shows "plain_step (on_start_req_or_res P ch)" "plain_step (on_start_req P ch)" "plain_step (on_req_method P ch)"
    "plain_step (on_req_http_start P ch)" "plain_step (on_req_minor P ch)" "plain_step (on_req_line_almost_done P ch)"
    "plain_step (on_res_or_resp_H P ch)" "plain_step (on_start_res P ch)"
    "s \<in> plain_states \<Longrightarrow> plain_step (on_first_major lo s P ch)" "s \<in> plain_states \<Longrightarrow> plain_step (on_major s P ch)"
    "s \<in> plain_states \<Longrightarrow> plain_step (on_first_minor s P ch)" "plain_step (on_res_minor P ch)"
    "plain_step (on_first_status P ch)" "plain_step (on_status_code P ch)" "plain_step (on_res_status P ch)"
  using assms
  by (simp_all add: request_line_defs response_line_defs Let_def split: option.split)
    (simp_all add: state_sets)

lemma later_plain:
  assumes "p_state P \<in> plain_states"
  shows "plain_step (on_header_almost_done strict P ch)" "plain_step (on_header_value_lws P ch)"
    "plain_step (on_headers_almost_done strict P ch)" "plain_step (on_chunk_size_start P ch)"
    "plain_step (on_chunk_size P ch)" "plain_step (on_chunk_parameters P ch)"
    "plain_step (on_chunk_data_done strict P ch)"
  using assms
  by (simp_all add: on_header_almost_done_def on_header_value_lws_def on_headers_almost_done_def
      on_chunk_size_start_def on_chunk_size_def on_chunk_parameters_def on_chunk_data_done_def Let_def
      split: option.split header_states.split)
    (simp_all add: state_sets)

lemma arm_ok_into_body:
  assumes "s \<in> plain_states" and "p_state P \<in> plain_states \<union> body_states" shows "arm_ok s (leave P No_callback c)"
proof (cases "p_state P \<in> body_states")
  case True
  then show ?thesis
    using assms(1) marks_ok_simps(5) [of s] marks_ok_simps(4) [OF True]
    by (auto simp: arm_ok_def leave_def step_marks_def act_kind_def plain_states_def)
qed (use assms arm_ok_leave in auto)

lemma arm_ok_headers_done:
  "arm_ok s_headers_done (on_headers_done strict P ch)"
  "arm_ok s_chunk_size_almost_done (on_chunk_size_almost_done strict P ch)"
proof -
  have s: "s_headers_done \<in> plain_states" "s_chunk_size_almost_done \<in> plain_states" by (simp_all add: state_sets)
  show "arm_ok s_headers_done (on_headers_done strict P ch)"
    unfolding on_headers_done_def
    by (rule arm_ok_expect)
      (simp add: Let_def s arm_ok_message_done; (intro conjI impI arm_ok_into_body s; simp add: state_sets)?)
  show "arm_ok s_chunk_size_almost_done (on_chunk_size_almost_done strict P ch)"
    unfolding on_chunk_size_almost_done_def
    by (rule arm_ok_chunked, rule arm_ok_expect)
      (simp add: Let_def s; (intro conjI impI arm_ok_into_body s; simp add: state_sets)?)
qed

lemma arm_ok_spaces:
  assumes "p_state P = s_req_spaces_before_url"
  shows "arm_ok s_req_spaces_before_url (on_spaces_before_url strict P ch)"
  using assms
  by (simp add: on_spaces_before_url_def Let_def arm_ok_url_next arm_ok_stay)
    (simp add: arm_ok_url_next state_sets)

lemma on_byte_arm: "arm_ok (p_state P) (on_byte strict rem P ch)"
proof (cases "p_state P \<in> {s_req_spaces_before_url, s_headers_done, s_chunk_size_almost_done, s_header_field_start,
    s_header_value_start, s_header_field, s_header_value} \<union> url_states \<union> body_states")
  case True
  then show ?thesis
    by (auto simp: url_states_def body_states_def on_byte_def arm_ok_url_arms arm_ok_header_field
        arm_ok_header_field_start arm_ok_header_value arm_ok_header_value_start arm_ok_body_arms
        arm_ok_spaces arm_ok_headers_done)
next
  case False
  then have plain: "p_state P \<in> plain_states" by (auto simp: plain_states_def)
  have "plain_step (on_byte strict rem P ch)"
    using False plain
    by (cases "p_state P")
      (simp_all add: on_byte_def first_line_plain [OF plain] later_plain [OF plain] state_sets)
  then show ?thesis by (rule arm_ok_plain_step [OF plain])
qed


section \<open>What every step has in common\<close>

definition step_fits :: "nat \<Rightarrow> http_parser \<Rightarrow> step \<Rightarrow> bool" where
  "step_fits rem P st \<longleftrightarrow>
     p_errno (st_parser st) = p_errno P \<and> st_advance st < rem
     \<and> (st_action st \<noteq> No_callback \<longrightarrow> goes_on (st_control st))
     \<and> (\<forall>e. st_control st = Error e \<longrightarrow> e \<noteq> HPE_OK \<and> e \<noteq> HPE_PAUSED)
     \<and> (st_control st = Reexecute \<longrightarrow> p_state (st_parser st) \<noteq> s_chunk_size_start)
     \<and> (st_control st = Return_next \<longrightarrow> p_upgrade (st_parser st))"

lemma step_fits_leave:
  "0 < rem \<Longrightarrow> step_fits rem P (leave P1 a c) \<longleftrightarrow>
     p_errno P1 = p_errno P \<and> (a \<noteq> No_callback \<longrightarrow> goes_on c)
     \<and> (\<forall>e. c = Error e \<longrightarrow> e \<noteq> HPE_OK \<and> e \<noteq> HPE_PAUSED)
     \<and> (c = Reexecute \<longrightarrow> p_state P1 \<noteq> s_chunk_size_start) \<and> (c = Return_next \<longrightarrow> p_upgrade P1)"
  by (simp add: step_fits_def leave_def)

lemma step_fits_wrap:
  "step_fits rem P (marking k st) = step_fits rem P st"
  "0 < rem \<Longrightarrow> step_fits rem P st \<Longrightarrow> step_fits rem P (expect strict c ch P st)"
  "0 < rem \<Longrightarrow> step_fits rem P st \<Longrightarrow> step_fits rem P (assert_chunked P st)"
  "0 < rem \<Longrightarrow> n \<le> rem \<Longrightarrow> step_fits rem P st \<Longrightarrow> step_fits rem P (body_step n st)"
  by (auto simp: step_fits_def marking_def expect_def assert_chunked_def body_step_def leave_def)

lemma header_field_char_errno: "header_field_char ch c P = Some P1 \<Longrightarrow> p_errno P1 = p_errno P"
  by (cases "p_header_state P") (auto simp: header_field_char_def match_next_def Let_def)

lemmas goes_on_yes [simp] = goes_on_def [of Break, simplified] goes_on_def [of Reexecute, simplified]
  goes_on_def [of Return_next, simplified]

lemma match_next_errno [simp]: "p_errno (match_next w h c P) = p_errno P"
  by (simp add: match_next_def Let_def)

lemma on_byte_fits:
  assumes "0 < rem" shows "step_fits rem P (on_byte strict rem P ch)"
proof -
  note leave = step_fits_leave [OF assms]
  have url: "step_fits rem P (url_next strict P1 ch)" if "p_errno P1 = p_errno P" for P1
    using that by (simp add: url_next_def Let_def leave)
  have field: "step_fits rem P (on_header_field strict P ch)"
    using header_field_char_errno by (auto simp: on_header_field_def Let_def leave split: option.split)
  have first: "step_fits rem P (header_value_first P1 ch)" if "p_errno P1 = p_errno P" for P1
    using that by (simp add: header_value_first_def Let_def leave split: header_states.split)
  have val: "step_fits rem P (header_value_char P ch)"
    by (simp add: header_value_char_def Let_def leave split: header_states.split option.split)
  have tr: "to_read rem P \<le> rem" by (simp add: to_read_def)
  show ?thesis
    by (cases "p_state P")
      (simp_all add: on_byte_def leave url field first val tr assms step_fits_wrap message_done_def
        on_start_req_or_res_def on_start_req_def on_req_method_def on_spaces_before_url_def on_url_no_space_def
        on_url_def on_req_http_start_def on_req_minor_def on_req_line_almost_done_def response_line_defs
        on_header_field_start_def on_header_value_start_def on_header_value_def on_header_almost_done_def
        on_header_value_lws_def on_headers_almost_done_def on_headers_done_def on_body_identity_def
        on_body_identity_eof_def on_chunk_size_start_def on_chunk_size_def on_chunk_parameters_def
        on_chunk_size_almost_done_def on_chunk_data_def on_chunk_data_almost_done_def on_chunk_data_done_def
        take_body_def Let_def split: option.split header_states.split)
qed

lemma callback_ok:
  "parser_ok n (e_parser E) \<Longrightarrow> parser_ok n (e_parser (fst (perform S D a E)))"
proof -
  have 1: "parser_ok n (P\<lparr>p_errno := e\<rparr>) = parser_ok n P" for e P
    by (cases "p_state P") (simp_all add: parser_ok_def state_ok_def)
  have 2: "parser_ok n P \<Longrightarrow> parser_ok n (P\<lparr>p_flags := insert F_SKIPBODY (p_flags P)\<rparr>)" for P
    by (cases "p_state P") (simp_all add: parser_ok_def state_ok_def)
  have 3: "parser_ok n (e_parser E) \<Longrightarrow> parser_ok n (e_parser (after_callback e r E))" for e r and E :: "'a exec"
    by (simp add: after_callback_def set_errno_def 1 Let_def split: prod.split)
  show "parser_ok n (e_parser E) \<Longrightarrow> parser_ok n (e_parser (fst (perform S D a E)))"
    by (auto simp: perform_def call_notify_def call_data_def call_headers_complete_def Let_def 2
        split: action.split option.split prod.split intro!: 3)
qed


section \<open>The loop\<close>

text \<open>Between two bytes, and when a byte has been counted.\<close>

definition exec_ok :: "nat \<Rightarrow> 'u exec \<Rightarrow> bool" where
  "exec_ok n E \<longleftrightarrow> parser_ok n (e_parser E) \<and> p_errno (e_parser E) = HPE_OK
     \<and> marks_ok (p_state (e_parser E)) (e_marks E)"

definition reusable :: "http_parser \<Rightarrow> bool" where
  "reusable P \<longleftrightarrow> (p_errno P = HPE_OK \<or> p_errno P = HPE_PAUSED \<longrightarrow> parser_ok 0 P)"

definition flow_ok :: "string \<Rightarrow> 'u flow \<Rightarrow> bool" where
  "flow_ok D r \<longleftrightarrow>
     (case r of
        Next E \<Rightarrow> exec_ok 0 E \<and> e_pos E < length D
      | Stop n E \<Rightarrow> n \<le> length D \<and> reusable (e_parser E)
          \<and> (p_errno (e_parser E) = HPE_OK \<longrightarrow> p_upgrade (e_parser E))
      | Abort \<Rightarrow> False)"

lemma parser_ok_other: "p_state P \<noteq> s_chunk_size_start \<Longrightarrow> parser_ok n P \<Longrightarrow> parser_ok m P"
  by (cases "p_state P") (simp_all add: parser_ok_def state_ok_def)

lemma reusable_errno: "e \<noteq> HPE_OK \<Longrightarrow> e \<noteq> HPE_PAUSED \<Longrightarrow> reusable (P\<lparr>p_errno := e\<rparr>)"
  by (simp add: reusable_def)

lemma perform_upgrade: "p_upgrade (e_parser (fst (perform S D a E))) = p_upgrade (e_parser E)"
  by (auto simp: perform_def call_notify_def call_data_def call_headers_complete_def after_callback_def
      set_errno_def Let_def split: action.split option.split prod.split)

lemma perform_count: "snd (perform S D a E) \<le> Suc (e_pos E)"
  by (simp add: perform_def split: action.split)

lemma run_byte_ok:
  "exec_ok 1 E \<Longrightarrow> e_pos E < length D \<Longrightarrow> flow_ok D (run_byte strict S D ch E)"
proof (induction strict S D ch E rule: run_byte.induct)
  case (1 strict S D ch E)
  define st where "st = on_byte strict (length D - e_pos E) (e_parser E) ch"
  obtain E2 n where p: "perform S D (st_action st) (apply_step st E) = (E2, n)" by fastforce
  have rem: "0 < length D - e_pos E" using "1.prems" by simp
  have P: "parser_ok 1 (e_parser E)" "p_errno (e_parser E) = HPE_OK"
    "marks_ok (p_state (e_parser E)) (e_marks E)" using "1.prems" by (simp_all add: exec_ok_def)
  have so: "step_ok st" unfolding st_def by (rule on_byte_ok [OF P(1)])
  have fits: "step_fits (length D - e_pos E) (e_parser E) st" unfolding st_def by (rule on_byte_fits [OF rem])
  have arm: "arm_ok (p_state (e_parser E)) st" unfolding st_def by (rule on_byte_arm)
  have E1: "p_errno (st_parser st) = HPE_OK" using fits P by (simp add: step_fits_def)
  have E2: "e_parser E2 = e_parser (fst (perform S D (st_action st) (apply_step st E)))"
    "e_pos E2 = e_pos E + st_advance st" "e_marks E2 = step_marks st (e_pos E) (e_marks E)"
    "p_state (e_parser E2) = p_state (st_parser st)" "p_upgrade (e_parser E2) = p_upgrade (st_parser st)"
    "n \<le> Suc (e_pos E2)"
    using p perform_pos [of S D "st_action st" "apply_step st E"] perform_marks [of S D st E]
      perform_state [of S D "st_action st" "apply_step st E"]
      perform_upgrade [of S D "st_action st" "apply_step st E"]
      perform_count [of S D "st_action st" "apply_step st E"] by auto
  have "st_advance st < length D - e_pos E" using fits by (simp add: step_fits_def)
  then have pos: "e_pos E2 < length D" using E2(2) by linarith
  have ok2: "parser_ok 0 (e_parser E2)" if "goes_on (st_control st)"
    unfolding E2(1) using callback_ok [of 0 "apply_step st E"] so that by (simp add: step_ok_def)
  have marks2: "marks_ok (p_state (e_parser E2)) (e_marks E2)" if "goes_on (st_control st)"
    using arm P(3) that unfolding E2(3,4) arm_ok_def by blast
  have stop: "flow_ok D (Stop n E2)" if "st_action st \<noteq> No_callback" "p_errno (e_parser E2) \<noteq> HPE_OK"
    using that ok2 fits pos E2(6) by (auto simp: flow_ok_def reusable_def step_fits_def)
  have go: "exec_ok 0 E2" if "goes_on (st_control st)" "p_errno (e_parser E2) = HPE_OK"
    using ok2 marks2 that by (simp add: exec_ok_def)
  have noerr: "p_errno (e_parser E2) = HPE_OK" if "st_action st = No_callback"
    using that E1 unfolding E2(1) by (simp add: perform_def)
  have run: "run_byte strict S D ch E =
    (if st_action st \<noteq> No_callback \<and> p_errno (e_parser E2) \<noteq> HPE_OK then Stop n E2
     else case st_control st of
            Break \<Rightarrow> Next E2 | Reexecute \<Rightarrow> run_byte strict S D ch E2
          | Return_next \<Rightarrow> Stop (Suc (e_pos E2)) E2 | Error e \<Rightarrow> Stop (e_pos E2) (set_errno e E2)
          | Assert_fails \<Rightarrow> Abort)"
    by (subst run_byte.simps) (simp add: st_def [symmetric] p E1 Let_def)
  show ?case
  proof (cases "st_action st \<noteq> No_callback \<and> p_errno (e_parser E2) \<noteq> HPE_OK")
    case False
    then have ok: "p_errno (e_parser E2) = HPE_OK" using noerr by blast
    show ?thesis
    proof (cases "st_control st")
      case Reexecute
      have "exec_ok 1 E2"
        using go ok fits Reexecute parser_ok_other [of "e_parser E2" 0 1] E2(4)
        by (simp add: exec_ok_def step_fits_def)
      then show ?thesis
        using "1.IH" [OF st_def refl p [symmetric] refl] False E1 Reexecute pos unfolding run by auto
    next
      case (Error e)
      then show ?thesis
        using False pos fits reusable_errno [of e "e_parser E2"] unfolding run
        by (auto simp: flow_ok_def set_errno_def step_fits_def)
    next
      case Return_next
      then show ?thesis
        using False pos ok ok2 fits E2(5) unfolding run by (simp add: flow_ok_def reusable_def step_fits_def)
    qed (use False go ok pos so in \<open>simp_all add: run flow_ok_def step_ok_def\<close>)
  qed (use stop run in simp)
qed


lemma iterate_ok:
  assumes "exec_ok 0 E" and "e_pos E < length D" shows "flow_ok D (iterate strict S D E)"
proof -
  let ?P = "e_parser E"
  let ?E1 = "E\<lparr>e_parser := ?P\<lparr>p_nread := Suc (p_nread ?P)\<rparr>\<rparr>"
  have "exec_ok 1 E" if "\<not> parsing_header (p_state ?P)"
    using assms(1) that parser_ok_other [of ?P 0 1] by (auto simp: exec_ok_def parsing_header_def)
  moreover have "exec_ok 1 ?E1" if "\<not> Suc (p_nread ?P) > HTTP_MAX_HEADER_SIZE"
    using assms(1) that
    by (cases "p_state ?P") (simp_all add: exec_ok_def parser_ok_def state_ok_def)
  ultimately show ?thesis
    using assms(2) run_byte_ok [of E D strict S] run_byte_ok [of ?E1 D strict S]
    by (auto simp: iterate_def Let_def flow_ok_def [of _ "Stop _ _"] set_errno_def reusable_def)
qed

lemma marks_ok_one: "marks_ok s m \<Longrightarrow> length (filter (\<lambda>k. m k \<noteq> None) [K_header_field, K_header_value, K_url, K_body]) \<le> 1"
  by (auto simp: marks_ok_def url_states_def body_states_def)

lemma call_marks_ok: "parser_ok n (e_parser E) \<Longrightarrow> parser_ok n (e_parser (call_marks S D ks E))"
proof (induction ks arbitrary: E)
  case (Cons k ks)
  have "parser_ok n (e_parser (call_data S D k (e_pos E) E))"
    using callback_ok [OF Cons.prems, of S D "Data_noadvance k"] by (simp add: perform_def)
  then show ?case using Cons.IH by (simp add: Let_def)
qed simp

lemma exec_loop_ok:
  assumes "exec_ok 0 E" and "e_pos E \<le> length D"
  obtains n E' where "exec_loop strict S D E = Some (n, E')" and "n \<le> length D" and "reusable (e_parser E')"
    and "n < length D \<Longrightarrow> p_errno (e_parser E') = HPE_OK \<Longrightarrow> p_upgrade (e_parser E')"
proof -
  have "\<exists>n E'. exec_loop strict S D E = Some (n, E') \<and> n \<le> length D \<and> reusable (e_parser E')
      \<and> (n < length D \<longrightarrow> p_errno (e_parser E') = HPE_OK \<longrightarrow> p_upgrade (e_parser E'))"
    using assms
  proof (induction strict S D E rule: exec_loop.induct)
    case (1 strict S D E)
    show ?case
    proof (cases "e_pos E < length D")
      case True
      have flow: "flow_ok D (iterate strict S D E)" by (rule iterate_ok [OF "1.prems"(1) True])
      show ?thesis
      proof (cases "iterate strict S D E")
        case (Next E')
        then have "exec_ok 0 (E'\<lparr>e_pos := Suc (e_pos E')\<rparr>)" "Suc (e_pos E') \<le> length D"
          using flow by (simp_all add: flow_ok_def exec_ok_def)
        then show ?thesis
          using "1.IH" [OF True Next] True Next by (subst exec_loop.simps) simp
      next
        case (Stop n E')
        then show ?thesis using flow True by (subst exec_loop.simps) (simp add: flow_ok_def)
      next
        case Abort
        then show ?thesis using flow by (simp add: flow_ok_def)
      qed
    next
      case False
      then have pos: "e_pos E = length D" using "1.prems" by simp
      have "finish S D E = Some (length D, call_marks S D [K_header_field, K_header_value, K_url, K_body] E)"
        using marks_ok_one [of "p_state (e_parser E)" "e_marks E"] "1.prems" pos
        by (simp add: finish_def exec_ok_def Let_def)
      then show ?thesis
        using False "1.prems" call_marks_ok [of 0 E S D "[K_header_field, K_header_value, K_url, K_body]"]
        by (subst exec_loop.simps) (simp add: reusable_def exec_ok_def)
    qed
  qed
  then show thesis using that by blast
qed

lemma initial_marks_ok: "marks_ok s (initial_marks s)"
  by (auto simp: marks_ok_def initial_marks_def url_states_def body_states_def)

lemma http_parser_execute_ok:
  assumes "reusable P"
  obtains n P' u' where "http_parser_execute strict S P u D = Some (n, P', u')" and "reusable P'"
    and "D \<noteq> [] \<Longrightarrow> n \<le> length D"
    and "n < length D \<Longrightarrow> p_errno P' = HPE_OK \<Longrightarrow> p_upgrade P'"
proof -
  let ?E = "\<lparr>e_parser = P, e_user = u, e_pos = 0, e_marks = initial_marks (p_state P)\<rparr>"
  consider (error) "p_errno P \<noteq> HPE_OK" | (eof) "p_errno P = HPE_OK" "D = []"
    | (run) "p_errno P = HPE_OK" "D \<noteq> []" by blast
  then show thesis
  proof cases
    case error
    then show ?thesis using that [of 0 P u] assms by (simp add: http_parser_execute_def)
  next
    case eof
    have ok: "parser_ok 0 P" using assms eof by (simp add: reusable_def)
    obtain n P' u' where x: "execute_eof S P u = (n, P', u')" by (metis prod_cases3)
    have "reusable P'"
      using x ok eof callback_ok [of 0 "\<lparr>e_parser = P, e_user = u, e_pos = 0, e_marks = (\<lambda>_. None)\<rparr>"
          S "[]" "Notify N_message_complete"]
      by (auto simp: execute_eof_def reusable_def perform_def Let_def split: if_splits)
    then show ?thesis using that [of n P' u'] eof x by (simp add: http_parser_execute_def)
  next
    case run
    have "exec_ok 0 ?E" using assms run by (simp add: exec_ok_def reusable_def initial_marks_ok)
    then obtain n E' where "exec_loop strict S D ?E = Some (n, E')" "n \<le> length D" "reusable (e_parser E')"
      "n < length D \<Longrightarrow> p_errno (e_parser E') = HPE_OK \<Longrightarrow> p_upgrade (e_parser E')"
      using exec_loop_ok [of ?E D strict S] by auto
    then show ?thesis using that [of n "e_parser E'" "e_user E'"] run by (simp add: http_parser_execute_def)
  qed
qed

section \<open>Properties\<close>

text \<open>
  A connection: buffers fed to the parser, an empty one for the end of the stream, and calls of
  \<open>http_parser_pause\<close>, which a caller makes only on a parser that is not in error.
\<close>

datatype hp_event = Feed string | Pause bool

primrec hp_session ::
  "bool \<Rightarrow> 'u settings \<Rightarrow> hp_event list \<Rightarrow> http_parser \<times> 'u \<Rightarrow> (http_parser \<times> 'u) option" where
  "hp_session strict S [] Pu = Some Pu"
| "hp_session strict S (ev # evs) Pu =
     (case ev of
        Feed D \<Rightarrow>
          (case http_parser_execute strict S (fst Pu) (snd Pu) D of
             None \<Rightarrow> None
           | Some (n, P', u') \<Rightarrow> hp_session strict S evs (P', u'))
      | Pause b \<Rightarrow>
          (if p_errno (fst Pu) = HPE_OK \<or> p_errno (fst Pu) = HPE_PAUSED
           then (case http_parser_pause b (fst Pu) of
                   None \<Rightarrow> None
                 | Some P' \<Rightarrow> hp_session strict S evs (P', snd Pu))
           else hp_session strict S evs Pu))"

lemma init_reusable: "reusable (http_parser_init t)"
  by (simp add: reusable_def parser_ok_def state_ok_def http_parser_init_def)

lemma pause_reusable:
  "reusable P \<Longrightarrow> p_errno P = HPE_OK \<or> p_errno P = HPE_PAUSED \<Longrightarrow>
     \<exists>P'. http_parser_pause b P = Some P' \<and> reusable P'"
  by (cases "p_state P") (auto simp: http_parser_pause_def reusable_def parser_ok_def state_ok_def)

lemma session_reusable:
  "reusable (fst Pu) \<Longrightarrow> \<exists>P' u'. hp_session strict S evs Pu = Some (P', u') \<and> reusable P'"
proof (induction evs arbitrary: Pu)
  case Nil
  then show ?case by (cases Pu) simp
next
  case (Cons ev evs)
  show ?case
  proof (cases ev)
    case (Feed D)
    obtain n P' u' where "http_parser_execute strict S (fst Pu) (snd Pu) D = Some (n, P', u')" "reusable P'"
      using http_parser_execute_ok [OF Cons.prems] by metis
    then show ?thesis using Cons.IH [of "(P', u')"] Feed by simp
  next
    case (Pause b)
    show ?thesis
    proof (cases "p_errno (fst Pu) = HPE_OK \<or> p_errno (fst Pu) = HPE_PAUSED")
      case True
      obtain P' where "http_parser_pause b (fst Pu) = Some P'" "reusable P'"
        using pause_reusable [OF Cons.prems True] by blast
      then show ?thesis using Cons.IH [of "(P', snd Pu)"] Pause True by simp
    next
      case False
      then show ?thesis using Cons.IH [OF Cons.prems] Pause by simp
    qed
  qed
qed

text \<open>
  C1: no assertion of the parser can fail.  For any callbacks, whatever they return and
  whenever they pause, in strict and in lenient mode, and for any bytes in any buffers fed
  to a parser that \<open>http_parser_init\<close> made, every call returns; and as long as the parser
  is usable it has counted at most \<open>HTTP_MAX_HEADER_SIZE\<close> header bytes.
\<close>

theorem http_parser_never_aborts:
  "\<exists>P u'. hp_session strict S evs (http_parser_init t, u) = Some (P, u')
     \<and> (p_errno P = HPE_OK \<longrightarrow> p_nread P \<le> HTTP_MAX_HEADER_SIZE)"
  using session_reusable [of "(http_parser_init t, u)" strict S evs] init_reusable [of t]
  by (auto simp: reusable_def parser_ok_def)

definition no_callbacks :: "unit settings" where
  "no_callbacks = \<lparr>on_notify = (\<lambda>_. None), on_data = (\<lambda>_. None), on_headers_complete = None\<rparr>"

theorem http_parser_never_aborts_witness:
  "\<exists>P u'. hp_session False no_callbacks [Feed ''GET /'', Pause True, Pause False, Feed []]
     (http_parser_init HTTP_REQUEST, ()) = Some (P, u')
   \<and> (p_errno P = HPE_OK \<longrightarrow> p_nread P \<le> HTTP_MAX_HEADER_SIZE)"
  by (rule http_parser_never_aborts)

text \<open>
  What the count that \<open>http_parser_execute\<close> returns means.  On a non-empty buffer it never
  exceeds the length, and if it is smaller the parser has an error or is paused, or the
  rest belongs to an upgraded protocol; a parser in error consumes nothing and stays as it
  is.
\<close>

theorem http_parser_count:
  assumes "hp_session strict S evs (http_parser_init t, u0) = Some (P, u)"
    and "http_parser_execute strict S P u D = Some (n, P', u')" and "D \<noteq> []"
  shows "n \<le> length D \<and> (n < length D \<longrightarrow> p_errno P' \<noteq> HPE_OK \<or> p_upgrade P')
    \<and> (p_errno P \<noteq> HPE_OK \<longrightarrow> n = 0 \<and> P' = P \<and> u' = u)"
proof -
  have "reusable P"
    using session_reusable [of "(http_parser_init t, u0)" strict S evs] init_reusable [of t] assms(1) by simp
  then obtain m Q v where "http_parser_execute strict S P u D = Some (m, Q, v)" "m \<le> length D"
    "m < length D \<Longrightarrow> p_errno Q = HPE_OK \<Longrightarrow> p_upgrade Q"
    using http_parser_execute_ok [of P strict S u D] assms(3) by metis
  then have "n \<le> length D \<and> (n < length D \<longrightarrow> p_errno P' \<noteq> HPE_OK \<or> p_upgrade P')" using assms(2) by auto
  moreover have "p_errno P \<noteq> HPE_OK \<longrightarrow> n = 0 \<and> P' = P \<and> u' = u"
    using assms(2) by (auto simp: http_parser_execute_def)
  ultimately show ?thesis by blast
qed

theorem http_parser_count_witness:
  "\<exists>n P' u'. http_parser_execute False no_callbacks (http_parser_init HTTP_REQUEST) () ''!'' = Some (n, P', u')
     \<and> n = 0 \<and> p_errno P' = HPE_INVALID_METHOD \<and> n \<le> length ''!''"
proof -
  have h: "hp_session False no_callbacks [] (http_parser_init HTTP_REQUEST, ()) = Some (http_parser_init HTTP_REQUEST, ())"
    by simp
  have x: "http_parser_execute False no_callbacks (http_parser_init HTTP_REQUEST) () ''!'' =
      Some (0, (http_parser_init HTTP_REQUEST)\<lparr>p_nread := 1, p_content_length := ULLONG_MAX,
        p_errno := HPE_INVALID_METHOD\<rparr>, ())"
    by (simp add: http_parser_execute_def exec_loop.simps iterate_def run_byte.simps on_byte_def on_start_req_def
        http_parser_init_def is_alpha_def leave_def apply_step_def set_mark_def perform_def set_errno_def
        parsing_header_def HTTP_MAX_HEADER_SIZE_def Let_def)
  show ?thesis using http_parser_count [OF h x] x by auto
qed

end
