(* ===== verification/Http_Url.thy ===== *)
theory Http_Url
  imports Http_Parser
begin

text \<open>
  \<open>http_parser_parse_url\<close> of \<open>src/http_parser.c\<close>: the URL automaton of the parser run over a
  buffer to find the components of a URL as offsets and lengths, then the automaton of
  \<open>http_parse_host\<close> run over the authority to split it into user information, host and port.

  \<open>buf\<close> is the memory from the pointer on, of which the URL takes the first \<open>buflen\<close>
  bytes: the port is read by \<open>strtoul\<close>, which is not told \<open>buflen\<close>.  The structure the caller
  passes in is an argument, because its offsets are not cleared.  Offsets and lengths are
  \<open>uint16_t\<close>: they are naturals reduced modulo \<open>2 ^ 16\<close>.  A call ends with the code 0 and the
  structure, or stops with the code 1, at the assertion, or in a read outside \<open>buf\<close>.

  The lemmas show that no read and no assertion goes wrong except in the two cases the code
  leaves open, and that the URL made of given components is taken apart into them again.
\<close>

section \<open>Data\<close>

datatype http_host_state =
  s_http_host_dead | s_http_userinfo_start | s_http_userinfo | s_http_host_start
| s_http_host_v6_start | s_http_host | s_http_host_v6 | s_http_host_v6_end
| s_http_host_port_start | s_http_host_port

datatype http_parser_url_fields =
  UF_SCHEMA | UF_HOST | UF_PORT | UF_PATH | UF_QUERY | UF_FRAGMENT | UF_USERINFO | UF_MAX

record http_parser_url =
  field_set :: "http_parser_url_fields set"
  url_port :: nat
  field_off :: "http_parser_url_fields \<Rightarrow> nat"
  field_len :: "http_parser_url_fields \<Rightarrow> nat"

datatype url_stop = Return_1 | Unexpected_state | Out_of_bounds

definition u16 :: "nat \<Rightarrow> nat" where
  "u16 n = n mod 2 ^ 16"

section \<open>The host automaton\<close>

definition http_parse_host_char :: "bool \<Rightarrow> http_host_state \<Rightarrow> char \<Rightarrow> http_host_state" where
  "http_parse_host_char strict s ch =
     (let userinfo = (if ch = CHR ''@'' then s_http_host_start
                      else if is_userinfo_char ch then s_http_userinfo else s_http_host_dead);
          host_end = (if ch = CHR '':'' then s_http_host_port_start else s_http_host_dead);
          v6_digit = (if is_hex ch \<or> ch = CHR '':'' \<or> ch = CHR ''.'' then s_http_host_v6 else s_http_host_dead);
          port = (if is_num ch then s_http_host_port else s_http_host_dead)
      in case s of
        s_http_userinfo \<Rightarrow> userinfo
      | s_http_userinfo_start \<Rightarrow> userinfo
      | s_http_host_start \<Rightarrow>
          (if ch = CHR ''['' then s_http_host_v6_start
           else if is_host_char strict ch then s_http_host else s_http_host_dead)
      | s_http_host \<Rightarrow> (if is_host_char strict ch then s_http_host else host_end)
      | s_http_host_v6_end \<Rightarrow> host_end
      | s_http_host_v6 \<Rightarrow> (if ch = CHR '']'' then s_http_host_v6_end else v6_digit)
      | s_http_host_v6_start \<Rightarrow> v6_digit
      | s_http_host_port \<Rightarrow> port
      | s_http_host_port_start \<Rightarrow> port
      | s_http_host_dead \<Rightarrow> s_http_host_dead)"

definition open_field :: "http_parser_url_fields \<Rightarrow> nat \<Rightarrow> nat \<Rightarrow> http_parser_url \<Rightarrow> http_parser_url" where
  "open_field f p n u = u\<lparr>field_off := (field_off u)(f := u16 p), field_len := (field_len u)(f := n),
     field_set := insert f (field_set u)\<rparr>"

definition grow_field :: "http_parser_url_fields \<Rightarrow> http_parser_url \<Rightarrow> http_parser_url" where
  "grow_field f u = u\<lparr>field_len := (field_len u)(f := u16 (field_len u f + 1))\<rparr>"

text \<open>The host keeps the length the loop gave it so far: only its offset moves.\<close>

definition host_field :: "http_host_state \<Rightarrow> http_host_state \<Rightarrow> nat \<Rightarrow> http_parser_url \<Rightarrow> http_parser_url" where
  "host_field s new_s p u =
     (case new_s of
        s_http_host \<Rightarrow>
          grow_field UF_HOST (if s \<noteq> s_http_host then u\<lparr>field_off := (field_off u)(UF_HOST := u16 p)\<rparr> else u)
      | s_http_host_v6 \<Rightarrow>
          grow_field UF_HOST (if s \<noteq> s_http_host_v6 then u\<lparr>field_off := (field_off u)(UF_HOST := u16 p)\<rparr> else u)
      | s_http_host_port \<Rightarrow> grow_field UF_PORT (if s \<noteq> s_http_host_port then open_field UF_PORT p 0 u else u)
      | s_http_userinfo \<Rightarrow> grow_field UF_USERINFO (if s \<noteq> s_http_userinfo then open_field UF_USERINFO p 0 u else u)
      | _ \<Rightarrow> u)"

text \<open>The loop of \<open>http_parse_host\<close> over the bytes from offset \<open>p\<close> on.\<close>

fun host_loop :: "bool \<Rightarrow> nat \<Rightarrow> string \<Rightarrow> http_host_state \<Rightarrow> http_parser_url
    \<Rightarrow> url_stop + http_host_state \<times> http_parser_url" where
  "host_loop strict p [] s u = Inr (s, u)"
| "host_loop strict p (ch # cs) s u =
     (let new_s = http_parse_host_char strict s ch
      in if new_s = s_http_host_dead then Inl Return_1
         else host_loop strict (p + 1) cs new_s (host_field s new_s p u))"

definition host_end_ok :: "http_host_state \<Rightarrow> bool" where
  "host_end_ok s \<longleftrightarrow> s \<notin> {s_http_host_start, s_http_host_v6_start, s_http_host_v6, s_http_host_port_start,
     s_http_userinfo, s_http_userinfo_start}"

definition http_parse_host :: "bool \<Rightarrow> string \<Rightarrow> http_parser_url \<Rightarrow> bool \<Rightarrow> url_stop + http_parser_url" where
  "http_parse_host strict buf u found_at =
     (let off = field_off u UF_HOST; len = field_len u UF_HOST;
          u0 = u\<lparr>field_len := (field_len u)(UF_HOST := 0)\<rparr>;
          s0 = (if found_at then s_http_userinfo_start else s_http_host_start)
      in case host_loop strict off (take len (drop off buf)) s0 u0 of
           Inl e \<Rightarrow> Inl e
         | Inr (s, u') \<Rightarrow>
             if length buf < off + len \<and> 0 < len then Inl Out_of_bounds
             else if host_end_ok s then Inr u' else Inl Return_1)"

section \<open>The URL loop\<close>

datatype url_field_choice = Skip | Field http_parser_url_fields | Stop_with url_stop

definition url_field :: "state \<Rightarrow> url_field_choice" where
  "url_field s =
     (case s of
        s_dead \<Rightarrow> Stop_with Return_1
      | s_req_schema_slash \<Rightarrow> Skip | s_req_schema_slash_slash \<Rightarrow> Skip | s_req_server_start \<Rightarrow> Skip
      | s_req_query_string_start \<Rightarrow> Skip | s_req_fragment_start \<Rightarrow> Skip
      | s_req_schema \<Rightarrow> Field UF_SCHEMA
      | s_req_server_with_at \<Rightarrow> Field UF_HOST | s_req_server \<Rightarrow> Field UF_HOST
      | s_req_path \<Rightarrow> Field UF_PATH
      | s_req_query_string \<Rightarrow> Field UF_QUERY
      | s_req_fragment \<Rightarrow> Field UF_FRAGMENT
      | _ \<Rightarrow> Stop_with Unexpected_state)"

record url_scan =
  us_s :: state
  us_old_uf :: http_parser_url_fields
  us_found_at :: bool
  us_url :: http_parser_url

definition url_byte :: "bool \<Rightarrow> nat \<Rightarrow> char \<Rightarrow> url_scan \<Rightarrow> url_stop + url_scan" where
  "url_byte strict p ch z =
     (let s = parse_url_char strict (us_s z) ch;
          z1 = z\<lparr>us_s := s, us_found_at := us_found_at z \<or> s = s_req_server_with_at\<rparr>
      in case url_field s of
           Stop_with e \<Rightarrow> Inl e
         | Skip \<Rightarrow> Inr z1
         | Field uf \<Rightarrow>
             Inr (if uf = us_old_uf z then z1\<lparr>us_url := grow_field uf (us_url z)\<rparr>
                  else z1\<lparr>us_url := open_field uf p 1 (us_url z), us_old_uf := uf\<rparr>))"

fun url_loop :: "bool \<Rightarrow> nat \<Rightarrow> string \<Rightarrow> url_scan \<Rightarrow> url_stop + url_scan" where
  "url_loop strict p [] z = Inr z"
| "url_loop strict p (ch # cs) z =
     (case url_byte strict p ch z of Inl e \<Rightarrow> Inl e | Inr z' \<Rightarrow> url_loop strict (p + 1) cs z')"

text \<open>
  \<open>strtoul\<close> of the C library in base 10: white space and a sign are skipped, a minus negates
  modulo \<open>2 ^ 64\<close>, and a value that does not fit becomes \<open>ULONG_MAX\<close>.  It looks at the
  first byte that is not a digit, so digits up to the end of the memory make it read outside.
\<close>

definition is_space :: "char \<Rightarrow> bool" where
  "is_space c \<longleftrightarrow> c = CHR '' '' \<or> 9 \<le> code c \<and> code c \<le> 13"

definition number :: "string \<Rightarrow> nat" where
  "number ds = foldl (\<lambda>v c. 10 * v + digit c) 0 ds"

definition strtoul :: "string \<Rightarrow> nat option" where
  "strtoul cs =
     (let ts = dropWhile is_space cs;
          signed = (ts \<noteq> [] \<and> hd ts \<in> {CHR ''-'', CHR ''+''});
          us = (if signed then tl ts else ts);
          v = number (takeWhile is_num us)
      in if takeWhile is_num us = us then None
         else Some (if 2 ^ 64 \<le> v then 2 ^ 64 - 1
                    else if signed \<and> hd ts = CHR ''-'' then (2 ^ 64 - v) mod 2 ^ 64 else v))"

definition http_parser_parse_url :: "bool \<Rightarrow> string \<Rightarrow> nat \<Rightarrow> bool \<Rightarrow> http_parser_url \<Rightarrow> url_stop + http_parser_url" where
  "http_parser_parse_url strict buf buflen is_connect u0 =
     (case url_loop strict 0 (take buflen buf)
         \<lparr>us_s = (if is_connect then s_req_server_start else s_req_spaces_before_url), us_old_uf = UF_MAX,
          us_found_at = False, us_url = u0\<lparr>url_port := 0, field_set := {}\<rparr>\<rparr> of
        Inl e \<Rightarrow> Inl e
      | Inr z \<Rightarrow>
          (case (if field_set (us_url z) \<inter> {UF_SCHEMA, UF_HOST} \<noteq> {}
                 then http_parse_host strict buf (us_url z) (us_found_at z) else Inr (us_url z)) of
             Inl e \<Rightarrow> Inl e
           | Inr u \<Rightarrow>
               if is_connect \<and> field_set u \<noteq> {UF_HOST, UF_PORT} then Inl Return_1
               else if UF_PORT \<in> field_set u
               then (case strtoul (drop (field_off u UF_PORT) buf) of
                       None \<Rightarrow> Inl Out_of_bounds
                     | Some v \<Rightarrow> if 0xffff < v then Inl Return_1 else Inr (u\<lparr>url_port := v\<rparr>))
               else Inr u))"

section \<open>Fields are opened once and grow byte by byte\<close>

lemma url_loop_append:
  "url_loop strict p (xs @ ys) z =
     (case url_loop strict p xs z of Inl e \<Rightarrow> Inl e | Inr z' \<Rightarrow> url_loop strict (p + length xs) ys z')"
  by (induction xs arbitrary: p z) (auto split: sum.split)

lemma host_loop_append:
  "host_loop strict p (xs @ ys) s u =
     (case host_loop strict p xs s u of Inl e \<Rightarrow> Inl e | Inr (s', u') \<Rightarrow> host_loop strict (p + length xs) ys s' u')"
  by (induction xs arbitrary: p s u) (auto simp: Let_def split: sum.split prod.split)

definition widen :: "http_parser_url_fields \<Rightarrow> nat \<Rightarrow> http_parser_url \<Rightarrow> http_parser_url" where
  "widen f n u = u\<lparr>field_len := (field_len u)(f := field_len u f + n)\<rparr>"

lemma widen_0 [simp]: "widen f 0 u = u"
  by (simp add: widen_def)

lemma widen_widen [simp]: "widen f n (widen f m u) = widen f (m + n) u"
  by (simp add: widen_def add.assoc)

lemma widen_open [simp]: "widen f n (open_field f p m u) = open_field f p (m + n) u"
  by (simp add: widen_def open_field_def)

lemma widen_len [simp]: "field_len (widen f n u) f = field_len u f + n"
  by (simp add: widen_def)

lemma open_len [simp]: "field_len (open_field f p n u) f = n"
  by (simp add: open_field_def)

lemma grow_widen: "field_len u f + 1 < 2 ^ 16 \<Longrightarrow> grow_field f u = widen f 1 u"
  by (simp add: grow_field_def widen_def u16_def)

lemma url_stay:
  assumes "\<And>c. c \<in> set xs \<Longrightarrow> parse_url_char strict s c = s" and "url_field s = Field uf"
    and "s \<noteq> s_req_server_with_at" and "us_s z = s" and "us_old_uf z = uf"
    and "field_len (us_url z) uf + length xs < 2 ^ 16"
  shows "url_loop strict p xs z = Inr (z\<lparr>us_url := widen uf (length xs) (us_url z)\<rparr>)"
  using assms
proof (induction xs arbitrary: p z)
  case Nil
  then show ?case by simp
next
  case (Cons c xs)
  have "url_byte strict p c z = Inr (z\<lparr>us_url := widen uf 1 (us_url z)\<rparr>)"
    using Cons.prems grow_widen [of "us_url z" uf] by (cases z) (simp add: url_byte_def)
  then show ?case using Cons.IH [of "z\<lparr>us_url := widen uf 1 (us_url z)\<rparr>" "p + 1"] Cons.prems by (simp add: widen_len)
qed

lemma url_open:
  assumes "parse_url_char strict (us_s z) c = s" and "\<And>c. c \<in> set xs \<Longrightarrow> parse_url_char strict s c = s"
    and "url_field s = Field uf" and "s \<noteq> s_req_server_with_at" and "us_old_uf z \<noteq> uf"
    and "length xs + 1 < 2 ^ 16"
  shows "url_loop strict p (c # xs) z =
    Inr (z\<lparr>us_s := s, us_old_uf := uf, us_url := open_field uf p (length xs + 1) (us_url z)\<rparr>)"
proof -
  let ?z = "z\<lparr>us_s := s, us_old_uf := uf, us_url := open_field uf p 1 (us_url z)\<rparr>"
  have "url_byte strict p c z = Inr ?z" using assms by (cases z) (simp add: url_byte_def)
  moreover have "url_loop strict (p + 1) xs ?z =
      Inr (?z\<lparr>us_url := widen uf (length xs) (us_url ?z)\<rparr>)"
    using assms by (intro url_stay [where s = s]) auto
  ultimately show ?thesis by simp
qed

lemma url_skip:
  "url_field (parse_url_char strict (us_s z) c) = Skip \<Longrightarrow>
     url_loop strict p (c # xs) z = url_loop strict (p + 1) xs (z\<lparr>us_s := parse_url_char strict (us_s z) c\<rparr>)"
  by (cases z) (cases "parse_url_char strict (us_s z) c = s_req_server_with_at",
    auto simp: url_byte_def Let_def url_field_def [of s_req_server_with_at])

section \<open>Classes of bytes\<close>

lemma url_char_plain:
  "is_url_char strict c \<Longrightarrow>
     c \<notin> {CHR '' '', CR, LF, CHR ''?'', CHR ''#''} \<and> (strict \<longrightarrow> c \<noteq> TAB \<and> c \<noteq> FF)"
  by (auto simp: is_url_char_def bit_at_def normal_url_char_def split: if_splits)

lemma userinfo_char_plain:
  "is_userinfo_char c \<Longrightarrow> c \<notin> {CHR '' '', CR, LF, TAB, FF, CHR ''/'', CHR ''?'', CHR ''@''}"
  by (auto simp: is_userinfo_char_def is_alphanum_def is_alpha_def is_num_def is_mark_def)

lemma host_char_userinfo: "is_host_char strict c \<Longrightarrow> is_userinfo_char c"
  by (auto simp: is_host_char_def is_userinfo_char_def is_mark_def split: if_splits)

lemma hex_char_userinfo: "is_hex c \<Longrightarrow> is_userinfo_char c"
  by (auto simp: is_hex_def is_userinfo_char_def is_alphanum_def is_alpha_def)

lemma num_char_userinfo: "is_num c \<Longrightarrow> is_userinfo_char c"
  by (auto simp: is_userinfo_char_def is_alphanum_def)

lemma alpha_plain: "is_alpha c \<Longrightarrow> c \<notin> {CHR '' '', CR, LF, TAB, FF, CHR ''/'', CHR ''*'', CHR '':''}"
  by (auto simp: is_alpha_def)

lemma url_char_moves:
  assumes "is_url_char strict c"
  shows "parse_url_char strict s_req_path c = s_req_path"
    and "parse_url_char strict s_req_query_string_start c = s_req_query_string"
    and "parse_url_char strict s_req_query_string c = s_req_query_string"
    and "parse_url_char strict s_req_fragment_start c = s_req_fragment"
    and "parse_url_char strict s_req_fragment c = s_req_fragment"
  using assms url_char_plain [OF assms] by (auto simp: parse_url_char_def)

lemma mark_moves:
  "parse_url_char strict s_req_query_string_start CHR ''?'' = s_req_query_string"
  "parse_url_char strict s_req_query_string CHR ''?'' = s_req_query_string"
  "parse_url_char strict s_req_fragment_start CHR ''?'' = s_req_fragment"
  "parse_url_char strict s_req_fragment CHR ''?'' = s_req_fragment"
  "parse_url_char strict s_req_fragment CHR ''#'' = s_req_fragment"
  using url_char_plain [of strict "CHR ''?''"] url_char_plain [of strict "CHR ''#''"] by (auto simp: parse_url_char_def)

lemma delimiter_moves:
  "parse_url_char strict s_req_path CHR ''?'' = s_req_query_string_start"
  "parse_url_char strict s_req_server CHR ''?'' = s_req_query_string_start"
  "parse_url_char strict s_req_path CHR ''#'' = s_req_fragment_start"
  "parse_url_char strict s_req_query_string CHR ''#'' = s_req_fragment_start"
  "parse_url_char strict s_req_schema CHR '':'' = s_req_schema_slash"
  "parse_url_char strict s_req_schema_slash CHR ''/'' = s_req_schema_slash_slash"
  "parse_url_char strict s_req_schema_slash_slash CHR ''/'' = s_req_server_start"
  "parse_url_char strict s_req_server CHR ''/'' = s_req_path"
  "parse_url_char strict s_req_server CHR ''@'' = s_req_server_with_at"
  using url_char_plain [of strict "CHR ''?''"] url_char_plain [of strict "CHR ''#''"] alpha_plain [of "CHR '':''"]
  by (auto simp: parse_url_char_def parse_url_server_def)

definition authority_char :: "char \<Rightarrow> bool" where
  "authority_char c \<longleftrightarrow> is_userinfo_char c \<or> c = CHR ''['' \<or> c = CHR '']''"

lemma authority_moves:
  assumes "authority_char c"
  shows "parse_url_char strict s_req_server c = s_req_server"
    and "parse_url_char strict s_req_server_start c = s_req_server"
    and "parse_url_char strict s_req_server_with_at c = s_req_server"
proof -
  have "c \<notin> {CHR '' '', CR, LF, TAB, FF, CHR ''/'', CHR ''?'', CHR ''@''}"
    using assms userinfo_char_plain [of c] by (auto simp: authority_char_def)
  moreover have "is_userinfo_char c \<or> c = CHR ''['' \<or> c = CHR '']''"
    using assms by (simp add: authority_char_def)
  ultimately show "parse_url_char strict s_req_server c = s_req_server"
    "parse_url_char strict s_req_server_start c = s_req_server"
    "parse_url_char strict s_req_server_with_at c = s_req_server"
    by (simp_all add: parse_url_char_def parse_url_server_def)
qed

lemma alpha_moves:
  assumes "is_alpha c"
  shows "parse_url_char strict s_req_spaces_before_url c = s_req_schema"
    and "parse_url_char strict s_req_schema c = s_req_schema"
  using assms alpha_plain [OF assms] by (auto simp: parse_url_char_def)

lemma url_fields [simp]:
  "url_field s_req_schema = Field UF_SCHEMA" "url_field s_req_server = Field UF_HOST"
  "url_field s_req_server_with_at = Field UF_HOST"
  "url_field s_req_path = Field UF_PATH" "url_field s_req_query_string = Field UF_QUERY"
  "url_field s_req_fragment = Field UF_FRAGMENT" "url_field s_req_schema_slash = Skip"
  "url_field s_req_schema_slash_slash = Skip" "url_field s_req_server_start = Skip"
  "url_field s_req_query_string_start = Skip" "url_field s_req_fragment_start = Skip"
  by (simp_all add: url_field_def)

section \<open>A URL put together and taken apart\<close>

text \<open>The text of an authority and of a URL, and which components there can be.\<close>

datatype host_text = Name string | V6 string

record url_parts =
  up_schema :: string
  up_userinfo :: "string option"
  up_host :: host_text
  up_port :: "string option"
  up_path :: "string option"
  up_query :: "string option"
  up_fragment :: "string option"

definition host_string :: "host_text \<Rightarrow> string" where
  "host_string h = (case h of Name w \<Rightarrow> w | V6 w \<Rightarrow> ''['' @ w @ '']'')"

definition host_name :: "host_text \<Rightarrow> string" where
  "host_name h = (case h of Name w \<Rightarrow> w | V6 w \<Rightarrow> w)"

definition after :: "string option \<Rightarrow> string \<Rightarrow> string" where
  "after w d = (case w of None \<Rightarrow> [] | Some w \<Rightarrow> w @ d)"

definition before :: "string \<Rightarrow> string option \<Rightarrow> string" where
  "before d w = (case w of None \<Rightarrow> [] | Some w \<Rightarrow> d @ w)"

definition authority_text :: "url_parts \<Rightarrow> string" where
  "authority_text r = after (up_userinfo r) ''@'' @ host_string (up_host r) @ before '':'' (up_port r)"

definition url_text :: "url_parts \<Rightarrow> string" where
  "url_text r = up_schema r @ ''://'' @ authority_text r @ before [] (up_path r) @ before ''?'' (up_query r)
     @ before ''#'' (up_fragment r)"

definition word_of :: "(char \<Rightarrow> bool) \<Rightarrow> string \<Rightarrow> bool" where
  "word_of K w \<longleftrightarrow> w \<noteq> [] \<and> (\<forall>c \<in> set w. K c)"

definition host_ok :: "bool \<Rightarrow> host_text \<Rightarrow> bool" where
  "host_ok strict h \<longleftrightarrow>
     (case h of Name w \<Rightarrow> word_of (is_host_char strict) w
      | V6 w \<Rightarrow> word_of (\<lambda>c. is_hex c \<or> c = CHR '':'' \<or> c = CHR ''.'') w)"

definition parts_ok :: "bool \<Rightarrow> url_parts \<Rightarrow> bool" where
  "parts_ok strict r \<longleftrightarrow>
     word_of is_alpha (up_schema r)
   \<and> pred_option (word_of is_userinfo_char) (up_userinfo r)
   \<and> host_ok strict (up_host r)
   \<and> pred_option (\<lambda>w. word_of is_num w \<and> number w \<le> 65535) (up_port r)
   \<and> pred_option (\<lambda>w. word_of (is_url_char strict) w \<and> hd w = CHR ''/'') (up_path r)
   \<and> pred_option (word_of (\<lambda>c. is_url_char strict c \<or> c = CHR ''?'')) (up_query r)
   \<and> pred_option (\<lambda>w. word_of (\<lambda>c. is_url_char strict c \<or> c = CHR ''?'' \<or> c = CHR ''#'') w \<and> hd w \<noteq> CHR ''#'')
       (up_fragment r)
   \<and> (up_fragment r \<noteq> None \<longrightarrow> up_path r \<noteq> None \<or> up_query r \<noteq> None)
   \<and> length (url_text r) < 2 ^ 16"

definition opened :: "http_parser_url_fields \<Rightarrow> nat \<Rightarrow> string option \<Rightarrow> http_parser_url \<Rightarrow> http_parser_url" where
  "opened f p w u = (case w of None \<Rightarrow> u | Some w \<Rightarrow> open_field f p (length w) u)"

lemma word_ofE:
  assumes "word_of K w"
  obtains c cs where "w = c # cs" "K c" "\<And>x. x \<in> set cs \<Longrightarrow> K x"
  using assms by (cases w) (auto simp: word_of_def)

lemma url_word:
  assumes "word_of K w" and "\<And>c. K c \<Longrightarrow> parse_url_char strict s c = s"
    and "parse_url_char strict (us_s z) (hd w) = s" and "url_field s = Field uf"
    and "s \<noteq> s_req_server_with_at" and "us_old_uf z \<noteq> uf" and "length w < 2 ^ 16"
  shows "url_loop strict p (w @ ys) z = url_loop strict (p + length w) ys
    (z\<lparr>us_s := s, us_old_uf := uf, us_url := open_field uf p (length w) (us_url z)\<rparr>)"
proof -
  obtain c cs where w: "w = c # cs" "\<And>x. x \<in> set cs \<Longrightarrow> K x" using assms(1) by (rule word_ofE) blast
  have "url_loop strict p w z = Inr (z\<lparr>us_s := s, us_old_uf := uf, us_url := open_field uf p (length w) (us_url z)\<rparr>)"
    using url_open [of strict z c s cs uf p] assms w by simp
  then show ?thesis by (simp add: url_loop_append)
qed

lemma schema_run:
  assumes "word_of is_alpha w" and "us_s z = s_req_spaces_before_url" and "us_old_uf z = UF_MAX"
    and "length w < 2 ^ 16"
  shows "url_loop strict p (w @ ''://'' @ ys) z = url_loop strict (p + length w + 3) ys
    (z\<lparr>us_s := s_req_server_start, us_old_uf := UF_SCHEMA, us_url := open_field UF_SCHEMA p (length w) (us_url z)\<rparr>)"
proof -
  have "is_alpha (hd w)" using assms(1) by (auto simp: word_of_def)
  then show ?thesis
    using url_word [of is_alpha w strict s_req_schema z UF_SCHEMA p "''://'' @ ys"] assms
    by (simp add: alpha_moves url_skip delimiter_moves del: url_loop.simps(2)) (cases z, simp add: numeral_3_eq_3)
qed

lemma authority_run:
  assumes "word_of authority_char w" and "pred_option (word_of is_userinfo_char) v"
    and "us_s z = s_req_server_start" and "us_old_uf z \<noteq> UF_HOST" and "length (after v ''@'' @ w) < 2 ^ 16"
  shows "url_loop strict p (after v ''@'' @ w @ ys) z = url_loop strict (p + length (after v ''@'' @ w)) ys
    (z\<lparr>us_s := s_req_server, us_old_uf := UF_HOST, us_found_at := us_found_at z \<or> v \<noteq> None,
       us_url := open_field UF_HOST p (length (after v ''@'' @ w)) (us_url z)\<rparr>)"
proof (cases v)
  case None
  have "authority_char (hd w)" using assms(1) by (auto simp: word_of_def)
  then show ?thesis
    using None url_word [of authority_char w strict s_req_server z UF_HOST p ys] assms
    by (simp add: authority_moves after_def)
next
  case (Some v')
  have v: "word_of authority_char v'" "authority_char (hd v')"
    using assms(2) Some by (auto simp: word_of_def authority_char_def)
  obtain c cs where w: "w = c # cs" "authority_char c" "\<And>x. x \<in> set cs \<Longrightarrow> authority_char x"
    using assms(1) by (rule word_ofE) blast
  have len: "length v' + length cs + 2 < 2 ^ 16" using assms(5) Some w by (simp add: after_def)
  let ?z1 = "z\<lparr>us_s := s_req_server, us_old_uf := UF_HOST, us_url := open_field UF_HOST p (length v') (us_url z)\<rparr>"
  let ?z2 = "z\<lparr>us_s := s_req_server, us_old_uf := UF_HOST, us_found_at := True,
    us_url := open_field UF_HOST p (length v' + 2) (us_url z)\<rparr>"
  have "url_loop strict p (v' @ CHR ''@'' # c # cs @ ys) z = url_loop strict (p + length v') (CHR ''@'' # c # cs @ ys) ?z1"
    using url_word [of authority_char v' strict s_req_server z UF_HOST p] v assms(3,4) len by (simp add: authority_moves)
  also have "\<dots> = url_loop strict (p + length v' + 2) (cs @ ys) ?z2"
    using len w(2) by (cases z) (simp add: url_byte_def delimiter_moves authority_moves grow_widen)
  also have "\<dots> = url_loop strict (p + length v' + 2 + length cs) ys (?z2\<lparr>us_url := widen UF_HOST (length cs) (us_url ?z2)\<rparr>)"
    using url_stay [of cs strict s_req_server UF_HOST ?z2 "p + length v' + 2"] w(3) len
    by (simp add: url_loop_append authority_moves)
  finally show ?thesis using Some w(1) by (simp add: after_def ac_simps)
qed

lemma path_run:
  assumes "pred_option (\<lambda>w. word_of (is_url_char strict) w \<and> hd w = CHR ''/'') w"
    and "us_s z = s_req_server" and "us_old_uf z = UF_HOST" and "length (before [] w) < 2 ^ 16"
  shows "url_loop strict p (before [] w @ ys) z = url_loop strict (p + length (before [] w)) ys
    (z\<lparr>us_s := if w = None then s_req_server else s_req_path, us_old_uf := if w = None then UF_HOST else UF_PATH,
       us_url := opened UF_PATH p w (us_url z)\<rparr>)"
  using assms url_word [of "is_url_char strict" "the w" strict s_req_path z UF_PATH p ys]
  by (cases w; cases z) (auto simp: before_def opened_def delimiter_moves url_char_moves)

lemma query_run:
  assumes "pred_option (word_of (\<lambda>c. is_url_char strict c \<or> c = CHR ''?'')) w"
    and "us_s z = s_req_server \<or> us_s z = s_req_path" and "us_old_uf z \<noteq> UF_QUERY" and "length (before ''?'' w) < 2 ^ 16"
  shows "url_loop strict p (before ''?'' w @ ys) z = url_loop strict (p + length (before ''?'' w)) ys
    (z\<lparr>us_s := if w = None then us_s z else s_req_query_string, us_old_uf := if w = None then us_old_uf z else UF_QUERY,
       us_url := opened UF_QUERY (p + 1) w (us_url z)\<rparr>)"
proof (cases w)
  case (Some q)
  let ?K = "\<lambda>c. is_url_char strict c \<or> c = CHR ''?''" and ?z = "z\<lparr>us_s := s_req_query_string_start\<rparr>"
  have k: "word_of ?K q" "?K (hd q)" using assms(1) Some by (auto simp: word_of_def)
  have "url_loop strict p (CHR ''?'' # q @ ys) z = url_loop strict (p + 1) (q @ ys) ?z"
    using assms(2) by (auto simp: url_skip delimiter_moves simp del: url_loop.simps)
  also have "\<dots> = url_loop strict (p + 1 + length q) ys
      (?z\<lparr>us_s := s_req_query_string, us_old_uf := UF_QUERY, us_url := open_field UF_QUERY (p + 1) (length q) (us_url ?z)\<rparr>)"
    using k(2) assms(3,4) Some
    by (intro url_word [OF k(1)]) (auto simp: url_char_moves mark_moves before_def)
  finally show ?thesis using Some by (simp add: before_def opened_def ac_simps)
qed (cases z, simp add: before_def opened_def)

lemma fragment_run:
  assumes "pred_option (\<lambda>w. word_of (\<lambda>c. is_url_char strict c \<or> c = CHR ''?'' \<or> c = CHR ''#'') w \<and> hd w \<noteq> CHR ''#'') w"
    and "w \<noteq> None \<Longrightarrow> us_s z = s_req_path \<or> us_s z = s_req_query_string" and "us_old_uf z \<noteq> UF_FRAGMENT"
    and "length (before ''#'' w) < 2 ^ 16"
  shows "\<exists>s f. url_loop strict p (before ''#'' w) z =
    Inr (z\<lparr>us_s := s, us_old_uf := f, us_url := opened UF_FRAGMENT (p + 1) w (us_url z)\<rparr>)"
proof (cases w)
  case (Some q)
  let ?K = "\<lambda>c. is_url_char strict c \<or> c = CHR ''?'' \<or> c = CHR ''#''" and ?z = "z\<lparr>us_s := s_req_fragment_start\<rparr>"
  have k: "word_of ?K q" "is_url_char strict (hd q) \<or> hd q = CHR ''?''" using assms(1) Some by (auto simp: word_of_def)
  have "url_loop strict p (CHR ''#'' # q) z = url_loop strict (p + 1) (q @ []) ?z"
    using assms(2) Some by (auto simp: url_skip delimiter_moves simp del: url_loop.simps)
  also have "\<dots> = url_loop strict (p + 1 + length q) []
      (?z\<lparr>us_s := s_req_fragment, us_old_uf := UF_FRAGMENT, us_url := open_field UF_FRAGMENT (p + 1) (length q) (us_url ?z)\<rparr>)"
    using k(2) assms(3,4) Some
    by (intro url_word [OF k(1)]) (auto simp: url_char_moves mark_moves before_def)
  finally show ?thesis using Some by (auto simp: before_def opened_def intro!: exI)
qed (cases z, simp add: before_def opened_def)

text \<open>The authority is scanned once more by the host automaton.\<close>

definition host_fields :: "http_host_state \<Rightarrow> http_parser_url_fields" where
  "host_fields s = (case s of s_http_host_port \<Rightarrow> UF_PORT | s_http_userinfo \<Rightarrow> UF_USERINFO | _ \<Rightarrow> UF_HOST)"

lemma host_stay:
  assumes "\<And>c. c \<in> set xs \<Longrightarrow> http_parse_host_char strict s c = s"
    and "s \<in> {s_http_host, s_http_host_v6, s_http_host_port, s_http_userinfo}"
    and "field_len u (host_fields s) + length xs < 2 ^ 16"
  shows "host_loop strict p xs s u = Inr (s, widen (host_fields s) (length xs) u)"
  using assms(1,3)
proof (induction xs arbitrary: p u)
  case Nil
  then show ?case by simp
next
  case (Cons c xs)
  have "host_field s s p u = widen (host_fields s) 1 u"
    using assms(2) Cons.prems(2) by (auto simp: host_field_def host_fields_def grow_widen)
  moreover have "s \<noteq> s_http_host_dead" using assms(2) by auto
  ultimately show ?case using Cons.IH [of "widen (host_fields s) 1 u" "p + 1"] Cons.prems by simp
qed

lemma host_moves:
  "is_userinfo_char c \<Longrightarrow> http_parse_host_char strict s_http_userinfo_start c = s_http_userinfo"
  "is_userinfo_char c \<Longrightarrow> http_parse_host_char strict s_http_userinfo c = s_http_userinfo"
  "http_parse_host_char strict s_http_userinfo CHR ''@'' = s_http_host_start"
  "is_host_char strict c \<Longrightarrow> http_parse_host_char strict s_http_host_start c = s_http_host"
  "is_host_char strict c \<Longrightarrow> http_parse_host_char strict s_http_host c = s_http_host"
  "http_parse_host_char strict s_http_host_start CHR ''['' = s_http_host_v6_start"
  "is_hex c \<or> c = CHR '':'' \<or> c = CHR ''.'' \<Longrightarrow> http_parse_host_char strict s_http_host_v6_start c = s_http_host_v6"
  "is_hex c \<or> c = CHR '':'' \<or> c = CHR ''.'' \<Longrightarrow> http_parse_host_char strict s_http_host_v6 c = s_http_host_v6"
  "http_parse_host_char strict s_http_host_v6 CHR '']'' = s_http_host_v6_end"
  "s = s_http_host \<or> s = s_http_host_v6_end \<Longrightarrow> http_parse_host_char strict s CHR '':'' = s_http_host_port_start"
  "is_num c \<Longrightarrow> http_parse_host_char strict s_http_host_port_start c = s_http_host_port"
  "is_num c \<Longrightarrow> http_parse_host_char strict s_http_host_port c = s_http_host_port"
  using userinfo_char_plain [of c]
  by (auto simp: http_parse_host_char_def is_host_char_def is_hex_def is_alphanum_def is_alpha_def is_num_def)

definition moved_host :: "nat \<Rightarrow> nat \<Rightarrow> http_parser_url \<Rightarrow> http_parser_url" where
  "moved_host p n u = u\<lparr>field_off := (field_off u)(UF_HOST := u16 p), field_len := (field_len u)(UF_HOST := n)\<rparr>"

lemma userinfo_host_run:
  assumes "pred_option (word_of is_userinfo_char) v" and "length (after v ''@'') < 2 ^ 16"
  shows "host_loop strict p (after v ''@'' @ ys) (if v \<noteq> None then s_http_userinfo_start else s_http_host_start) u =
    host_loop strict (p + length (after v ''@'')) ys s_http_host_start (opened UF_USERINFO p v u)"
proof (cases v)
  case (Some w)
  obtain c cs where w: "w = c # cs" "is_userinfo_char c" "\<And>x. x \<in> set cs \<Longrightarrow> is_userinfo_char x"
    using assms(1) Some by (auto elim: word_ofE)
  let ?u = "open_field UF_USERINFO p 1 u"
  have "host_field s_http_userinfo_start s_http_userinfo p u = ?u"
    by (simp add: host_field_def grow_field_def open_field_def u16_def)
  moreover have "host_loop strict (p + 1) cs s_http_userinfo ?u = Inr (s_http_userinfo, widen UF_USERINFO (length cs) ?u)"
    using host_stay [of cs strict s_http_userinfo ?u "p + 1"] w(3) assms(2) Some w(1)
    by (simp add: host_moves host_fields_def after_def)
  ultimately show ?thesis
    using Some w by (simp add: after_def host_moves host_loop_append opened_def host_field_def)
qed (simp add: after_def opened_def)

lemma host_name_run:
  assumes "host_ok strict h" and "length (host_string h) < 2 ^ 16" and "field_len u UF_HOST = 0"
  shows "\<exists>s. host_loop strict p (host_string h @ ys) s_http_host_start u =
      host_loop strict (p + length (host_string h)) ys s
        (moved_host (p + (case h of Name _ \<Rightarrow> 0 | V6 _ \<Rightarrow> 1)) (length (host_name h)) u)
    \<and> (s = s_http_host \<or> s = s_http_host_v6_end)"
proof (cases h)
  case (Name w)
  obtain c cs where w: "w = c # cs" "is_host_char strict c" "\<And>x. x \<in> set cs \<Longrightarrow> is_host_char strict x"
    using assms(1) Name by (auto simp: host_ok_def elim: word_ofE)
  let ?u = "moved_host p 1 u"
  have "host_field s_http_host_start s_http_host p u = ?u"
    using assms(3) by (simp add: host_field_def grow_field_def moved_host_def u16_def)
  moreover have "host_loop strict (p + 1) cs s_http_host ?u = Inr (s_http_host, widen UF_HOST (length cs) ?u)"
    using host_stay [of cs strict s_http_host ?u "p + 1"] w(3) assms(2) Name w(1)
    by (simp add: host_moves host_fields_def host_string_def moved_host_def)
  moreover have "widen UF_HOST (length cs) ?u = moved_host p (length w) u"
    using w(1) by (simp add: widen_def moved_host_def)
  ultimately show ?thesis
    using Name w(1,2) by (auto simp: host_string_def host_name_def host_moves host_loop_append)
next
  case (V6 w)
  obtain c cs where w: "w = c # cs" "is_hex c \<or> c = CHR '':'' \<or> c = CHR ''.''"
    "\<And>x. x \<in> set cs \<Longrightarrow> is_hex x \<or> x = CHR '':'' \<or> x = CHR ''.''"
    using assms(1) V6 by (auto simp: host_ok_def elim!: word_ofE)
  let ?u = "moved_host (p + 1) 1 u"
  have "host_field s_http_host_v6_start s_http_host_v6 (Suc p) u = ?u"
    using assms(3) by (simp add: host_field_def grow_field_def moved_host_def u16_def)
  moreover have "host_loop strict (p + 2) cs s_http_host_v6 ?u = Inr (s_http_host_v6, widen UF_HOST (length cs) ?u)"
    using host_stay [of cs strict s_http_host_v6 ?u "p + 2"] w(3) assms(2) V6 w(1)
    by (simp add: host_moves host_fields_def host_string_def moved_host_def)
  moreover have "widen UF_HOST (length cs) ?u = moved_host (p + 1) (length w) u"
    using w(1) by (simp add: widen_def moved_host_def)
  ultimately show ?thesis
    using V6 w(1,2) by (auto simp: host_string_def host_name_def host_moves host_loop_append host_field_def)
qed

lemma port_run:
  assumes "pred_option (word_of is_num) w" and "length (before '':'' w) < 2 ^ 16"
    and "s = s_http_host \<or> s = s_http_host_v6_end"
  shows "\<exists>s'. host_loop strict p (before '':'' w) s u = Inr (s', opened UF_PORT (p + 1) w u) \<and> host_end_ok s'"
proof (cases w)
  case (Some q)
  obtain c cs where q: "q = c # cs" "is_num c" "\<And>x. x \<in> set cs \<Longrightarrow> is_num x"
    using assms(1) Some by (auto elim: word_ofE)
  let ?u = "open_field UF_PORT (p + 1) 1 u"
  have "host_field s_http_host_port_start s_http_host_port (Suc p) u = ?u"
    by (simp add: host_field_def grow_field_def open_field_def u16_def)
  moreover have "host_loop strict (p + 2) cs s_http_host_port ?u = Inr (s_http_host_port, widen UF_PORT (length cs) ?u)"
    using host_stay [of cs strict s_http_host_port ?u "p + 2"] q(3) assms(2) Some q(1)
    by (simp add: host_moves host_fields_def before_def)
  ultimately show ?thesis
    using Some q(1,2) assms(3) by (simp add: before_def host_moves opened_def host_end_ok_def host_field_def)
qed (use assms(3) in \<open>auto simp: before_def opened_def host_end_ok_def\<close>)

lemma parts_okD:
  assumes "parts_ok strict r"
  shows "word_of is_alpha (up_schema r)" "pred_option (word_of is_userinfo_char) (up_userinfo r)"
    "host_ok strict (up_host r)" "pred_option (word_of is_num) (up_port r)"
    "pred_option (\<lambda>w. word_of (is_url_char strict) w \<and> hd w = CHR ''/'') (up_path r)"
    "pred_option (word_of (\<lambda>c. is_url_char strict c \<or> c = CHR ''?'')) (up_query r)"
    "pred_option (\<lambda>w. word_of (\<lambda>c. is_url_char strict c \<or> c = CHR ''?'' \<or> c = CHR ''#'') w \<and> hd w \<noteq> CHR ''#'')
       (up_fragment r)"
    "up_fragment r \<noteq> None \<Longrightarrow> up_path r \<noteq> None \<or> up_query r \<noteq> None" "length (url_text r) < 2 ^ 16"
  using assms unfolding parts_ok_def by (blast intro: option.pred_mono_strong)+

lemma host_string_word: "host_ok strict h \<Longrightarrow> word_of authority_char (host_string h)"
proof -
  have sep: "is_userinfo_char CHR '':''" "is_userinfo_char CHR ''.''"
    by (simp_all add: is_userinfo_char_def is_mark_def)
  show "host_ok strict h \<Longrightarrow> word_of authority_char (host_string h)"
    by (cases h) (auto simp: host_ok_def host_string_def word_of_def authority_char_def sep
        intro: host_char_userinfo hex_char_userinfo)
qed

lemma authority_word:
  assumes "parts_ok strict r"
  shows "word_of authority_char (host_string (up_host r) @ before '':'' (up_port r))"
proof -
  have "\<forall>c \<in> set (before '':'' (up_port r)). authority_char c"
    using parts_okD(4) [OF assms] num_char_userinfo is_userinfo_char_def [of "CHR '':''"]
    by (cases "up_port r") (auto simp: before_def word_of_def authority_char_def)
  then show ?thesis using host_string_word [OF parts_okD(3) [OF assms]] by (auto simp: word_of_def)
qed

definition tail_text :: "url_parts \<Rightarrow> string" where
  "tail_text r = before [] (up_path r) @ before ''?'' (up_query r) @ before ''#'' (up_fragment r)"

definition tail_fields :: "nat \<Rightarrow> url_parts \<Rightarrow> http_parser_url \<Rightarrow> http_parser_url" where
  "tail_fields p r u =
     (let p1 = p + length (before [] (up_path r)); p2 = p1 + length (before ''?'' (up_query r))
      in opened UF_FRAGMENT (p2 + 1) (up_fragment r)
          (opened UF_QUERY (p1 + 1) (up_query r) (opened UF_PATH p (up_path r) u)))"

lemma tail_run:
  assumes "parts_ok strict r" and "us_s z = s_req_server" and "us_old_uf z = UF_HOST"
  shows "\<exists>s f. url_loop strict p (tail_text r) z =
    Inr (z\<lparr>us_s := s, us_old_uf := f, us_url := tail_fields p r (us_url z)\<rparr>)"
proof -
  have len: "length (before [] (up_path r)) < 2 ^ 16" "length (before ''?'' (up_query r)) < 2 ^ 16"
    "length (before ''#'' (up_fragment r)) < 2 ^ 16"
    using parts_okD(9) [OF assms(1)] by (auto simp: url_text_def)
  let ?p1 = "p + length (before [] (up_path r))"
  let ?z1 = "z\<lparr>us_s := if up_path r = None then s_req_server else s_req_path,
    us_old_uf := if up_path r = None then UF_HOST else UF_PATH, us_url := opened UF_PATH p (up_path r) (us_url z)\<rparr>"
  let ?z2 = "?z1\<lparr>us_s := if up_query r = None then us_s ?z1 else s_req_query_string,
    us_old_uf := if up_query r = None then us_old_uf ?z1 else UF_QUERY,
    us_url := opened UF_QUERY (?p1 + 1) (up_query r) (us_url ?z1)\<rparr>"
  have "url_loop strict p (tail_text r) z = url_loop strict ?p1 (before ''?'' (up_query r) @ before ''#'' (up_fragment r)) ?z1"
    unfolding tail_text_def by (rule path_run [OF parts_okD(5) [OF assms(1)] assms(2,3) len(1)])
  also have "\<dots> = url_loop strict (?p1 + length (before ''?'' (up_query r))) (before ''#'' (up_fragment r)) ?z2"
    by (rule query_run [OF parts_okD(6) [OF assms(1)] _ _ len(2)]) auto
  finally have "url_loop strict p (tail_text r) z = \<dots>" .
  moreover have "\<exists>s f. url_loop strict (?p1 + length (before ''?'' (up_query r))) (before ''#'' (up_fragment r)) ?z2 =
      Inr (?z2\<lparr>us_s := s, us_old_uf := f,
        us_url := opened UF_FRAGMENT (?p1 + length (before ''?'' (up_query r)) + 1) (up_fragment r) (us_url ?z2)\<rparr>)"
    using parts_okD(8) [OF assms(1)] by (intro fragment_run [OF parts_okD(7) [OF assms(1)] _ _ len(3)]) auto
  ultimately show ?thesis by (simp add: tail_fields_def Let_def)
qed

lemma url_text_split:
  "url_text r = up_schema r @ ''://'' @ after (up_userinfo r) ''@''
     @ (host_string (up_host r) @ before '':'' (up_port r)) @ tail_text r"
  by (simp add: url_text_def authority_text_def tail_text_def)

lemma url_run:
  assumes "parts_ok strict r"
  defines "a \<equiv> length (up_schema r) + 3"
  shows "\<exists>s f. url_loop strict 0 (url_text r)
      \<lparr>us_s = s_req_spaces_before_url, us_old_uf = UF_MAX, us_found_at = False, us_url = u\<rparr> =
    Inr \<lparr>us_s = s, us_old_uf = f, us_found_at = up_userinfo r \<noteq> None,
      us_url = tail_fields (a + length (authority_text r)) r
        (open_field UF_HOST a (length (authority_text r)) (open_field UF_SCHEMA 0 (length (up_schema r)) u))\<rparr>"
proof -
  let ?h = "host_string (up_host r) @ before '':'' (up_port r)"
  let ?z0 = "\<lparr>us_s = s_req_spaces_before_url, us_old_uf = UF_MAX, us_found_at = False, us_url = u\<rparr>"
  let ?z1 = "\<lparr>us_s = s_req_server_start, us_old_uf = UF_SCHEMA, us_found_at = False,
    us_url = open_field UF_SCHEMA 0 (length (up_schema r)) u\<rparr>"
  let ?z2 = "\<lparr>us_s = s_req_server, us_old_uf = UF_HOST, us_found_at = up_userinfo r \<noteq> None,
    us_url = open_field UF_HOST a (length (authority_text r)) (us_url ?z1)\<rparr>"
  have len: "length (up_schema r) < 2 ^ 16" "length (authority_text r) < 2 ^ 16"
    using parts_okD(9) [OF assms(1)] by (auto simp: url_text_def)
  have "url_loop strict 0 (url_text r) ?z0 = url_loop strict a (after (up_userinfo r) ''@'' @ ?h @ tail_text r) ?z1"
    using schema_run [OF parts_okD(1) [OF assms(1)], of ?z0 strict 0] len by (simp add: url_text_split a_def)
  also have "\<dots> = url_loop strict (a + length (authority_text r)) (tail_text r) ?z2"
    using authority_run [OF authority_word [OF assms(1)] parts_okD(2) [OF assms(1)], of ?z1 strict a "tail_text r"] len
    by (simp add: authority_text_def)
  finally show ?thesis using tail_run [OF assms(1), of ?z2 "a + length (authority_text r)"] by auto
qed

lemma opened_fields [simp]:
  "field_off (opened f p w u) g = (if f = g \<and> w \<noteq> None then u16 p else field_off u g)"
  "field_len (opened f p w u) g = (if f = g \<and> w \<noteq> None then length (the w) else field_len u g)"
  "field_set (opened f p w u) = (if w = None then field_set u else insert f (field_set u))"
  "url_port (opened f p w u) = url_port u"
  by (auto simp: opened_def open_field_def split: option.split)

lemma open_fields [simp]:
  "field_off (open_field f p n u) g = (if f = g then u16 p else field_off u g)"
  "field_len (open_field f p n u) g = (if f = g then n else field_len u g)"
  "field_set (open_field f p n u) = insert f (field_set u)"
  "url_port (open_field f p n u) = url_port u"
  by (auto simp: open_field_def)

lemma moved_host_fields [simp]:
  "field_off (moved_host p n u) g = (if g = UF_HOST then u16 p else field_off u g)"
  "field_len (moved_host p n u) g = (if g = UF_HOST then n else field_len u g)"
  "field_set (moved_host p n u) = field_set u" "url_port (moved_host p n u) = url_port u"
  by (auto simp: moved_host_def)

lemma u16_small [simp]: "n < 2 ^ 16 \<Longrightarrow> u16 n = n"
  by (simp add: u16_def)

definition authority_fields :: "nat \<Rightarrow> url_parts \<Rightarrow> http_parser_url \<Rightarrow> http_parser_url" where
  "authority_fields a r u =
     (let h = a + length (after (up_userinfo r) ''@'')
      in opened UF_PORT (h + length (host_string (up_host r)) + 1) (up_port r)
          (moved_host (h + (case up_host r of Name _ \<Rightarrow> 0 | V6 _ \<Rightarrow> 1)) (length (host_name (up_host r)))
            (opened UF_USERINFO a (up_userinfo r) (u\<lparr>field_len := (field_len u)(UF_HOST := 0)\<rparr>))))"

lemma parse_host_run:
  assumes "parts_ok strict r" and "field_off u UF_HOST = length xs" and "field_len u UF_HOST = length (authority_text r)"
  shows "http_parse_host strict (xs @ authority_text r @ ys) u (up_userinfo r \<noteq> None) =
    Inr (authority_fields (length xs) r u)"
proof -
  let ?a = "length xs" and ?u0 = "u\<lparr>field_len := (field_len u)(UF_HOST := 0)\<rparr>"
  let ?h = "?a + length (after (up_userinfo r) ''@'')"
  let ?u1 = "opened UF_USERINFO ?a (up_userinfo r) ?u0"
  let ?u2 = "moved_host (?h + (case up_host r of Name _ \<Rightarrow> 0 | V6 _ \<Rightarrow> 1)) (length (host_name (up_host r))) ?u1"
  let ?q = "?h + length (host_string (up_host r))"
  have len: "length (after (up_userinfo r) ''@'') < 2 ^ 16" "length (host_string (up_host r)) < 2 ^ 16"
    "length (before '':'' (up_port r)) < 2 ^ 16"
    using parts_okD(9) [OF assms(1)] by (auto simp: url_text_def authority_text_def)
  have "host_loop strict ?a (authority_text r) (if up_userinfo r \<noteq> None then s_http_userinfo_start else s_http_host_start) ?u0 =
      host_loop strict ?h (host_string (up_host r) @ before '':'' (up_port r)) s_http_host_start ?u1"
    unfolding authority_text_def by (rule userinfo_host_run [OF parts_okD(2) [OF assms(1)] len(1)])
  moreover obtain s where s: "s = s_http_host \<or> s = s_http_host_v6_end" and
    "host_loop strict ?h (host_string (up_host r) @ before '':'' (up_port r)) s_http_host_start ?u1 =
      host_loop strict ?q (before '':'' (up_port r)) s ?u2"
    using host_name_run [OF parts_okD(3) [OF assms(1)] len(2), of ?u1 ?h "before '':'' (up_port r)"] by auto
  moreover obtain s' where "host_loop strict ?q (before '':'' (up_port r)) s ?u2 = Inr (s', opened UF_PORT (?q + 1) (up_port r) ?u2)"
    "host_end_ok s'"
    using port_run [OF parts_okD(4) [OF assms(1)] len(3) s] by blast
  ultimately show ?thesis using assms(2,3) by (simp add: http_parse_host_def Let_def authority_fields_def)
qed

lemma strtoul_digits:
  assumes "word_of is_num w" and "\<not> is_num c" and "number w < 2 ^ 64"
  shows "strtoul (w @ c # cs) = Some (number w)"
proof -
  obtain d ds where w: "w = d # ds" "is_num d" using assms(1) by (rule word_ofE) blast
  then have "\<not> is_space d" "d \<noteq> CHR ''-''" "d \<noteq> CHR ''+''" by (auto simp: is_num_def is_space_def)
  moreover have "takeWhile is_num (w @ c # cs) = w" using assms(1,2) by (simp add: word_of_def takeWhile_tail)
  ultimately show ?thesis using assms(2,3) w by (auto simp: strtoul_def Let_def)
qed

definition url_component :: "url_parts \<Rightarrow> http_parser_url_fields \<Rightarrow> string option" where
  "url_component r f =
     (case f of UF_SCHEMA \<Rightarrow> Some (up_schema r) | UF_HOST \<Rightarrow> Some (host_name (up_host r)) | UF_PORT \<Rightarrow> up_port r
      | UF_PATH \<Rightarrow> up_path r | UF_QUERY \<Rightarrow> up_query r | UF_FRAGMENT \<Rightarrow> up_fragment r
      | UF_USERINFO \<Rightarrow> up_userinfo r | UF_MAX \<Rightarrow> None)"

definition url_field_text :: "string \<Rightarrow> http_parser_url \<Rightarrow> http_parser_url_fields \<Rightarrow> string option" where
  "url_field_text buf u f =
     (if f \<in> field_set u then Some (take (field_len u f) (drop (field_off u f) buf)) else None)"

lemma field_at: "buf = xs @ w @ ys \<Longrightarrow> p = length xs \<Longrightarrow> n = length w \<Longrightarrow> take n (drop p buf) = w"
  by simp

definition all_fields :: "url_parts \<Rightarrow> http_parser_url \<Rightarrow> http_parser_url" where
  "all_fields r u =
     (let a = length (up_schema r) + 3; n = length (authority_text r)
      in authority_fields a r (tail_fields (a + n) r (open_field UF_HOST a n (open_field UF_SCHEMA 0 (length (up_schema r)) u))))"

lemma all_fields_set: "f \<in> field_set (all_fields r u) \<longleftrightarrow> url_component r f \<noteq> None \<or> f \<in> field_set u"
  by (cases f) (auto simp: all_fields_def authority_fields_def tail_fields_def Let_def url_component_def)

lemma small_offset: "length (url_text r) < 2 ^ 16 \<Longrightarrow> n \<le> length (url_text r) \<Longrightarrow> u16 n = n"
  by (rule u16_small) simp

lemma authority_at:
  assumes "length (url_text r) < 2 ^ 16" and "url_component r f = Some w" and "f \<in> {UF_SCHEMA, UF_USERINFO, UF_HOST, UF_PORT}"
  shows "take (field_len (all_fields r u) f) (drop (field_off (all_fields r u) f) (url_text r @ rest)) = w"
proof -
  have off: "\<And>n. n \<le> length (url_text r) \<Longrightarrow> u16 n = n" using small_offset [OF assms(1)] .
  let ?s = "up_schema r @ ''://''" and ?v = "after (up_userinfo r) ''@''"
  consider "f = UF_SCHEMA" "w = up_schema r" | "f = UF_USERINFO" "up_userinfo r = Some w"
    | "f = UF_HOST" "up_host r = Name w" | "f = UF_HOST" "up_host r = V6 w" | "f = UF_PORT" "up_port r = Some w"
    using assms(2,3) by (cases "up_host r") (auto simp: url_component_def host_name_def)
  then show ?thesis
  proof cases
    case 1
    then show ?thesis by (intro field_at [of _ "[]"])
      (auto simp: url_text_def all_fields_def authority_fields_def tail_fields_def Let_def off)
  next
    case 2
    then show ?thesis by (intro field_at [of _ ?s])
      (auto simp: url_text_def authority_text_def after_def all_fields_def authority_fields_def tail_fields_def Let_def off)
  next
    case 3
    then show ?thesis by (intro field_at [of _ "?s @ ?v"])
      (auto simp: url_text_def authority_text_def host_string_def host_name_def all_fields_def authority_fields_def
        tail_fields_def Let_def off)
  next
    case 4
    then show ?thesis by (intro field_at [of _ "?s @ ?v @ ''[''"])
      (auto simp: url_text_def authority_text_def host_string_def host_name_def all_fields_def authority_fields_def
        tail_fields_def Let_def off)
  next
    case 5
    then show ?thesis by (intro field_at [of _ "?s @ ?v @ host_string (up_host r) @ '':''"])
      (auto simp: url_text_def authority_text_def before_def all_fields_def authority_fields_def tail_fields_def Let_def off)
  qed
qed

lemma tail_at:
  assumes "length (url_text r) < 2 ^ 16" and "url_component r f = Some w" and "f \<in> {UF_PATH, UF_QUERY, UF_FRAGMENT}"
  shows "take (field_len (all_fields r u) f) (drop (field_off (all_fields r u) f) (url_text r @ rest)) = w"
proof -
  have off: "\<And>n. n \<le> length (url_text r) \<Longrightarrow> u16 n = n" using small_offset [OF assms(1)] .
  let ?x = "up_schema r @ ''://'' @ authority_text r"
  consider "f = UF_PATH" "up_path r = Some w" | "f = UF_QUERY" "up_query r = Some w"
    | "f = UF_FRAGMENT" "up_fragment r = Some w"
    using assms(2,3) by (auto simp: url_component_def)
  then show ?thesis
  proof cases
    case 1
    then show ?thesis by (intro field_at [of _ ?x])
      (auto simp: url_text_def before_def all_fields_def authority_fields_def tail_fields_def Let_def off)
  next
    case 2
    then show ?thesis by (intro field_at [of _ "?x @ before [] (up_path r) @ ''?''"])
      (auto simp: url_text_def before_def [of "''?''"] all_fields_def authority_fields_def tail_fields_def Let_def off)
  next
    case 3
    then show ?thesis by (intro field_at [of _ "?x @ before [] (up_path r) @ before ''?'' (up_query r) @ ''#''"])
      (auto simp: url_text_def before_def [of "''#''"] all_fields_def authority_fields_def tail_fields_def Let_def off)
  qed
qed

lemma all_fields_text:
  assumes "length (url_text r) < 2 ^ 16"
  shows "url_field_text (url_text r @ rest) (all_fields r (u\<lparr>field_set := {}\<rparr>)) f = url_component r f"
proof (cases "url_component r f")
  case None
  then show ?thesis by (cases f) (auto simp: url_field_text_def all_fields_set url_component_def)
next
  case (Some w)
  then show ?thesis
    using authority_at [OF assms Some] tail_at [OF assms Some]
    by (cases f) (auto simp: url_field_text_def all_fields_set url_component_def)
qed

lemma port_at:
  assumes "length (url_text r) < 2 ^ 16" and "up_port r = Some w"
  shows "drop (field_off (all_fields r u) UF_PORT) (url_text r @ rest) = w @ tail_text r @ rest"
proof -
  let ?xs = "up_schema r @ ''://'' @ after (up_userinfo r) ''@'' @ host_string (up_host r) @ '':''"
  have buf: "url_text r @ rest = ?xs @ w @ tail_text r @ rest"
    using assms(2) by (simp add: url_text_split before_def)
  have "field_off (all_fields r u) UF_PORT = length ?xs"
    using small_offset [OF assms(1), of "length ?xs"] assms(2)
    by (simp add: all_fields_def authority_fields_def tail_fields_def Let_def url_text_split before_def numeral_3_eq_3 ac_simps)
  then show ?thesis unfolding buf by (metis append_eq_conv_conj)
qed

lemma url_field_text_port [simp]: "url_field_text buf (u\<lparr>url_port := n\<rparr>) = url_field_text buf u"
  by (simp add: url_field_text_def fun_eq_iff)

lemma all_fields_port: "url_port (all_fields r u) = url_port u"
  by (simp add: all_fields_def authority_fields_def tail_fields_def Let_def)

text \<open>
  C19: a URL put together from components is taken apart into them again.  Schema, user
  information, host (a name or an IPv6 address in brackets), port, path, query and fragment,
  each made of the bytes the automata allow and the whole shorter than 64 KiB, come back as
  the fields of the structure, whatever it held before and whatever follows the URL in the
  memory, and the fields that are absent are not set; the port is the number its digits
  denote, provided that a byte that is not a digit follows them.
\<close>

theorem parse_url_roundtrip:
  assumes "parts_ok strict r"
    and "up_port r \<noteq> None \<Longrightarrow> tail_text r @ rest \<noteq> [] \<and> \<not> is_num (hd (tail_text r @ rest))"
  shows "\<exists>u'. http_parser_parse_url strict (url_text r @ rest) (length (url_text r)) False u = Inr u'
    \<and> (\<forall>f. url_field_text (url_text r @ rest) u' f = url_component r f)
    \<and> url_port u' = (case up_port r of None \<Rightarrow> 0 | Some w \<Rightarrow> number w)"
proof -
  let ?u0 = "u\<lparr>url_port := 0, field_set := {}\<rparr>" and ?buf = "url_text r @ rest"
  let ?a = "length (up_schema r) + 3" and ?n = "length (authority_text r)"
  let ?u1 = "tail_fields (?a + ?n) r (open_field UF_HOST ?a ?n (open_field UF_SCHEMA 0 (length (up_schema r)) ?u0))"
  let ?u2 = "all_fields r ?u0"
  have len: "length (url_text r) < 2 ^ 16" by (rule parts_okD(9) [OF assms(1)])
  have buf: "?buf = (up_schema r @ ''://'') @ authority_text r @ (tail_text r @ rest)"
    by (simp add: url_text_def tail_text_def)
  have "field_off ?u1 UF_HOST = ?a" "field_len ?u1 UF_HOST = ?n"
    using len by (auto simp: tail_fields_def Let_def url_text_def)
  then have host: "http_parse_host strict ?buf ?u1 (up_userinfo r \<noteq> None) = Inr ?u2"
    unfolding buf by (subst parse_host_run [OF assms(1)]) (simp_all add: all_fields_def Let_def numeral_3_eq_3)
  have comps: "url_field_text ?buf ?u2 f = url_component r f" for f
    using all_fields_text [OF len, of rest "u\<lparr>url_port := 0\<rparr>"] by simp
  have port: "up_port r = Some w \<Longrightarrow> strtoul (drop (field_off ?u2 UF_PORT) ?buf) = Some (number w)" for w
  proof -
    assume w: "up_port r = Some w"
    have "word_of is_num w" "number w < 2 ^ 64" using assms(1) w by (auto simp: parts_ok_def)
    moreover have "drop (field_off ?u2 UF_PORT) ?buf = w @ tail_text r @ rest"
      by (rule port_at [OF len w])
    moreover obtain c cs where "tail_text r @ rest = c # cs" "\<not> is_num c"
      using assms(2) w by (cases "tail_text r @ rest") auto
    ultimately show ?thesis using strtoul_digits by simp
  qed
  obtain s f where "url_loop strict 0 (url_text r)
      \<lparr>us_s = s_req_spaces_before_url, us_old_uf = UF_MAX, us_found_at = False, us_url = ?u0\<rparr> =
    Inr \<lparr>us_s = s, us_old_uf = f, us_found_at = up_userinfo r \<noteq> None, us_url = ?u1\<rparr>"
    using url_run [OF assms(1), of ?u0] by blast
  moreover have "UF_HOST \<in> field_set ?u1" by (simp add: tail_fields_def Let_def)
  ultimately have "http_parser_parse_url strict ?buf (length (url_text r)) False u =
      Inr (case up_port r of None \<Rightarrow> ?u2 | Some w \<Rightarrow> ?u2\<lparr>url_port := number w\<rparr>)"
    using host port assms(1)
    by (auto simp: http_parser_parse_url_def all_fields_set url_component_def parts_ok_def split: option.split)
  then show ?thesis
    using comps by (auto simp: all_fields_port split: option.split)
qed

lemmas url_bytes = word_of_def is_alpha_def is_num_def is_alphanum_def is_hex_def is_mark_def is_userinfo_char_def
  is_host_char_def is_url_char_def bit_at_def normal_url_char_def digit_def number_def

definition blank_url :: http_parser_url where
  "blank_url = \<lparr>field_set = {}, url_port = 0, field_off = (\<lambda>_. 0), field_len = (\<lambda>_. 0)\<rparr>"

theorem parse_url_roundtrip_witness:
  "\<exists>u'. http_parser_parse_url False ''http://u@[::1]:8080/a?b GET'' 23 False blank_url = Inr u'
    \<and> url_field_text ''http://u@[::1]:8080/a?b GET'' u' UF_HOST = Some ''::1''
    \<and> url_field_text ''http://u@[::1]:8080/a?b GET'' u' UF_QUERY = Some ''b'' \<and> url_port u' = 8080"
proof -
  let ?r = "\<lparr>up_schema = ''http'', up_userinfo = Some ''u'', up_host = V6 ''::1'', up_port = Some ''8080'',
    up_path = Some ''/a'', up_query = Some ''b'', up_fragment = None\<rparr>"
  have shape: "url_text ?r = ''http://u@[::1]:8080/a?b''" "tail_text ?r = ''/a?b''"
    by (simp_all add: url_text_def tail_text_def authority_text_def host_string_def after_def before_def)
  have "parts_ok False ?r" by (simp add: parts_ok_def shape host_ok_def url_bytes bit_0)
  then obtain u' where "http_parser_parse_url False (url_text ?r @ '' GET'') (length (url_text ?r)) False blank_url = Inr u'"
    and u': "\<forall>f. url_field_text (url_text ?r @ '' GET'') u' f = url_component ?r f" "url_port u' = number ''8080''"
    using parse_url_roundtrip [of False ?r "'' GET''" blank_url] by (auto simp: shape is_num_def)
  then have "http_parser_parse_url False ''http://u@[::1]:8080/a?b GET'' 23 False blank_url = Inr u'"
    by (simp add: shape eval_nat_numeral)
  then show ?thesis
    using u' u'(1) [rule_format, of UF_HOST] u'(1) [rule_format, of UF_QUERY]
    by (auto simp: shape url_component_def host_name_def number_def digit_def)
qed

section \<open>Reads stay inside the memory\<close>

lemma url_field_expected: "url_field (parse_url_char strict s c) \<noteq> Stop_with Unexpected_state"
proof -
  have "parse_url_server c \<in> {s_dead, s_req_server, s_req_server_with_at, s_req_path, s_req_query_string_start}"
    by (simp add: parse_url_server_def)
  then show ?thesis by (cases s) (auto simp: parse_url_char_def url_field_def)
qed

lemma url_field_choices:
  "url_field s \<noteq> Field UF_PORT" "url_field s = Stop_with e \<Longrightarrow> e = Return_1 \<or> e = Unexpected_state"
  by (cases s; simp add: url_field_def)+

definition scan_ok :: "nat \<Rightarrow> nat \<Rightarrow> url_scan \<Rightarrow> bool" where
  "scan_ok m p z \<longleftrightarrow>
     (let u = us_url z
      in field_off u UF_HOST + field_len u UF_HOST \<le> m
       \<and> (us_old_uf z = UF_HOST \<longrightarrow> field_off u UF_HOST + field_len u UF_HOST \<le> p)
       \<and> UF_PORT \<notin> field_set u)"

lemma u16_le: "u16 n \<le> n"
  by (simp add: u16_def)

lemma url_byte_ok:
  assumes "scan_ok m p z" and "p < m" and "url_byte strict p c z = Inr z'"
  shows "scan_ok m (p + 1) z'"
  using assms u16_le [of p] u16_le [of "field_len (us_url z) UF_HOST + 1"]
    url_field_choices(1) [of "parse_url_char strict (us_s z) c"]
  by (cases "url_field (parse_url_char strict (us_s z) c)")
    (auto simp: scan_ok_def url_byte_def Let_def grow_field_def split: if_splits)

lemma url_loop_ok:
  "scan_ok m p z \<Longrightarrow> p + length cs \<le> m \<Longrightarrow> url_loop strict p cs z = Inr z' \<Longrightarrow> scan_ok m (p + length cs) z'"
proof (induction cs arbitrary: p z)
  case Nil
  then show ?case by simp
next
  case (Cons c cs)
  then obtain z1 where "url_byte strict p c z = Inr z1" "url_loop strict (p + 1) cs z1 = Inr z'"
    by (auto split: sum.splits)
  then show ?case using Cons.IH [of "p + 1" z1] url_byte_ok [OF Cons.prems(1), of strict c z1] Cons.prems(2) by simp
qed

lemma url_loop_expected:
  "url_loop strict p cs z = Inl e \<Longrightarrow> e = Return_1"
proof (induction cs arbitrary: p z)
  case (Cons c cs)
  then show ?case
    using url_field_expected [of strict "us_s z" c]
      url_field_choices(2) [of "parse_url_char strict (us_s z) c"]
    by (auto simp: url_byte_def Let_def split: sum.splits url_field_choice.splits)
qed simp

lemma host_loop_fails: "host_loop strict p cs s u = Inl e \<Longrightarrow> e = Return_1"
  by (induction cs arbitrary: p s u) (auto simp: Let_def split: if_splits)

lemma host_loop_port:
  assumes "host_loop strict p cs s u = Inr (s', u')" and "UF_PORT \<in> field_set u \<Longrightarrow> field_off u UF_PORT < m"
    and "p + length cs \<le> m"
  shows "UF_PORT \<in> field_set u' \<Longrightarrow> field_off u' UF_PORT < m"
  using assms
proof (induction cs arbitrary: p s u)
  case (Cons c cs)
  let ?s = "http_parse_host_char strict s c"
  have "UF_PORT \<in> field_set (host_field s ?s p u) \<Longrightarrow> field_off (host_field s ?s p u) UF_PORT < m"
    using Cons.prems(3,4) u16_le [of p] by (cases ?s) (auto simp: host_field_def grow_field_def split: if_splits)
  then show ?case using Cons.IH [of "p + 1" ?s "host_field s ?s p u"] Cons.prems by (auto simp: Let_def split: if_splits)
qed simp

lemma strtoul_stops:
  assumes "cs \<noteq> []" and "last cs = NUL"
  shows "strtoul cs \<noteq> None"
proof -
  have nul: "\<not> is_space NUL" "\<not> is_num NUL" "NUL \<noteq> CHR ''-''" "NUL \<noteq> CHR ''+''" by (simp_all add: is_space_def is_num_def)
  let ?ts = "dropWhile is_space cs"
  have "?ts \<noteq> []" using assms nul(1) by (metis dropWhile_eq_Nil_conv last_in_set)
  then have ts: "?ts \<noteq> []" "last ?ts = NUL" using assms(2) by (metis last_appendR takeWhile_dropWhile_id)+
  have "NUL \<in> set (if hd ?ts \<in> {CHR ''-'', CHR ''+''} then tl ?ts else ?ts)"
    using ts nul(3,4) last_in_set [of "tl ?ts"] last_in_set [of ?ts] by (cases ?ts) (auto split: if_splits)
  moreover have "NUL \<in> set us \<Longrightarrow> takeWhile is_num us \<noteq> us" for us
    using nul(2) set_takeWhileD [of NUL is_num us] by auto
  ultimately have "takeWhile is_num (if hd ?ts \<in> {CHR ''-'', CHR ''+''} then tl ?ts else ?ts) \<noteq>
      (if hd ?ts \<in> {CHR ''-'', CHR ''+''} then tl ?ts else ?ts)" by blast
  then show ?thesis using ts(1) by (simp add: strtoul_def Let_def)
qed

text \<open>
  C36: in a NUL-terminated memory the URL parser reads only inside it and no unexpected state
  is met, for any bytes, lengths and offsets that wrap included, provided that the host
  field the caller's structure came with lies inside the memory: it is read when a URL has
  a schema and no host.
\<close>

theorem parse_url_reads_inside:
  assumes "buf = xs @ [NUL]" and "buflen \<le> length xs"
    and "field_off u UF_HOST + field_len u UF_HOST \<le> length buf"
  shows "http_parser_parse_url strict buf buflen is_connect u = Inl Return_1
    \<or> (\<exists>u'. http_parser_parse_url strict buf buflen is_connect u = Inr u')"
proof -
  let ?z0 = "\<lparr>us_s = (if is_connect then s_req_server_start else s_req_spaces_before_url), us_old_uf = UF_MAX,
    us_found_at = False, us_url = u\<lparr>url_port := 0, field_set := {}\<rparr>\<rparr>"
  have start: "scan_ok (length buf) 0 ?z0" using assms(3) by (simp add: scan_ok_def)
  show ?thesis
  proof (cases "url_loop strict 0 (take buflen buf) ?z0")
    case (Inl e)
    then show ?thesis using url_loop_expected [OF Inl] by (simp add: http_parser_parse_url_def)
  next
    case (Inr z)
    have z: "scan_ok (length buf) (length (take buflen buf)) z"
      using url_loop_ok [OF start _ Inr] by simp
    have host: "http_parse_host strict buf (us_url z) fa = Inl e \<Longrightarrow> e = Return_1" for fa e
      using z by (auto simp: http_parse_host_def Let_def scan_ok_def split: sum.splits if_splits dest: host_loop_fails)
    have port: "http_parse_host strict buf (us_url z) fa = Inr u' \<Longrightarrow> UF_PORT \<in> field_set u' \<Longrightarrow>
        field_off u' UF_PORT < length buf" for fa u'
      using z by (auto simp: http_parse_host_def Let_def scan_ok_def split: sum.splits if_splits
          elim!: host_loop_port [where m = "length buf"])
    have "strtoul (drop n buf) \<noteq> None" if "n < length buf" for n
      using that assms(1) by (intro strtoul_stops) auto
    then have num: "UF_PORT \<in> field_set u' \<Longrightarrow> http_parse_host strict buf (us_url z) fa = Inr u' \<Longrightarrow>
        \<exists>v. strtoul (drop (field_off u' UF_PORT) buf) = Some v" for u' fa
      using port by blast
    have no_port: "UF_PORT \<notin> field_set (us_url z)" using z by (simp add: scan_ok_def Let_def)
    let ?R = "if field_set (us_url z) \<inter> {UF_SCHEMA, UF_HOST} \<noteq> {}
      then http_parse_host strict buf (us_url z) (us_found_at z) else Inr (us_url z)"
    show ?thesis
    proof (cases ?R)
      case (Inl e)
      then have "e = Return_1" using host by (simp split: if_splits)
      then show ?thesis using Inl Inr by (simp add: http_parser_parse_url_def)
    next
      case R: (Inr u')
      have "UF_PORT \<in> field_set u' \<Longrightarrow> \<exists>v. strtoul (drop (field_off u' UF_PORT) buf) = Some v"
        using R num no_port by (auto split: if_splits)
      then show ?thesis
        unfolding http_parser_parse_url_def Inr sum.case R
        by (cases "UF_PORT \<in> field_set u'") (auto split: if_splits)
    qed
  qed
qed

theorem parse_url_reads_inside_witness:
  "http_parser_parse_url True (''ftp://h:21'' @ [NUL]) 10 False blank_url = Inl Return_1
    \<or> (\<exists>u'. http_parser_parse_url True (''ftp://h:21'' @ [NUL]) 10 False blank_url = Inr u')"
  by (rule parse_url_reads_inside [OF refl]) (simp_all add: blank_url_def)


end
