(* ===== verification/Http_Chunking.thy ===== *)
theory Http_Chunking
  imports Http_Safety
begin

text \<open>
  How a stream is cut into buffers does not matter: feeding \<open>src/http_parser.c\<close> two buffers one
  after the other gives the parser, the application state and the byte count of feeding their
  concatenation.

  The application is an interface, the locale \<open>stream_callbacks\<close>: its data callbacks return 0,
  do not pause and append to what the application holds, so that two calls with consecutive
  pieces are one call with both; its other callbacks are arbitrary.  The proof compares the run
  on \<open>c # d\<close> after its first byte with the run on \<open>d\<close> that follows a run on \<open>[c]\<close>: the two
  agree except for a piece that is still marked in the first and already handed over in the
  second.
\<close>

section \<open>What the arms of one kind of data do\<close>

definition kind_of :: "state \<Rightarrow> data_kind option" where
  "kind_of s =
     (if s = s_header_field then Some K_header_field
      else if s = s_header_value then Some K_header_value
      else if s \<in> url_states then Some K_url
      else if s \<in> body_states then Some K_body else None)"

definition kind_step :: "data_kind \<Rightarrow> step \<Rightarrow> bool" where
  "kind_step k st \<longleftrightarrow>
     st_mark st \<in> {None, Some k}
   \<and> st_action st \<in> {No_callback, Data k, Data_noadvance k, Data_through k}
   \<and> st_control st \<noteq> Return_next
   \<and> (k = K_body \<longrightarrow> st_mark st = None \<longrightarrow> goes_on (st_control st) \<longrightarrow> st_action st = Data K_body \<and> st_advance st = 0)"

lemma kind_step_simps [simp]:
  "k \<noteq> K_body \<Longrightarrow> c \<noteq> Return_next \<Longrightarrow>
     kind_step k (leave P a c) \<longleftrightarrow> a \<in> {No_callback, Data k, Data_noadvance k, Data_through k}"
  "kind_step k (leave P No_callback (Error e))" "kind_step k (leave P No_callback Assert_fails)"
  "kind_step K_body (leave P (Data K_body) Break)"
  "c \<noteq> Return_next \<Longrightarrow> kind_step K_body (body_step n (leave P a c)) \<longleftrightarrow>
     a \<in> {No_callback, Data K_body, Data_noadvance K_body, Data_through K_body}"
  "kind_step k st \<Longrightarrow> kind_step k (expect strict x ch P st)"
  "kind_step k st \<Longrightarrow> kind_step k (assert_chunked P st)"
  by (auto simp: kind_step_def leave_def body_step_def expect_def assert_chunked_def)

lemma kind_url: "kind_step K_url (on_url strict P ch)" "kind_step K_url (on_url_no_space strict P ch)"
  by (simp_all add: on_url_def on_url_no_space_def url_next_def Let_def)

lemma kind_header:
  "kind_step K_header_field (on_header_field strict P ch)" "kind_step K_header_value (on_header_value P ch)"
  by (simp_all add: on_header_field_def on_header_value_def header_value_char_def Let_def
      split: option.split header_states.split)

lemma kind_body:
  "kind_step K_body (on_body_identity rem P)" "kind_step K_body (on_body_identity_eof rem P)"
  "kind_step K_body (on_chunk_data rem P)" "kind_step K_body (on_chunk_data_almost_done strict P ch)"
  by (simp_all add: on_body_identity_def on_body_identity_eof_def on_chunk_data_def
      on_chunk_data_almost_done_def Let_def)

lemma on_byte_kind:
  assumes "kind_of (p_state P) = Some k" shows "kind_step k (on_byte strict rem P ch)"
  using assms
  by (auto simp: kind_of_def url_states_def body_states_def on_byte_def kind_url kind_header kind_body
      split: if_splits)

lemma marks_kind: "marks_ok s m \<Longrightarrow> m k \<noteq> None \<Longrightarrow> kind_of s = Some k"
  by (cases k) (auto simp: marks_ok_def kind_of_def url_states_def body_states_def)

lemma marks_ok_cases: "marks_ok s m \<Longrightarrow> m = (\<lambda>_. None) \<or> (\<exists>k i. m = (\<lambda>_. None)(k := Some i))"
proof -
  assume ok: "marks_ok s m"
  show ?thesis
  proof (cases "\<exists>k i. m k = Some i")
    case True
    then obtain k i where k: "m k = Some i" by blast
    then have "m j = None" if "j \<noteq> k" for j
      using marks_kind [OF ok, of k] marks_kind [OF ok, of j] that by (cases "m j") auto
    then have "m = (\<lambda>_. None)(k := Some i)" using k by (auto simp: fun_eq_iff)
    then show ?thesis by blast
  qed (auto simp: fun_eq_iff)
qed

text \<open>The errors that bytes cause, not callbacks.\<close>

definition syntax_error :: "http_errno \<Rightarrow> bool" where
  "syntax_error e \<longleftrightarrow> e \<notin> {HPE_OK, HPE_PAUSED, HPE_CB_message_begin, HPE_CB_status_complete, HPE_CB_url,
     HPE_CB_header_field, HPE_CB_header_value, HPE_CB_headers_complete, HPE_CB_body, HPE_CB_message_complete}"

definition error_step :: "step \<Rightarrow> bool" where
  "error_step st \<longleftrightarrow> (\<forall>e. st_control st = Error e \<longrightarrow> syntax_error e)"

lemma error_step_simps [simp]:
  "error_step (leave P a c) \<longleftrightarrow> (\<forall>e. c = Error e \<longrightarrow> syntax_error e)"
  "error_step (marking k st) = error_step st" "error_step (body_step n st) = error_step st"
  "error_step st \<Longrightarrow> error_step (expect strict x ch P st)"
  "error_step st \<Longrightarrow> error_step (assert_chunked P st)"
  by (auto simp: error_step_def leave_def marking_def body_step_def expect_def assert_chunked_def syntax_error_def)

lemma on_byte_error: "error_step (on_byte strict rem P ch)"
proof -
  have url: "error_step (url_next strict P ch)" for P
    by (simp add: url_next_def Let_def syntax_error_def)
  have field: "error_step (on_header_field strict P ch)"
    by (simp add: on_header_field_def Let_def syntax_error_def split: option.split)
  have first: "error_step (header_value_first P ch)" for P
    by (simp add: header_value_first_def Let_def syntax_error_def split: header_states.split)
  have val: "error_step (header_value_char P ch)"
    by (simp add: header_value_char_def Let_def syntax_error_def split: header_states.split option.split)
  show ?thesis
    by (cases "p_state P")
      (simp_all add: on_byte_def url field first val message_done_def syntax_error_def
        on_start_req_or_res_def on_start_req_def on_req_method_def on_spaces_before_url_def on_url_no_space_def
        on_url_def on_req_http_start_def on_req_minor_def on_req_line_almost_done_def response_line_defs
        on_header_field_start_def on_header_value_start_def on_header_value_def on_header_almost_done_def
        on_header_value_lws_def on_headers_almost_done_def on_headers_done_def on_body_identity_def
        on_body_identity_eof_def on_chunk_size_start_def on_chunk_size_def on_chunk_parameters_def
        on_chunk_size_almost_done_def on_chunk_data_def on_chunk_data_almost_done_def on_chunk_data_done_def
        Let_def split: option.split header_states.split)
qed

section \<open>Two runs that are one byte apart\<close>

text \<open>
  \<open>E\<close> is a run on \<open>c # d\<close> past the first byte, \<open>F\<close> a run on \<open>d\<close>.  Either all marks lie in
  \<open>d\<close>, or the data of one kind has begun in \<open>c\<close>: then \<open>E\<close> still has the mark at \<open>c\<close>, while the
  application of \<open>F\<close> has got \<open>c\<close> already.  A run on \<open>d\<close> that begins inside a body starts
  without a mark.
\<close>

definition shifted :: "'u exec \<Rightarrow> 'u exec \<Rightarrow> bool" where
  "shifted E F \<longleftrightarrow> e_parser E = e_parser F \<and> e_pos E = Suc (e_pos F) \<and> e_user E = e_user F
     \<and> e_marks E = map_option Suc \<circ> e_marks F"

definition pending ::
  "(data_kind \<Rightarrow> string \<Rightarrow> 'u \<Rightarrow> 'u) \<Rightarrow> char \<Rightarrow> data_kind \<Rightarrow> 'u exec \<Rightarrow> 'u exec \<Rightarrow> bool" where
  "pending put c k E F \<longleftrightarrow> e_parser E = e_parser F \<and> e_pos E = Suc (e_pos F)
     \<and> e_user F = put k [c] (e_user E) \<and> e_marks E = (\<lambda>_. None)(k := Some 0)
     \<and> e_marks F = (\<lambda>_. None)(k := Some 0)"

definition unmarked :: "(data_kind \<Rightarrow> string \<Rightarrow> 'u \<Rightarrow> 'u) \<Rightarrow> char \<Rightarrow> 'u exec \<Rightarrow> 'u exec \<Rightarrow> bool" where
  "unmarked put c E F \<longleftrightarrow> e_parser E = e_parser F \<and> e_pos E = 1 \<and> e_pos F = 0
     \<and> e_user F = put K_body [c] (e_user E) \<and> e_marks E = (\<lambda>_. None)(K_body := Some 0)
     \<and> e_marks F = (\<lambda>_. None)"

definition sim :: "(data_kind \<Rightarrow> string \<Rightarrow> 'u \<Rightarrow> 'u) \<Rightarrow> char \<Rightarrow> 'u exec \<Rightarrow> 'u exec \<Rightarrow> bool" where
  "sim put c E F \<longleftrightarrow> shifted E F \<or> (\<exists>k. pending put c k E F)"

definition sim_start :: "(data_kind \<Rightarrow> string \<Rightarrow> 'u \<Rightarrow> 'u) \<Rightarrow> char \<Rightarrow> 'u exec \<Rightarrow> 'u exec \<Rightarrow> bool" where
  "sim_start put c E F \<longleftrightarrow> sim put c E F \<or> unmarked put c E F"

definition same_end :: "'u exec \<Rightarrow> 'u exec \<Rightarrow> bool" where
  "same_end E F \<longleftrightarrow> e_parser E = e_parser F
     \<and> (\<not> syntax_error (p_errno (e_parser E)) \<longrightarrow> e_user E = e_user F)"

definition sim_flow :: "(data_kind \<Rightarrow> string \<Rightarrow> 'u \<Rightarrow> 'u) \<Rightarrow> char \<Rightarrow> 'u flow \<Rightarrow> 'u flow \<Rightarrow> bool" where
  "sim_flow put c r q \<longleftrightarrow>
     (case (r, q) of
        (Next E, Next F) \<Rightarrow> sim put c E F \<and> marks_ok (p_state (e_parser E)) (e_marks E)
      | (Stop n E, Stop m F) \<Rightarrow> n = Suc m \<and> same_end E F
      | (Abort, Abort) \<Rightarrow> True
      | _ \<Rightarrow> False)"

lemma sim_flow_simps [simp]:
  "sim_flow put c (Next E) (Next F) \<longleftrightarrow> sim put c E F \<and> marks_ok (p_state (e_parser E)) (e_marks E)"
  "sim_flow put c (Stop n E) (Stop m F) \<longleftrightarrow> n = Suc m \<and> same_end E F"
  "sim_flow put c Abort Abort"
  by (simp_all add: sim_flow_def)

lemma slice_Cons: "slice (Suc m) (Suc n) (c # d) = slice m n d" "slice 0 (Suc n) (c # d) = c # slice 0 n d"
  by (simp_all add: slice_def)

lemma simD:
  "sim put c E F \<Longrightarrow> e_parser E = e_parser F \<and> e_pos E = Suc (e_pos F)"
  "sim_start put c E F \<Longrightarrow> e_parser E = e_parser F \<and> e_pos E = Suc (e_pos F)"
  by (auto simp: sim_start_def sim_def shifted_def pending_def unmarked_def)

lemma shifted_apply: "shifted E F \<Longrightarrow> shifted (apply_step st E) (apply_step st F)"
  by (auto simp: shifted_def apply_step_def set_mark_def Let_def fun_eq_iff split: option.split)

lemma shifted_callback: "shifted E F \<Longrightarrow> shifted (after_callback e r E) (after_callback e r F)"
  by (cases r) (auto simp: shifted_def after_callback_def set_errno_def Let_def)

lemma shifted_data: "shifted E F \<Longrightarrow> shifted (call_data S (c # d) k (Suc hi) E) (call_data S d k hi F)"
proof (cases "e_marks F k")
  case None
  moreover assume "shifted E F"
  ultimately show ?thesis by (simp add: shifted_def call_data_def)
next
  case (Some m)
  assume a: "shifted E F"
  then have m: "e_marks E k = Some (Suc m)" and pu: "e_parser E = e_parser F" "e_user E = e_user F"
    using Some by (simp_all add: shifted_def)
  show ?thesis
  proof (cases "on_data S k")
    case None
    then show ?thesis using a Some m by (auto simp: shifted_def call_data_def fun_eq_iff)
  next
    case (Some f)
    let ?r = "f (e_parser F) (slice m hi d) (e_user F)"
    have "shifted (after_callback (data_errno k) ?r E) (after_callback (data_errno k) ?r F)"
      by (rule shifted_callback [OF a])
    then show ?thesis
      using Some m pu \<open>e_marks F k = Some m\<close> by (auto simp: shifted_def call_data_def slice_Cons fun_eq_iff)
  qed
qed

lemma shifted_headers:
  assumes "shifted E F" shows "shifted (call_headers_complete S E) (call_headers_complete S F)"
proof (cases "on_headers_complete S")
  case (Some f)
  obtain ret pa u where r: "f (e_parser F) (e_user F) = (ret, pa, u)" by (cases "f (e_parser F) (e_user F)")
  have pu: "e_parser E = e_parser F" "e_user E = e_user F" using assms by (simp_all add: shifted_def)
  have "shifted (E\<lparr>e_parser := P\<rparr>) (F\<lparr>e_parser := P\<rparr>)" for P using assms by (simp add: shifted_def)
  then show ?thesis
    using Some r pu assms by (auto simp: call_headers_complete_def Let_def intro: shifted_callback)
qed (use assms in \<open>simp add: call_headers_complete_def\<close>)

lemma shifted_perform:
  assumes "shifted E F"
  shows "shifted (fst (perform S (c # d) a E)) (fst (perform S d a F))
    \<and> snd (perform S (c # d) a E) = Suc (snd (perform S d a F))"
proof -
  have pos: "e_pos E = Suc (e_pos F)" "e_parser E = e_parser F" "e_user E = e_user F"
    using assms by (simp_all add: shifted_def)
  have "shifted (call_notify S k E) (call_notify S k F)" for k
    using assms pos by (auto simp: call_notify_def intro: shifted_callback split: option.split)
  then show ?thesis
    using shifted_data [OF assms, of S c d] shifted_headers [OF assms, of S] assms pos
    by (auto simp: perform_def split: action.split)
qed

lemma run_byte_unfold:
  assumes "st = on_byte strict (length D - e_pos E) (e_parser E) ch"
    and "perform S D (st_action st) (apply_step st E) = (E2, n)"
  shows "run_byte strict S D ch E =
     (if st_action st \<noteq> No_callback \<and> st_action st \<noteq> Headers_complete \<and> p_errno (st_parser st) \<noteq> HPE_OK then Abort
      else if st_action st \<noteq> No_callback \<and> p_errno (e_parser E2) \<noteq> HPE_OK then Stop n E2
      else case st_control st of
             Break \<Rightarrow> Next E2 | Reexecute \<Rightarrow> run_byte strict S D ch E2
           | Return_next \<Rightarrow> Stop (Suc (e_pos E2)) E2 | Error e \<Rightarrow> Stop (e_pos E2) (set_errno e E2)
           | Assert_fails \<Rightarrow> Abort)"
  by (subst run_byte.simps) (simp add: assms(1) [symmetric] assms(2) Let_def)

section \<open>The first byte\<close>

text \<open>Only a body is read many bytes at a time: such a read of the larger buffer goes past the first byte.\<close>

definition crossing :: "http_parser \<Rightarrow> bool" where
  "crossing P \<longleftrightarrow>
     p_state P = s_body_identity_eof \<or> p_state P \<in> {s_body_identity, s_chunk_data} \<and> 1 < unat (p_content_length P)"

lemma on_byte_one: "\<not> crossing P \<Longrightarrow> 0 < rem \<Longrightarrow> on_byte strict rem P ch = on_byte strict 1 P ch"
proof -
  assume a: "\<not> crossing P" "0 < rem"
  then have "p_state P \<in> {s_body_identity, s_chunk_data} \<Longrightarrow> to_read rem P = to_read 1 P"
    by (auto simp: crossing_def to_read_def)
  then show ?thesis
    using a(1) by (cases "p_state P") (simp_all add: on_byte_def on_body_identity_def on_chunk_data_def take_body_def crossing_def)
qed

lemma on_byte_reexec_state:
  "st_control (on_byte strict rem P ch) = Reexecute \<Longrightarrow> \<not> crossing (st_parser (on_byte strict rem P ch))"
  by (cases "p_state P")
    (auto simp: on_byte_def request_line_defs response_line_defs body_defs step_defs
      on_header_field_start_def on_header_field_def on_header_value_start_def on_header_value_def
      on_header_almost_done_def on_header_value_lws_def header_value_char_breaks header_value_first_breaks
      crossing_def start_state_def new_message_def split: if_splits option.splits header_states.splits)

lemma perform_crossing: "crossing (e_parser (fst (perform S D a E))) = crossing (e_parser E)"
proof -
  have "p_content_length (e_parser (fst (perform S D a E))) = p_content_length (e_parser E)"
    by (auto simp: perform_def call_notify_def call_data_def call_headers_complete_def after_callback_def
      set_errno_def Let_def split: action.split option.split prod.split)
  then show ?thesis by (simp add: crossing_def)
qed

lemma perform_first:
  assumes "e_pos E = 0" shows "perform S (c # d) a E = perform S [c] a E"
proof -
  have "slice m (Suc 0) (c # d) = slice m (Suc 0) [c]" for m using slice_0_append [of 1 "[c]" m d] by simp
  then have "call_data S (c # d) k 0 E = call_data S [c] k 0 E"
    "call_data S (c # d) k (Suc 0) E = call_data S [c] k (Suc 0) E" for k
    by (simp_all add: call_data_def split: option.split)
  then show ?thesis using assms by (simp add: perform_def split: action.split)
qed

lemma run_byte_first:
  assumes "\<not> crossing (e_parser E)" and "e_pos E = 0"
  shows "run_byte strict S (c # d) ch E = run_byte strict S [c] ch E"
  using assms
proof (induction "reexec_rank (p_state (e_parser E))" arbitrary: E rule: less_induct)
  case less
  define st where "st = on_byte strict 1 (e_parser E) ch"
  have stD: "st = on_byte strict (length (c # d) - e_pos E) (e_parser E) ch"
    using on_byte_one [OF less.prems(1), of "Suc (length d)"] less.prems(2) by (simp add: st_def)
  have st1: "st = on_byte strict (length [c] - e_pos E) (e_parser E) ch" using less.prems(2) by (simp add: st_def)
  have adv: "st_advance st = 0" using on_byte_fits [of 1 "e_parser E" strict ch] by (simp add: st_def step_fits_def)
  obtain E2 n where p: "perform S [c] (st_action st) (apply_step st E) = (E2, n)" by fastforce
  then have pD: "perform S (c # d) (st_action st) (apply_step st E) = (E2, n)"
    using perform_first [of "apply_step st E" S c d "st_action st"] less.prems(2) adv by simp
  have E2: "E2 = fst (perform S [c] (st_action st) (apply_step st E))" using p by simp
  have "run_byte strict S (c # d) ch E2 = run_byte strict S [c] ch E2" if "st_control st = Reexecute"
  proof (rule less.hyps)
    show "reexec_rank (p_state (e_parser E2)) < reexec_rank (p_state (e_parser E))"
      using on_byte_reexec [of strict 1 "e_parser E" ch] that unfolding E2 by (simp add: st_def)
    show "\<not> crossing (e_parser E2)"
      using on_byte_reexec_state [of strict 1 "e_parser E" ch] that unfolding E2 perform_crossing by (simp add: st_def)
    show "e_pos E2 = 0" unfolding E2 using less.prems(2) adv by simp
  qed
  then show ?case unfolding run_byte_unfold [OF stD pD] run_byte_unfold [OF st1 p] by (cases "st_control st") simp_all
qed

definition read_one :: "http_parser \<Rightarrow> http_parser" where
  "read_one P = (if p_state P = s_body_identity_eof then P else take_body 1 P)"

lemma read_one_simps [simp]: "p_state (read_one P) = p_state P" "p_flags (read_one P) = p_flags P"
  "p_errno (read_one P) = p_errno P"
  by (simp_all add: read_one_def take_body_def)

lemma body_word:
  fixes c :: "u64"
  assumes "1 < unat c" and "0 < n"
  shows "c \<noteq> 0" "c - 1 \<noteq> 0" "c - 1 \<noteq> ULLONG_MAX" "min (unat c) (Suc n) = Suc (min (unat (c - 1)) n)"
    "0 < min (unat (c - 1)) n" "c - of_nat (min (unat c) (Suc n)) = c - 1 - of_nat (min (unat (c - 1)) n)"
proof -
  have "1 \<le> c" using assms(1) by (simp add: word_le_nat_alt)
  then have u: "unat (c - 1) = unat c - 1" by (simp add: unat_sub)
  show "c \<noteq> 0" using assms(1) by auto
  show "c - 1 \<noteq> 0" using u assms(1) by auto
  show "c - 1 \<noteq> ULLONG_MAX"
  proof
    assume "c - 1 = ULLONG_MAX"
    then have "c = 0" by (simp add: ULLONG_MAX_def algebra_simps)
    then show False using assms(1) by simp
  qed
  show m: "min (unat c) (Suc n) = Suc (min (unat (c - 1)) n)" using u assms(1) by auto
  show "0 < min (unat (c - 1)) n" using u assms by auto
  show "c - of_nat (min (unat c) (Suc n)) = c - 1 - of_nat (min (unat (c - 1)) n)" unfolding m by simp
qed

lemma on_byte_crossing:
  assumes "crossing P" and "state_ok n P" and "0 < rem"
  shows "on_byte strict (Suc rem) P ch =
      (on_byte strict rem (read_one P) ch')\<lparr>st_advance := Suc (st_advance (on_byte strict rem (read_one P) ch'))\<rparr>"
    and "on_byte strict 1 P ch = body_step 1 (brk (read_one P))"
proof -
  let ?c = "p_content_length P"
  consider "p_state P = s_body_identity_eof" | "p_state P = s_body_identity" "1 < unat ?c" "?c \<noteq> ULLONG_MAX"
    | "p_state P = s_chunk_data" "1 < unat ?c" "?c \<noteq> ULLONG_MAX" "F_CHUNKED \<in> p_flags P"
    using assms(1,2) by (auto simp: crossing_def state_ok_def)
  then have "on_byte strict (Suc rem) P ch =
      (on_byte strict rem (read_one P) ch')\<lparr>st_advance := Suc (st_advance (on_byte strict rem (read_one P) ch'))\<rparr>
    \<and> on_byte strict 1 P ch = body_step 1 (brk (read_one P))"
  proof cases
    case 1
    then show ?thesis using assms(3) by (simp add: on_byte_def on_body_identity_eof_def read_one_def body_step_def leave_def)
  next
    case 2
    note w = body_word [OF 2(2) assms(3)]
    have one: "min (unat ?c) 1 = 1" using 2(2) by simp
    show ?thesis
      using 2 w by (simp add: on_byte_def on_body_identity_def read_one_def take_body_def to_read_def one
          body_step_def leave_def Let_def) (metis add_diff_cancel_left')
  next
    case 3
    note w = body_word [OF 3(2) assms(3)]
    have one: "min (unat ?c) 1 = 1" using 3(2) by simp
    show ?thesis
      using 3 w by (simp add: on_byte_def on_chunk_data_def assert_chunked_def read_one_def take_body_def to_read_def one
          body_step_def leave_def Let_def) (metis add_diff_cancel_left')
  qed
  then show "on_byte strict (Suc rem) P ch =
      (on_byte strict rem (read_one P) ch')\<lparr>st_advance := Suc (st_advance (on_byte strict rem (read_one P) ch'))\<rparr>"
    "on_byte strict 1 P ch = body_step 1 (brk (read_one P))" by simp_all
qed

lemma crossing_reexec:
  "crossing P \<Longrightarrow> st_control (on_byte strict rem P ch) = Reexecute \<Longrightarrow>
     p_state (st_parser (on_byte strict rem P ch)) = s_message_done"
  by (auto simp: crossing_def on_byte_def on_body_identity_eof_def on_body_identity_def on_chunk_data_def
      assert_chunked_def body_step_def leave_def Let_def split: if_splits)

lemma run_byte_message_done:
  "p_state (e_parser E) = s_message_done \<Longrightarrow> run_byte strict S D ch E = run_byte strict S D ch' E"
  by (subst (1 2) run_byte.simps) (simp add: on_byte_def message_done_def leave_def Let_def split: prod.split)

lemma iterate_crossing:
  assumes "crossing (e_parser E)" and "exec_ok 0 E" and "e_pos E = 0" and "d \<noteq> []"
  defines "E' \<equiv> apply_step (body_step 1 (brk (read_one (e_parser E)))) E"
  shows "iterate strict S [c] E = Next E'" "iterate strict S (c # d) E = iterate strict S (c # d) (E'\<lparr>e_pos := 1\<rparr>)"
proof -
  let ?P = "e_parser E" and ?E1 = "E'\<lparr>e_pos := 1\<rparr>" and ?ch = "(c # d) ! 1"
  have ok: "state_ok 0 ?P" "p_errno ?P = HPE_OK" using assms(2) by (simp_all add: exec_ok_def parser_ok_def)
  have no: "\<not> parsing_header (p_state ?P)" using assms(1) by (auto simp: crossing_def parsing_header_def)
  have st1: "body_step 1 (brk (read_one ?P)) = on_byte strict (length [c] - e_pos E) ?P c"
    using on_byte_crossing(2) [OF assms(1) ok(1), of 1] assms(3) by simp
  have "perform S [c] (st_action (body_step 1 (brk (read_one ?P)))) E' = (E', e_pos E')"
    by (simp add: perform_def body_step_def leave_def)
  note run1 = run_byte_unfold [OF st1 this [unfolded E'_def]]
  show "iterate strict S [c] E = Next E'"
    using no assms(3) run1 by (simp add: iterate_def Let_def body_step_def leave_def E'_def)
  define st where "st = on_byte strict (Suc (length d)) ?P c"
  define st2 where "st2 = on_byte strict (length (c # d) - e_pos ?E1) (e_parser ?E1) ?ch"
  have P1: "e_parser ?E1 = read_one ?P" by (simp add: E'_def body_step_def leave_def)
  have st: "st = on_byte strict (length (c # d) - e_pos E) ?P c" using assms(3) by (simp add: st_def)
  have step: "st = st2\<lparr>st_advance := Suc (st_advance st2)\<rparr>"
    using on_byte_crossing(1) [OF assms(1) ok(1), of "length d" strict c ?ch] assms(4) P1 by (simp add: st_def st2_def)
  have "st_mark st = Some K_body"
    using assms(1) ok(1) unfolding st_def
    by (auto simp: crossing_def on_byte_def on_body_identity_eof_def on_body_identity_def on_chunk_data_def
        assert_chunked_def body_step_def state_ok_def Let_def)
  then have same: "apply_step st E = apply_step st2 ?E1"
    using step assms(3) by (cases E) (auto simp: apply_step_def set_mark_def E'_def body_step_def leave_def Let_def fun_eq_iff)
  obtain E2 n where p: "perform S (c # d) (st_action st) (apply_step st E) = (E2, n)" by fastforce
  then have p2: "perform S (c # d) (st_action st2) (apply_step st2 ?E1) = (E2, n)" using same step by simp
  have "run_byte strict S (c # d) c E2 = run_byte strict S (c # d) ?ch E2" if "st_control st = Reexecute"
  proof (rule run_byte_message_done)
    have "p_state (e_parser E2) = p_state (st_parser st)"
      using perform_state [of S "c # d" "st_action st" "apply_step st E"] p by simp
    then show "p_state (e_parser E2) = s_message_done" using crossing_reexec [OF assms(1)] that by (simp add: st_def)
  qed
  then have "run_byte strict S (c # d) c E = run_byte strict S (c # d) ?ch ?E1"
    unfolding run_byte_unfold [OF st p] run_byte_unfold [OF st2_def p2] using step by (cases "st_control st") auto
  then show "iterate strict S (c # d) E = iterate strict S (c # d) ?E1"
    using no P1 assms(3) by (simp add: iterate_def Let_def)
qed

lemma first_byte:
  assumes "exec_ok 0 E" and "e_pos E = 0" and "d \<noteq> []"
  shows "iterate strict S [c] E = Stop n E' \<Longrightarrow> exec_loop strict S (c # d) E = Some (n, E')"
    and "iterate strict S [c] E = Next E' \<Longrightarrow> exec_loop strict S (c # d) E = exec_loop strict S (c # d) (E'\<lparr>e_pos := 1\<rparr>)"
proof -
  have loop: "exec_loop strict S (c # d) E = (case iterate strict S (c # d) E of
      Next E' \<Rightarrow> exec_loop strict S (c # d) (E'\<lparr>e_pos := Suc (e_pos E')\<rparr>) | Stop n E' \<Rightarrow> Some (n, E') | Abort \<Rightarrow> None)"
    if "e_pos E < length (c # d)" for E :: "'a exec"
    using that by (subst exec_loop.simps) simp
  have "(iterate strict S [c] E = Stop n E' \<longrightarrow> exec_loop strict S (c # d) E = Some (n, E')) \<and>
    (iterate strict S [c] E = Next E' \<longrightarrow> exec_loop strict S (c # d) E = exec_loop strict S (c # d) (E'\<lparr>e_pos := 1\<rparr>))"
  proof (cases "crossing (e_parser E)")
    case True
    then show ?thesis
      using iterate_crossing [OF True assms, where S = S and c = c and strict = strict] assms(2,3)
        loop [of E] loop [of "E'\<lparr>e_pos := 1\<rparr>"] by auto
  next
    case False
    have "\<not> crossing ((e_parser E)\<lparr>p_nread := i\<rparr>)" for i using False by (simp add: crossing_def)
    then have "iterate strict S (c # d) E = iterate strict S [c] E"
      using run_byte_first [OF False assms(2)] run_byte_first [of "E\<lparr>e_parser := (e_parser E)\<lparr>p_nread := _\<rparr>\<rparr>"] assms(2)
      by (simp add: iterate_def Let_def)
    moreover have "iterate strict S [c] E = Next E' \<Longrightarrow> e_pos E' = 0"
      using iterate_ok [OF assms(1), of "[c]" strict S] assms(2) by (simp add: flow_ok_def)
    ultimately show ?thesis using loop [of E] assms(2) by auto
  qed
  then show "iterate strict S [c] E = Stop n E' \<Longrightarrow> exec_loop strict S (c # d) E = Some (n, E')"
    "iterate strict S [c] E = Next E' \<Longrightarrow> exec_loop strict S (c # d) E = exec_loop strict S (c # d) (E'\<lparr>e_pos := 1\<rparr>)"
    by blast+
qed

lemma run_byte_marks:
  "run_byte strict S D ch E = Next E' \<Longrightarrow> (\<And>k m. e_marks E k = Some m \<Longrightarrow> m \<le> e_pos E) \<Longrightarrow>
     e_marks E' k = Some m \<Longrightarrow> m \<le> e_pos E'"
proof (induction strict S D ch E arbitrary: k m rule: run_byte.induct)
  case (1 strict S D ch E)
  define st where "st = on_byte strict (length D - e_pos E) (e_parser E) ch"
  obtain E2 n where p: "perform S D (st_action st) (apply_step st E) = (E2, n)" by fastforce
  have "e_marks E2 = step_marks st (e_pos E) (e_marks E)" "e_pos E2 = e_pos E + st_advance st"
    using p perform_marks [of S D st E] perform_pos [of S D "st_action st" "apply_step st E"] by simp_all
  then have m2: "e_marks E2 k = Some m \<Longrightarrow> m \<le> e_pos E2" for k m
    using "1.prems"(2) [of k] by (auto simp: step_marks_def trans_le_add1 split: if_splits)
  show ?case
    using "1.prems"(1,3) "1.IH" [OF st_def refl p [symmetric] refl] m2
    unfolding run_byte_unfold [OF st_def p] by (auto split: if_splits control.splits)
qed

lemma iterate_marks:
  assumes "iterate strict S [c] E = Next E'" and "exec_ok 0 E" and "e_pos E = 0"
    and "\<And>k m. e_marks E k = Some m \<Longrightarrow> m = 0" and "e_marks E' k = Some m"
  shows "m = 0"
proof -
  have "e_pos E' = 0" using iterate_ok [OF assms(2), of "[c]" strict S] assms(1,3) by (simp add: flow_ok_def)
  moreover have "m \<le> e_pos E'"
    using assms(1,4,5) run_byte_marks [of strict S "[c]" c E E' k m]
      run_byte_marks [of strict S "[c]" c "E\<lparr>e_parser := (e_parser E)\<lparr>p_nread := Suc (p_nread (e_parser E))\<rparr>\<rparr>" E' k m]
    by (auto simp: iterate_def Let_def assms(3) split: if_splits)
  ultimately show ?thesis by simp
qed

text \<open>Results that agree up to application data held back by an error in the bytes, and a count moved on.\<close>

definition same_result :: "nat \<Rightarrow> (nat \<times> http_parser \<times> 'u) option \<Rightarrow> (nat \<times> http_parser \<times> 'u) option \<Rightarrow> bool" where
  "same_result a r q \<longleftrightarrow>
     (\<exists>n P u v. r = Some (n, P, u) \<and> q = Some (a + n, P, v) \<and> (\<not> syntax_error (p_errno P) \<longrightarrow> u = v))"

lemma same_result_trans: "same_result a r q \<Longrightarrow> same_result b q z \<Longrightarrow> same_result (a + b) r z"
  by (auto simp: same_result_def)

locale stream_callbacks =
  fixes S :: "'u settings" and put :: "data_kind \<Rightarrow> string \<Rightarrow> 'u \<Rightarrow> 'u"
  assumes data_some: "on_data S k = Some f \<Longrightarrow> f P d u = (0, False, put k d u)"
    and data_none: "on_data S k = None \<Longrightarrow> put k d u = u"
    and put_append: "put k (a @ b) u = put k b (put k a u)"
begin

lemma call_data_put:
  "call_data S D k hi E =
     (case e_marks E k of
        None \<Rightarrow> E
      | Some m \<Rightarrow> E\<lparr>e_user := put k (slice m hi D) (e_user E), e_marks := (e_marks E)(k := None)\<rparr>)"
proof (cases "on_data S k")
  case None
  then show ?thesis by (cases E) (auto simp: call_data_def data_none split: option.split)
next
  case (Some f)
  then show ?thesis
    by (cases E) (auto simp: call_data_def data_some [OF Some] after_callback_def split: option.split)
qed

lemma pending_step:
  assumes "pending put c k E F \<or> k = K_body \<and> unmarked put c E F" and "kind_step k st" and "goes_on (st_control st)"
  shows "sim put c (fst (perform S (c # d) (st_action st) (apply_step st E)))
      (fst (perform S d (st_action st) (apply_step st F)))
    \<and> p_errno (e_parser (fst (perform S (c # d) (st_action st) (apply_step st E)))) = p_errno (st_parser st)"
proof -
  have marks: "e_marks E = (\<lambda>_. None)(k := Some 0)" and pos: "e_pos E = Suc (e_pos F)"
    and user: "e_user F = put k [c] (e_user E)"
    and mF: "e_marks F = (\<lambda>_. None)(k := Some 0) \<or> k = K_body \<and> e_pos F = 0 \<and> e_marks F = (\<lambda>_. None)"
    using assms(1) by (auto simp: pending_def unmarked_def)
  have E1: "apply_step st E = E\<lparr>e_parser := st_parser st, e_pos := Suc (e_pos F + st_advance st)\<rparr>"
    using marks pos assms(2) by (cases E) (auto simp: apply_step_def set_mark_def kind_step_def Let_def)
  have kinds: "st_mark st \<in> {None, Some k}" "st_action st \<in> {No_callback, Data k, Data_noadvance k, Data_through k}"
    "k = K_body \<Longrightarrow> st_mark st = None \<Longrightarrow> st_action st = Data K_body \<and> st_advance st = 0"
    using assms(2,3) unfolding kind_step_def by blast+
  have flush: "put k (slice 0 (Suc n) (c # d)) u = put k (slice 0 n d) (put k [c] u)" for n u
    using put_append [of k "[c]" "slice 0 n d" u] by (simp add: slice_Cons)
  consider (set) "apply_step st F = F\<lparr>e_parser := st_parser st, e_pos := e_pos F + st_advance st,
        e_marks := (\<lambda>_. None)(k := Some 0)\<rparr>"
    | (none) "apply_step st F = F\<lparr>e_parser := st_parser st\<rparr>" "e_marks F = (\<lambda>_. None)" "e_pos F = 0"
        "k = K_body" "st_action st = Data K_body" "st_advance st = 0"
    using mF kinds by (cases F) (auto simp: apply_step_def set_mark_def Let_def fun_eq_iff)
  then show ?thesis
  proof cases
    case set
    show ?thesis
    proof (cases "st_action st = No_callback")
      case True
      then have "pending put c k (apply_step st E) (apply_step st F)"
        using set E1 marks user by (simp add: pending_def)
      then show ?thesis using True by (auto simp: sim_def perform_def)
    next
      case False
      then show ?thesis
        using kinds(2) set E1 marks user
        by (auto simp: sim_def shifted_def perform_def call_data_put flush fun_eq_iff)
    qed
  next
    case none
    have one: "slice 0 (Suc 0) (c # d) = [c]" by (simp add: slice_def)
    show ?thesis
      using none E1 marks user
      by (auto simp: sim_def shifted_def perform_def call_data_put one fun_eq_iff)
  qed
qed

lemma step_sim:
  assumes "sim_start put c E F" and "marks_ok (p_state (e_parser E)) (e_marks E)" and "e_pos F < length d"
    and "st = on_byte strict (length d - e_pos F) (e_parser F) ch" and "goes_on (st_control st)"
    and "E2 = fst (perform S (c # d) (st_action st) (apply_step st E))"
    and "F2 = fst (perform S d (st_action st) (apply_step st F))"
  shows "sim put c E2 F2" "marks_ok (p_state (e_parser E2)) (e_marks E2)"
    "p_errno (e_parser E2) = p_errno (st_parser st) \<and> st_control st \<noteq> Return_next \<or> e_user E2 = e_user F2"
proof -
  have P: "e_parser E = e_parser F" using simD(2) [OF assms(1)] by simp
  have arm: "arm_ok (p_state (e_parser E)) st" unfolding assms(4) P by (rule on_byte_arm)
  show "marks_ok (p_state (e_parser E2)) (e_marks E2)"
    using arm assms(2,5) unfolding assms(6) perform_marks arm_ok_def by simp
  show "sim put c E2 F2"
    "p_errno (e_parser E2) = p_errno (st_parser st) \<and> st_control st \<noteq> Return_next \<or> e_user E2 = e_user F2"
  proof -
    consider "shifted E F" | k where "pending put c k E F \<or> k = K_body \<and> unmarked put c E F"
      using assms(1) by (auto simp: sim_start_def sim_def)
    then have "sim put c E2 F2 \<and>
      (p_errno (e_parser E2) = p_errno (st_parser st) \<and> st_control st \<noteq> Return_next \<or> e_user E2 = e_user F2)"
    proof cases
      case 1
      have "shifted E2 F2" unfolding assms(6,7) using shifted_perform [OF shifted_apply [OF 1]] by blast
      then show ?thesis by (auto simp: sim_def shifted_def)
    next
      case (2 k)
      have "e_marks E k \<noteq> None" using 2 by (auto simp: pending_def unmarked_def)
      then have "kind_step k st" unfolding assms(4) using marks_kind [OF assms(2)] P by (intro on_byte_kind) simp
      then show ?thesis
        using pending_step [OF 2 _ assms(5), of d] unfolding assms(6,7) by (auto simp: kind_step_def)
    qed
    then show "sim put c E2 F2"
      "p_errno (e_parser E2) = p_errno (st_parser st) \<and> st_control st \<noteq> Return_next \<or> e_user E2 = e_user F2"
      by blast+
  qed
qed

lemma sim_user: "sim put c E F \<Longrightarrow> e_user E = e_user F \<Longrightarrow> same_end E F"
  using simD(1) by (auto simp: same_end_def)

lemma perform_count_sim:
  "e_pos E = Suc (e_pos F) \<Longrightarrow> snd (perform S (c # d) a E) = Suc (snd (perform S d a F))"
  by (simp add: perform_def split: action.split)

lemma run_byte_sim:
  assumes "sim_start put c E F" and "marks_ok (p_state (e_parser E)) (e_marks E)" and "e_pos F < length d"
    and "p_errno (e_parser E) = HPE_OK"
  shows "sim_flow put c (run_byte strict S (c # d) ch E) (run_byte strict S d ch F)"
  using assms
proof (induction "reexec_rank (p_state (e_parser E))" arbitrary: E F rule: less_induct)
  case less
  have P: "e_parser E = e_parser F" "e_pos E = Suc (e_pos F)" using simD(2) [OF less.prems(1)] by simp_all
  define st where "st = on_byte strict (length d - e_pos F) (e_parser F) ch"
  obtain F2 n where F2: "perform S d (st_action st) (apply_step st F) = (F2, n)" by fastforce
  obtain E2 where E2: "perform S (c # d) (st_action st) (apply_step st E) = (E2, Suc n)"
    using perform_count_sim [of "apply_step st E" "apply_step st F" c d "st_action st"] F2 P by (metis apply_step_pos add_Suc prod.collapse snd_conv)
  have fits: "step_fits (length d - e_pos F) (e_parser F) st"
    unfolding st_def using less.prems(3) by (intro on_byte_fits) simp
  have err: "error_step st" unfolding st_def by (rule on_byte_error)
  have eq: "e_pos E2 = e_pos E + st_advance st" "e_pos F2 = e_pos F + st_advance st"
    "p_state (e_parser E2) = p_state (st_parser st)"
    using perform_pos [of S "c # d" "st_action st" "apply_step st E"] perform_pos [of S d "st_action st" "apply_step st F"]
      perform_state [of S "c # d" "st_action st" "apply_step st E"] E2 F2 by simp_all
  have pos: "e_pos F2 < length d" using fits less.prems(3) unfolding eq step_fits_def by linarith
  have ok: "p_errno (st_parser st) = HPE_OK" using fits less.prems(4) P by (simp add: step_fits_def)
  have runE: "run_byte strict S (c # d) ch E =
     (if st_action st \<noteq> No_callback \<and> p_errno (e_parser E2) \<noteq> HPE_OK then Stop (Suc n) E2
      else case st_control st of
             Break \<Rightarrow> Next E2 | Reexecute \<Rightarrow> run_byte strict S (c # d) ch E2
           | Return_next \<Rightarrow> Stop (Suc (e_pos E2)) E2 | Error e \<Rightarrow> Stop (e_pos E2) (set_errno e E2)
           | Assert_fails \<Rightarrow> Abort)"
    using E2 run_byte_unfold [of st strict "c # d" E ch S E2 "Suc n"] ok by (simp add: st_def P)
  note runF = run_byte_unfold [OF st_def F2, simplified ok]
  show ?case
  proof (cases "goes_on (st_control st)")
    case False
    then have "st_action st = No_callback" using fits by (auto simp: step_fits_def)
    then have "e_parser E2 = e_parser F2" using E2 F2 by (auto simp: perform_def)
    then show ?thesis
      using False \<open>st_action st = No_callback\<close> err eq P unfolding runE runF
      by (cases "st_control st") (auto simp: same_end_def set_errno_def error_step_def)
  next
    case True
    note s = step_sim [OF less.prems(1-3) st_def True, of E2 F2, unfolded E2 F2, simplified]
    have par: "e_parser E2 = e_parser F2" "e_pos E2 = Suc (e_pos F2)" using simD(1) [OF s(1)] by simp_all
    have again: "sim_flow put c (run_byte strict S (c # d) ch E2) (run_byte strict S d ch F2)"
      if "st_control st = Reexecute" "p_errno (e_parser E2) = HPE_OK"
      using on_byte_reexec [of strict "length d - e_pos F" "e_parser F" ch] that s(1,2) pos P eq(3)
      by (intro less.hyps) (simp_all add: st_def sim_start_def)
    have stop: "same_end E2 F2" if "p_errno (e_parser E2) \<noteq> HPE_OK \<or> st_control st = Return_next"
      using sim_user [OF s(1)] s(3) that ok by auto
    have noerr: "p_errno (e_parser E2) = HPE_OK" if "st_action st = No_callback" using that E2 ok by (auto simp: perform_def)
    show ?thesis
    proof (cases "p_errno (e_parser E2) = HPE_OK")
      case False
      then show ?thesis using noerr par stop unfolding runE runF by auto
    next
      case True
      then show ?thesis
        using \<open>goes_on (st_control st)\<close> s(1,2) par again stop unfolding runE runF by (cases "st_control st") auto
    qed
  qed
qed

lemma iterate_sim:
  assumes "sim_start put c E F" and "exec_ok 0 E" and "e_pos F < length d"
  shows "sim_flow put c (iterate strict S (c # d) E) (iterate strict S d F)"
proof -
  have P: "e_parser E = e_parser F" "e_pos E = Suc (e_pos F)" using simD(2) [OF assms(1)] by simp_all
  have ok: "marks_ok (p_state (e_parser E)) (e_marks E)" "p_errno (e_parser E) = HPE_OK"
    using assms(2) by (simp_all add: exec_ok_def)
  let ?Q = "(e_parser F)\<lparr>p_nread := Suc (p_nread (e_parser F))\<rparr>"
  have "sim_start put c (E\<lparr>e_parser := ?Q\<rparr>) (F\<lparr>e_parser := ?Q\<rparr>)"
    using assms(1) by (auto simp: sim_start_def sim_def shifted_def pending_def unmarked_def)
  then have "sim_flow put c (run_byte strict S (c # d) ch (E\<lparr>e_parser := ?Q\<rparr>)) (run_byte strict S d ch (F\<lparr>e_parser := ?Q\<rparr>))"
    for ch using ok P assms(3) by (intro run_byte_sim) simp_all
  moreover have "sim_flow put c (run_byte strict S (c # d) ch E) (run_byte strict S d ch F)" for ch
    using assms ok by (intro run_byte_sim)
  ultimately show ?thesis
    using P by (auto simp: iterate_def Let_def same_end_def set_errno_def syntax_error_def)
qed

lemma call_marks_none: "e_marks E = (\<lambda>_. None) \<Longrightarrow> call_marks S D ks E = E"
  by (induction ks) (auto simp: call_data_put Let_def)

lemma call_marks_one:
  assumes "e_marks E = (\<lambda>_. None)(k := Some m)" and "k \<in> set ks" and "p_errno (e_parser E) = HPE_OK"
  shows "call_marks S D ks E = E\<lparr>e_user := put k (slice m (e_pos E) D) (e_user E), e_marks := \<lambda>_. None\<rparr>"
  using assms
proof (induction ks)
  case (Cons j ks)
  show ?case
  proof (cases "j = k")
    case True
    let ?E = "E\<lparr>e_user := put k (slice m (e_pos E) D) (e_user E), e_marks := \<lambda>_. None\<rparr>"
    have "(e_marks E)(k := None) = (\<lambda>_. None)" "e_marks E k = Some m" using Cons.prems(1) by (simp_all add: fun_eq_iff)
    then have "call_data S D j (e_pos E) E = ?E" using True by (simp add: call_data_put)
    then show ?thesis using call_marks_none [of ?E D ks] Cons.prems(3) by (simp add: Let_def)
  next
    case False
    then have "call_data S D j (e_pos E) E = E" using Cons.prems(1) by (simp add: call_data_put)
    then show ?thesis using Cons False by (simp add: Let_def)
  qed
qed simp

lemma finish_sim:
  assumes "sim put c E F" and "exec_ok 0 E" and "e_pos F = length d"
  shows "\<exists>E' F'. finish S (c # d) E = Some (Suc (length d), E') \<and> finish S d F = Some (length d, F') \<and> same_end E' F'"
proof -
  let ?ks = "[K_header_field, K_header_value, K_url, K_body]"
  have all: "k \<in> set ?ks" for k by (cases k) simp_all
  have P: "e_parser E = e_parser F" "e_pos E = Suc (e_pos F)" using simD(1) [OF assms(1)] by simp_all
  have ok: "marks_ok (p_state (e_parser E)) (e_marks E)" "p_errno (e_parser E) = HPE_OK"
    using assms(2) by (simp_all add: exec_ok_def)
  have "e_marks E k \<noteq> None \<longleftrightarrow> e_marks F k \<noteq> None" for k
    using assms(1) by (auto simp: sim_def shifted_def pending_def)
  then have fin: "finish S (c # d) E = Some (Suc (length d), call_marks S (c # d) ?ks E)"
    "finish S d F = Some (length d, call_marks S d ?ks F)"
    using marks_ok_one [OF ok(1)] P assms(3) ok(2) by (simp_all add: finish_def Let_def)
  consider "shifted E F" "e_marks E = (\<lambda>_. None)" | k m where "shifted E F" "e_marks E = (\<lambda>_. None)(k := Some m)"
    | k where "pending put c k E F"
    using assms(1) marks_ok_cases [OF ok(1)] by (auto simp: sim_def)
  then have "same_end (call_marks S (c # d) ?ks E) (call_marks S d ?ks F)"
  proof cases
    case 1
    then have "e_marks F = (\<lambda>_. None)" by (auto simp: shifted_def fun_eq_iff)
    then show ?thesis
      using 1 call_marks_none [of E "c # d" ?ks] call_marks_none [of F d ?ks] unfolding same_end_def shifted_def by metis
  next
    case (2 k m)
    have eq: "map_option Suc (e_marks F j) = e_marks E j" for j using 2(1) by (simp add: shifted_def)
    obtain i where "e_marks F k = Some i" "m = Suc i" using eq [of k] 2(2) by auto
    moreover have "j \<noteq> k \<Longrightarrow> e_marks F j = None" for j using eq [of j] 2(2) by simp
    ultimately have i: "m = Suc i" "e_marks F = (\<lambda>_. None)(k := Some i)" by (auto simp: fun_eq_iff)
    then show ?thesis
      using 2 ok(2) P call_marks_one [OF 2(2) all, of "c # d"] call_marks_one [OF i(2) all, of d]
      by (simp add: same_end_def shifted_def slice_Cons)
  next
    case (3 k)
    then have m: "e_marks E = (\<lambda>_. None)(k := Some 0)" "e_marks F = (\<lambda>_. None)(k := Some 0)" by (simp_all add: pending_def)
    show ?thesis
      using 3 ok(2) P call_marks_one [OF m(1) all, of "c # d"] call_marks_one [OF m(2) all, of d]
        put_append [of k "[c]" "slice 0 (e_pos F) d"]
      by (simp add: same_end_def pending_def slice_Cons)
  qed
  then show ?thesis using fin by blast
qed

lemma exec_loop_sim:
  assumes "sim_start put c E F" and "exec_ok 0 E" and "e_pos F \<le> length d" and "sim put c E F \<or> d \<noteq> []"
  shows "\<exists>n E' F'. exec_loop strict S (c # d) E = Some (Suc n, E') \<and> exec_loop strict S d F = Some (n, F') \<and> same_end E' F'"
  using assms
proof (induction "length d - e_pos F" arbitrary: E F rule: less_induct)
  case less
  have P: "e_parser E = e_parser F" "e_pos E = Suc (e_pos F)" using simD(2) [OF less.prems(1)] by simp_all
  show ?case
  proof (cases "e_pos F < length d")
    case False
    then have pos: "e_pos F = length d" using less.prems(3) by simp
    then have "sim put c E F" using less.prems(1,4) by (auto simp: sim_start_def unmarked_def)
    then show ?thesis
      using finish_sim [OF _ less.prems(2) pos, of c] pos P
      by (subst (1 2) exec_loop.simps) auto
  next
    case True
    note flow = iterate_sim [OF less.prems(1,2) True, of strict]
    have okE: "flow_ok (c # d) (iterate strict S (c # d) E)"
      using less.prems(2) True P by (intro iterate_ok) simp_all
    show ?thesis
    proof (cases "iterate strict S (c # d) E")
      case (Next E')
      then obtain F' where F': "iterate strict S d F = Next F'" "sim put c E' F'"
        using flow by (cases "iterate strict S d F") (auto simp: sim_flow_def)
      let ?E = "E'\<lparr>e_pos := Suc (e_pos E')\<rparr>" and ?F = "F'\<lparr>e_pos := Suc (e_pos F')\<rparr>"
      have s: "sim put c ?E ?F" using F'(2) by (auto simp: sim_def shifted_def pending_def)
      have "exec_ok 0 ?E" "e_pos E' < length (c # d)" using okE Next by (simp_all add: flow_ok_def exec_ok_def)
      moreover have "e_pos E' = Suc (e_pos F')" using simD(1) [OF F'(2)] by simp
      moreover have "e_pos F \<le> e_pos F'" using iterate_pos [OF F'(1)] .
      moreover from calculation have "length d - e_pos ?F < length d - e_pos F" using True by simp
      ultimately obtain n E'' F'' where "exec_loop strict S (c # d) ?E = Some (Suc n, E'')"
        "exec_loop strict S d ?F = Some (n, F'')" "same_end E'' F''"
        using less.hyps [of ?F ?E] s by (auto simp: sim_start_def)
      then show ?thesis using True Next F' P by (subst (1 2) exec_loop.simps) auto
    next
      case (Stop n E')
      then obtain m F' where "iterate strict S d F = Stop m F'" "n = Suc m" "same_end E' F'"
        using flow by (cases "iterate strict S d F") (auto simp: sim_flow_def)
      then show ?thesis using True Stop P by (subst (1 2) exec_loop.simps) auto
    next
      case Abort
      then show ?thesis using okE by (simp add: flow_ok_def)
    qed
  qed
qed

lemma start_sim:
  assumes "exec_ok 0 E" and "e_pos E = 1" and "\<And>k m. e_marks E k = Some m \<Longrightarrow> m = 0"
  shows "\<exists>E'. finish S [c] E = Some (1, E') \<and> e_parser E' = e_parser E \<and>
    sim_start put c E \<lparr>e_parser = e_parser E, e_user = e_user E', e_pos = 0, e_marks = initial_marks (p_state (e_parser E))\<rparr>"
proof -
  let ?ks = "[K_header_field, K_header_value, K_url, K_body]" and ?s = "p_state (e_parser E)"
  have all: "k \<in> set ?ks" for k by (cases k) simp_all
  have ok: "marks_ok ?s (e_marks E)" "p_errno (e_parser E) = HPE_OK" using assms(1) by (simp_all add: exec_ok_def)
  have fin: "finish S [c] E = Some (1, call_marks S [c] ?ks E)"
    using marks_ok_one [OF ok(1)] ok(2) assms(2) by (simp add: finish_def Let_def)
  consider "e_marks E = (\<lambda>_. None)" | k where "e_marks E = (\<lambda>_. None)(k := Some 0)"
    using marks_ok_cases [OF ok(1)] assms(3) by (metis fun_upd_same)
  then show ?thesis
  proof cases
    case 1
    then have "initial_marks ?s = (\<lambda>_. None)" using ok(1) by (auto simp: marks_ok_def initial_marks_def fun_eq_iff)
    then have "shifted E \<lparr>e_parser = e_parser E, e_user = e_user E, e_pos = 0, e_marks = initial_marks ?s\<rparr>"
      using 1 assms(2) by (simp add: shifted_def fun_eq_iff)
    then show ?thesis unfolding fin call_marks_none [OF 1] by (auto simp: sim_start_def sim_def)
  next
    case (2 k)
    have user: "call_marks S [c] ?ks E = E\<lparr>e_user := put k [c] (e_user E), e_marks := \<lambda>_. None\<rparr>"
      using call_marks_one [OF 2 all ok(2), of "[c]"] assms(2) by (simp add: slice_def)
    have "kind_of ?s = Some k" using marks_kind [OF ok(1), of k] 2 by simp
    then have "initial_marks ?s = (if k = K_body then (\<lambda>_. None) else (\<lambda>_. None)(k := Some 0))"
      by (auto simp: kind_of_def initial_marks_def url_states_def body_states_def fun_eq_iff split: if_splits)
    then have "sim_start put c E
        \<lparr>e_parser = e_parser E, e_user = put k [c] (e_user E), e_pos = 0, e_marks = initial_marks ?s\<rparr>"
      using 2 assms(2) by (cases "k = K_body") (auto simp: sim_start_def sim_def pending_def unmarked_def)
    then show ?thesis unfolding fin user by simp
  qed
qed

text \<open>A first buffer of one byte: either the parser stops in it, or it can be fed the rest.\<close>

lemma execute_one:
  assumes "reusable P" and "p_errno P = HPE_OK"
  obtains (stop) n P1 u1 where "http_parser_execute strict S P u [c] = Some (n, P1, u1)"
      "p_errno P1 \<noteq> HPE_OK \<or> p_upgrade P1"
      "\<And>d. d \<noteq> [] \<Longrightarrow> http_parser_execute strict S P u (c # d) = Some (n, P1, u1)"
  | (go) P1 u1 where "http_parser_execute strict S P u [c] = Some (1, P1, u1)" "p_errno P1 = HPE_OK"
      "\<And>d. d \<noteq> [] \<Longrightarrow> same_result 1 (http_parser_execute strict S P1 u1 d) (http_parser_execute strict S P u (c # d))"
proof -
  let ?E = "\<lparr>e_parser = P, e_user = u, e_pos = 0, e_marks = initial_marks (p_state P)\<rparr>"
  have ok: "exec_ok 0 ?E" using assms by (simp add: exec_ok_def reusable_def initial_marks_ok)
  have exe: "http_parser_execute strict S P u D = map_option (\<lambda>(n, E). (n, e_parser E, e_user E)) (exec_loop strict S D ?E)"
    if "D \<noteq> []" for D using that assms(2) by (simp add: http_parser_execute_def)
  have flow: "flow_ok [c] (iterate strict S [c] ?E)" using iterate_ok [OF ok, of "[c]"] by simp
  have loop1: "exec_loop strict S [c] ?E = (case iterate strict S [c] ?E of
      Next E' \<Rightarrow> finish S [c] (E'\<lparr>e_pos := 1\<rparr>) | Stop n E' \<Rightarrow> Some (n, E') | Abort \<Rightarrow> None)"
    using flow by (subst exec_loop.simps) (auto simp: flow_ok_def exec_loop.simps [of strict S "[c]" "_\<lparr>e_pos := Suc _\<rparr>"] split: flow.split)
  show thesis
  proof (cases "iterate strict S [c] ?E")
    case (Stop n E')
    show ?thesis
    proof (rule stop)
      show "http_parser_execute strict S P u [c] = Some (n, e_parser E', e_user E')" using exe [of "[c]"] loop1 Stop by simp
      show "p_errno (e_parser E') \<noteq> HPE_OK \<or> p_upgrade (e_parser E')" using flow Stop by (auto simp: flow_ok_def)
      show "http_parser_execute strict S P u (c # d) = Some (n, e_parser E', e_user E')" if "d \<noteq> []" for d
        using first_byte(1) [OF ok _ that Stop] exe by simp
    qed
  next
    case (Next E')
    let ?E1 = "E'\<lparr>e_pos := 1\<rparr>"
    have ok1: "exec_ok 0 ?E1" using flow Next by (simp add: flow_ok_def exec_ok_def)
    have zero: "m = 0" if "e_marks ?E1 k = Some m" for k m
    proof (rule iterate_marks [OF Next ok])
      show "e_marks E' k = Some m" using that by simp
      show "\<And>j i. e_marks ?E j = Some i \<Longrightarrow> i = 0" by (auto simp: initial_marks_def split: if_splits)
    qed simp
    have "\<exists>E2. finish S [c] ?E1 = Some (1, E2) \<and> e_parser E2 = e_parser ?E1 \<and> sim_start put c ?E1
        \<lparr>e_parser = e_parser ?E1, e_user = e_user E2, e_pos = 0, e_marks = initial_marks (p_state (e_parser ?E1))\<rparr>"
      using zero by (intro start_sim [OF ok1]) simp_all
    then obtain E2 where E2: "finish S [c] ?E1 = Some (1, E2)" "e_parser E2 = e_parser E'"
      "sim_start put c ?E1 \<lparr>e_parser = e_parser E', e_user = e_user E2, e_pos = 0, e_marks = initial_marks (p_state (e_parser E'))\<rparr>"
      by auto
    show ?thesis
    proof (rule go)
      show "http_parser_execute strict S P u [c] = Some (1, e_parser E', e_user E2)" using exe [of "[c]"] loop1 Next E2 by simp
      show err: "p_errno (e_parser E') = HPE_OK" using ok1 by (simp add: exec_ok_def)
      show "same_result 1 (http_parser_execute strict S (e_parser E') (e_user E2) d) (http_parser_execute strict S P u (c # d))"
        if d: "d \<noteq> []" for d
      proof -
        obtain n E'' F'' where "exec_loop strict S (c # d) ?E1 = Some (Suc n, E'')" "same_end E'' F''"
          "exec_loop strict S d \<lparr>e_parser = e_parser E', e_user = e_user E2, e_pos = 0,
            e_marks = initial_marks (p_state (e_parser E'))\<rparr> = Some (n, F'')"
          using exec_loop_sim [OF E2(3) ok1, of d strict] d by auto
        moreover have "exec_loop strict S (c # d) ?E = exec_loop strict S (c # d) ?E1"
          by (rule first_byte(2) [OF ok _ d Next]) simp
        ultimately show ?thesis
          using exe [of "c # d"] err d by (simp add: same_result_def http_parser_execute_def same_end_def)
      qed
    qed
  next
    case Abort
    then show ?thesis using flow by (simp add: flow_ok_def)
  qed
qed

lemma execute_append:
  assumes "reusable P" and "p_errno P = HPE_OK" and "d1 \<noteq> []" and "d2 \<noteq> []"
    and "http_parser_execute strict S P u d1 = Some (n1, P1, u1)"
  shows "(p_errno P1 = HPE_OK \<longrightarrow> \<not> p_upgrade P1 \<longrightarrow>
      same_result (length d1) (http_parser_execute strict S P1 u1 d2) (http_parser_execute strict S P u (d1 @ d2)))
    \<and> (p_errno P1 \<noteq> HPE_OK \<or> p_upgrade P1 \<and> n1 < length d1 \<longrightarrow>
      same_result 0 (Some (n1, P1, u1)) (http_parser_execute strict S P u (d1 @ d2)))"
  using assms
proof (induction d1 arbitrary: P u n1 P1 u1)
  case (Cons c d)
  show ?case
  proof (cases rule: execute_one [OF Cons.prems(1,2), of strict u c, case_names stop go])
    case (stop n Q v)
    have "n1 = n \<and> P1 = Q \<and> u1 = v" using stop(1,3) Cons.prems(5) by (cases "d = []") auto
    then show ?thesis using stop(2) stop(3) [of "d @ d2"] Cons.prems(4) by (auto simp: same_result_def)
  next
    case (go Q v)
    have reQ: "reusable Q"
      using http_parser_execute_ok [OF Cons.prems(1), of strict S u "[c]"] go(1) by (metis option.inject prod.inject)
    show ?thesis
    proof (cases "d = []")
      case True
      then show ?thesis using go Cons.prems(4,5) by auto
    next
      case False
      obtain m w where m: "http_parser_execute strict S Q v d = Some (m, P1, w)" "n1 = Suc m"
        "\<not> syntax_error (p_errno P1) \<Longrightarrow> w = u1"
        using go(3) [OF False] Cons.prems(5) by (auto simp: same_result_def)
      note IH = Cons.IH [OF reQ go(2) False Cons.prems(4) m(1)]
      have more: "same_result 1 (http_parser_execute strict S Q v (d @ d2)) (http_parser_execute strict S P u (c # d @ d2))"
        using go(3) [of "d @ d2"] Cons.prems(4) by simp
      have "same_result (length (c # d)) (http_parser_execute strict S P1 u1 d2) (http_parser_execute strict S P u (c # d @ d2))"
        if "p_errno P1 = HPE_OK" "\<not> p_upgrade P1"
        using same_result_trans [OF _ more, of "length d"] IH m(3) that by (simp add: syntax_error_def)
      moreover have "same_result 0 (Some (n1, P1, u1)) (http_parser_execute strict S P u (c # d @ d2))"
        if "p_errno P1 \<noteq> HPE_OK \<or> p_upgrade P1 \<and> n1 < length (c # d)"
      proof -
        have "same_result 0 (Some (m, P1, w)) (http_parser_execute strict S Q v (d @ d2))" using IH that m(2) by auto
        from same_result_trans [OF this more] show ?thesis using m(2,3) by (auto simp: same_result_def)
      qed
      ultimately show ?thesis by simp
    qed
  qed
qed simp

end

text \<open>
  A caller that feeds buffers one after the other until the parser stops, and the total number
  of bytes it has parsed.
\<close>

primrec feed_all ::
  "bool \<Rightarrow> 'u settings \<Rightarrow> string list \<Rightarrow> http_parser \<Rightarrow> 'u \<Rightarrow> (nat \<times> http_parser \<times> 'u) option" where
  "feed_all strict S [] P u = Some (0, P, u)"
| "feed_all strict S (d # ds) P u =
     (case http_parser_execute strict S P u d of
        None \<Rightarrow> None
      | Some (n, P', u') \<Rightarrow>
          if p_errno P' \<noteq> HPE_OK \<or> p_upgrade P' then Some (n, P', u')
          else map_option (\<lambda>(m, r). (n + m, r)) (feed_all strict S ds P' u'))"

context stream_callbacks
begin

lemma feed_all_concat:
  assumes "reusable P" and "p_errno P = HPE_OK" and "ds \<noteq> []" and "\<forall>d \<in> set ds. d \<noteq> []"
    and "feed_all strict S ds P u = Some (n, P', u')" and "p_errno P' \<noteq> HPE_OK \<or> \<not> p_upgrade P'"
  shows "same_result 0 (Some (n, P', u')) (http_parser_execute strict S P u (concat ds))"
  using assms
proof (induction ds arbitrary: P u n u')
  case (Cons d ds)
  obtain n1 P1 u1 where one: "http_parser_execute strict S P u d = Some (n1, P1, u1)" "reusable P1" "n1 \<le> length d"
    "n1 < length d \<Longrightarrow> p_errno P1 = HPE_OK \<Longrightarrow> p_upgrade P1"
    using http_parser_execute_ok [OF Cons.prems(1), of strict S u d] Cons.prems(4) by auto
  show ?case
  proof (cases "ds = []")
    case True
    then show ?thesis using one(1) Cons.prems(5) by (auto simp: same_result_def split: if_splits)
  next
    case False
    then have ne: "concat ds \<noteq> []" using Cons.prems(4) by (cases ds) auto
    note app = execute_append [OF Cons.prems(1,2) _ ne one(1)]
    have dne: "d \<noteq> []" using Cons.prems(4) by simp
    show ?thesis
    proof (cases "p_errno P1 \<noteq> HPE_OK \<or> p_upgrade P1")
      case True
      then show ?thesis using one(1) Cons.prems(5,6) app dne by auto
    next
      case go: False
      then obtain m where m: "feed_all strict S ds P1 u1 = Some (m, P', u')" "n = n1 + m"
        using one(1) Cons.prems(5) by auto
      have "same_result 0 (Some (m, P', u')) (http_parser_execute strict S P1 u1 (concat ds))"
        using Cons.IH [OF one(2) _ False _ m(1) Cons.prems(6)] go Cons.prems(4) by simp
      moreover have "same_result (length d) (http_parser_execute strict S P1 u1 (concat ds)) (http_parser_execute strict S P u (d @ concat ds))"
        using app go dne by blast
      moreover have "n1 = length d" using one(3,4) go by force
      ultimately show ?thesis using same_result_trans m(2) by (fastforce simp: same_result_def)
    qed
  qed
qed simp

end

end
