(* ===== verification/Http_Headers.thy ===== *)
theory Http_Headers
  imports Ten_Prelude
begin

text \<open>
  The header list of \<open>include/ten/http/http_message.hh\<close> and \<open>src/http_message.cc\<close>: names and
  values in order, looked up by name without regard to the case of ASCII letters.

  Names are compared by \<open>toupper_cmp\<close>, four bytes at a time with an arithmetic upper-case
  function on a 32-bit word and the rest by a table; this is shown to be equality of the
  upper-cased names.  On top of it the operations of \<open>http_headers\<close> are a map from names
  to values, the contract that \<open>set_body\<close>, \<open>close_after\<close> and the exchange of the server
  rely on: the locale \<open>header_map\<close>.
\<close>

unbundle bit_operations_syntax

section \<open>Comparing names\<close>

definition toupper :: "u32 \<Rightarrow> u32" where
  "toupper eax =
     (let ebx = (0x7f7f7f7f AND eax) + 0x05050505;
          ebx = (0x7f7f7f7f AND ebx) + 0x1a1a1a1a;
          ebx = drop_bit 2 (ebx AND NOT eax) AND 0x20202020
      in eax - ebx)"

definition toupper_map :: "nat list" where
  "toupper_map = [0,1,2,3,4,5,6,7,8,9,10,11,12,13,14,15,16,
     17,18,19,20,21,22,23,24,25,26,27,28,29,30,31,32,33,34,35,36,37,38,39,
     40,41,42,43,44,45,46,47,48,49,50,51,52,53,54,55,56,57,58,59,60,61,62,
     63,64,65,66,67,68,69,70,71,72,73,74,75,76,77,78,79,80,81,82,83,84,85,
     86,87,88,89,90,91,92,93,94,95,96,65,66,67,68,69,70,71,72,73,74,75,76,
     77,78,79,80,81,82,83,84,85,86,87,88,89,90,123,124,125,126,127,128,129,
     130,131,132,133,134,135,136,137,138,139,140,141,142,143,144,145,146,147,
     148,149,150,151,152,153,154,155,156,157,158,159,160,161,162,163,164,165,
     166,167,168,169,170,171,172,173,174,175,176,177,178,179,180,181,182,183,
     184,185,186,187,188,189,190,191,192,193,194,195,196,197,198,199,200,201,
     202,203,204,205,206,207,208,209,210,211,212,213,214,215,216,217,218,219,
     220,221,222,223,224,225,226,227,228,229,230,231,232,233,234,235,236,237,
     238,239,240,241,242,243,244,245,246,247,248,249,250,251,252,253,254,255]"

text \<open>The four bytes of a word in memory, least significant first.\<close>

definition load4 :: "string \<Rightarrow> nat \<Rightarrow> u32" where
  "load4 s i = of_nat (code (s ! (4 * i)) + 2 ^ 8 * code (s ! (4 * i + 1)) + 2 ^ 16 * code (s ! (4 * i + 2))
     + 2 ^ 24 * code (s ! (4 * i + 3)))"

text \<open>\<open>n\<close> words are left from index \<open>i\<close> on.\<close>

primrec cmp_words :: "string \<Rightarrow> string \<Rightarrow> nat \<Rightarrow> nat \<Rightarrow> bool" where
  "cmp_words a b i 0 = True"
| "cmp_words a b i (Suc n) =
     (if toupper (load4 a i) \<noteq> toupper (load4 b i) then False else cmp_words a b (Suc i) n)"

text \<open>The cases of the switch fall through: \<open>n\<close> bytes are left.\<close>

primrec cmp_bytes :: "string \<Rightarrow> string \<Rightarrow> nat \<Rightarrow> nat \<Rightarrow> bool" where
  "cmp_bytes a b i 0 = True"
| "cmp_bytes a b i (Suc n) =
     (if toupper_map ! code (a ! i) \<noteq> toupper_map ! code (b ! i) then False else cmp_bytes a b (Suc i) n)"

definition toupper_cmp :: "string \<Rightarrow> string \<Rightarrow> nat \<Rightarrow> bool" where
  "toupper_cmp a b len =
     (let leftover = len mod 4; imax = len div 4
      in if \<not> cmp_words a b 0 imax then False else cmp_bytes a b (imax * 4) leftover)"

definition ascii_iequals :: "string \<Rightarrow> string \<Rightarrow> bool" where
  "ascii_iequals a b = (let len = length a in if len \<noteq> length b then False else toupper_cmp a b len)"

section \<open>The comparison is equality up to case\<close>

definition upper_code :: "nat \<Rightarrow> nat" where
  "upper_code n = (if 97 \<le> n \<and> n \<le> 122 then n - 32 else n)"

definition upper :: "char \<Rightarrow> char" where
  "upper c = char_of (upper_code (code c))"

lemma upper_code_less: "n < 256 \<Longrightarrow> upper_code n < 256"
  by (auto simp: upper_code_def)

lemma code_upper [simp]: "code (upper c) = upper_code (code c)"
  using upper_code_less [of "code c"] by (simp add: upper_def)

lemma toupper_map_upper: "toupper_map = map upper_code [0..<256]"
  by code_simp

text \<open>Four bytes side by side.\<close>

definition join4 :: "u8 \<Rightarrow> u8 \<Rightarrow> u8 \<Rightarrow> u8 \<Rightarrow> u32" where
  "join4 a b c d = ucast a OR push_bit 8 (ucast b) OR push_bit 16 (ucast c) OR push_bit 24 (ucast d)"

lemma byte_bit: "bit (b :: u8) n \<Longrightarrow> n < 8"
  using bit_imp_le_length [of b n] by simp

lemma bit_join4:
  "bit (join4 a b c d) n \<longleftrightarrow>
     (if n < 8 then bit a n else if n < 16 then bit b (n - 8) else if n < 24 then bit c (n - 16) else bit d (n - 24))"
  using byte_bit [of a n] byte_bit [of b "n - 8"] byte_bit [of c "n - 16"] byte_bit [of d "n - 24"]
  by (auto simp: join4_def bit_simps)

lemma join4_and: "join4 a b c d AND join4 a' b' c' d' = join4 (a AND a') (b AND b') (c AND c') (d AND d')"
  by (rule bit_eqI) (simp add: bit_join4 bit_and_iff)

lemma join4_not: "NOT (join4 a b c d) = join4 (NOT a) (NOT b) (NOT c) (NOT d)"
  by (rule bit_eqI) (auto simp: bit_join4 bit_not_iff)

lemma join4_of_nat:
  "join4 a b c d = of_nat (unat a + 2 ^ 8 * unat b + 2 ^ 16 * unat c + 2 ^ 24 * unat d)"
proof -
  let ?a = "ucast a :: u32" and ?b = "push_bit 8 (ucast b :: u32)" and ?c = "push_bit 16 (ucast c :: u32)"
    and ?d = "push_bit 24 (ucast d :: u32)"
  have "?c AND ?d = 0" "?b AND (?c OR ?d) = 0" "?a AND (?b OR (?c OR ?d)) = 0"
    by (rule bit_eqI; auto simp: bit_simps dest: byte_bit)+
  then have "join4 a b c d = ?a + (?b + (?c + ?d))"
    by (simp add: join4_def disjunctive_add_eq_or or.assoc)
  then show ?thesis by (simp add: push_bit_eq_mult ac_simps)
qed

lemma join4_add:
  assumes "unat a + unat a' < 256" "unat b + unat b' < 256" "unat c + unat c' < 256" "unat d + unat d' < 256"
  shows "join4 a b c d + join4 a' b' c' d' = join4 (a + a') (b + b') (c + c') (d + d')"
proof -
  have u: "unat (x + y) = unat x + unat y" if "unat x + unat y < 256" for x y :: u8
    using that by (simp add: unat_word_ariths)
  show ?thesis unfolding join4_of_nat u [OF assms(1)] u [OF assms(2)] u [OF assms(3)] u [OF assms(4)]
    by (simp add: algebra_simps)
qed

definition lower_bit :: "u8 \<Rightarrow> u8" where
  "lower_bit b = drop_bit 2 (((0x7f AND ((0x7f AND b) + 5)) + 0x1a) AND NOT b) AND 0x20"

lemma join4_bit5: "drop_bit 2 (join4 a b c d) AND join4 0x20 0x20 0x20 0x20 =
    join4 (drop_bit 2 a AND 0x20) (drop_bit 2 b AND 0x20) (drop_bit 2 c AND 0x20) (drop_bit 2 d AND 0x20)"
proof -
  define x :: u8 where "x = 0x20"
  have "x = 2 ^ 5" by (simp add: x_def)
  then have m: "bit x k \<longleftrightarrow> k = 5" for k by (simp only: bit_exp_iff) auto
  have "n - 8 = 5 \<longleftrightarrow> n = 13" "n - 16 = 5 \<longleftrightarrow> n = 21" "n - 24 = 5 \<longleftrightarrow> n = 29" for n :: nat by auto
  then show ?thesis unfolding x_def [symmetric]
    by (intro bit_eqI) (auto simp: bit_join4 bit_and_iff bit_drop_bit_eq m split: if_splits)
qed

lemma byte_facts:
  "unat (0x7f AND b :: u8) + 5 < 256" "unat (0x7f AND b :: u8) + 0x1a < 256"
  "lower_bit b = (if 97 \<le> unat b \<and> unat b \<le> 122 then 0x20 else 0)"
proof -
  have "\<forall>b :: u8. unat (0x7f AND b) + 0x1a < 256 \<and> lower_bit b = (if 97 \<le> unat b \<and> unat b \<le> 122 then 0x20 else 0)"
    by code_simp
  then show "unat (0x7f AND b :: u8) + 5 < 256" "unat (0x7f AND b :: u8) + 0x1a < 256"
    "lower_bit b = (if 97 \<le> unat b \<and> unat b \<le> 122 then 0x20 else 0)" by (auto dest: spec [of _ b])
qed

lemma join4_inj: "join4 a b c d = join4 a' b' c' d' \<longleftrightarrow> a = a' \<and> b = b' \<and> c = c' \<and> d = d'"
proof
  assume e: "join4 a b c d = join4 a' b' c' d'"
  have bits: "bit (join4 a b c d) n = bit (join4 a' b' c' d') n" for n by (simp add: e)
  have "bit a n = bit a' n" "bit b n = bit b' n" "bit c n = bit c' n" "bit d n = bit d' n" if "n < 8" for n
    using that bits [of n] bits [of "n + 8"] bits [of "n + 16"] bits [of "n + 24"] by (simp_all add: bit_join4)
  then show "a = a' \<and> b = b' \<and> c = c' \<and> d = d'" by (auto intro!: bit_word_eqI)
qed simp

lemma upper_byte: "b - lower_bit b = of_nat (upper_code (unat b))"
proof (cases "97 \<le> unat b \<and> unat b \<le> 122")
  case True
  then have "(of_nat (unat b - 32) :: u8) = of_nat (unat b) - of_nat 32" by (intro of_nat_diff) simp
  then show ?thesis using True by (simp add: byte_facts upper_code_def)
qed (simp add: byte_facts upper_code_def)

lemma toupper_join4:
  "toupper (join4 a b c d) = join4 (of_nat (upper_code (unat a))) (of_nat (upper_code (unat b)))
     (of_nat (upper_code (unat c))) (of_nat (upper_code (unat d)))"
proof -
  have con: "0x7f7f7f7f = join4 0x7f 0x7f 0x7f 0x7f" "0x05050505 = join4 5 5 5 5"
    "0x1a1a1a1a = join4 0x1a 0x1a 0x1a 0x1a" "0x20202020 = join4 0x20 0x20 0x20 0x20"
    by (simp_all add: join4_of_nat)
  let ?f = "\<lambda>b :: u8. (0x7f AND b) + 5" and ?g = "\<lambda>b :: u8. (0x7f AND ((0x7f AND b) + 5)) + 0x1a"
  have f: "(0x7f7f7f7f AND join4 a b c d) + 0x05050505 = join4 (?f a) (?f b) (?f c) (?f d)"
    unfolding con join4_and by (rule join4_add) (use byte_facts(1) in simp_all)
  have g: "(0x7f7f7f7f AND join4 (?f a) (?f b) (?f c) (?f d)) + 0x1a1a1a1a = join4 (?g a) (?g b) (?g c) (?g d)"
    unfolding con join4_and by (rule join4_add) (use byte_facts(2) in simp_all)
  have low: "drop_bit 2 (join4 (?g a) (?g b) (?g c) (?g d) AND NOT (join4 a b c d)) AND 0x20202020 =
      join4 (lower_bit a) (lower_bit b) (lower_bit c) (lower_bit d)"
    unfolding con(4) join4_not join4_and join4_bit5 lower_bit_def ..
  have keep: "unat (x - lower_bit x) + unat (lower_bit x) < 256" for x
  proof -
    have x: "unat x < 256" using unsigned_less [of x] by simp
    then have "unat (x - lower_bit x) = upper_code (unat x)"
      using upper_code_less [OF x] unfolding upper_byte by (simp add: unat_of_nat)
    then show ?thesis using x by (auto simp: byte_facts(3) upper_code_def)
  qed
  have "join4 (a - lower_bit a) (b - lower_bit b) (c - lower_bit c) (d - lower_bit d)
      + join4 (lower_bit a) (lower_bit b) (lower_bit c) (lower_bit d) = join4 a b c d"
    using join4_add [OF keep keep keep keep] by simp
  then have "join4 a b c d - join4 (lower_bit a) (lower_bit b) (lower_bit c) (lower_bit d) =
      join4 (a - lower_bit a) (b - lower_bit b) (c - lower_bit c) (d - lower_bit d)"
    by (simp add: algebra_simps)
  then show ?thesis unfolding toupper_def Let_def f g low upper_byte .
qed

lemma load4_join4:
  "load4 s i = join4 (of_nat (code (s ! (4 * i)))) (of_nat (code (s ! (4 * i + 1))))
     (of_nat (code (s ! (4 * i + 2)))) (of_nat (code (s ! (4 * i + 3))))"
  by (simp add: load4_def join4_of_nat unat_of_nat of_char_mod_256)

lemma toupper_load4:
  "toupper (load4 a i) = toupper (load4 b i) \<longleftrightarrow>
     (\<forall>j < 4. upper_code (code (a ! (4 * i + j))) = upper_code (code (b ! (4 * i + j))))"
proof -
  have inj: "(of_nat (upper_code (code x)) :: u8) = of_nat (upper_code (code y)) \<longleftrightarrow> upper_code (code x) = upper_code (code y)"
    for x y :: char
    using upper_code_less [of "code x"] upper_code_less [of "code y"] by (simp add: word_of_nat_eq_iff take_bit_nat_eq_self)
  have "(\<forall>j < 4. P j) \<longleftrightarrow> P 0 \<and> P 1 \<and> P 2 \<and> P (3 :: nat)" for P by (auto simp: numeral_eq_Suc less_Suc_eq)
  then show ?thesis
    by (simp add: load4_join4 toupper_join4 join4_inj unat_of_nat of_char_mod_256 inj)
qed

lemma cmp_words_iff:
  "cmp_words a b i n \<longleftrightarrow> (\<forall>j < 4 * n. upper_code (code (a ! (4 * i + j))) = upper_code (code (b ! (4 * i + j))))"
proof (induction n arbitrary: i)
  case (Suc n)
  have "(\<forall>j < 4 * Suc n. P j) \<longleftrightarrow> (\<forall>j < 4. P j) \<and> (\<forall>j < 4 * n. P (4 + j))" for P :: "nat \<Rightarrow> bool"
  proof -
    have "j < 4 \<or> (\<exists>k < 4 * n. j = 4 + k)" if "j < 4 * Suc n" for j
      using that by (auto intro: exI [of _ "j - 4"])
    then show ?thesis by fastforce
  qed
  then show ?case using Suc.IH [of "Suc i"] by (simp add: toupper_load4 ac_simps)
qed simp

lemma cmp_bytes_iff:
  "cmp_bytes a b i n \<longleftrightarrow> (\<forall>j < n. upper_code (code (a ! (i + j))) = upper_code (code (b ! (i + j))))"
proof (induction n arbitrary: i)
  case (Suc n)
  have tab: "toupper_map ! code c = upper_code (code c)" for c :: char by (simp add: toupper_map_upper)
  show ?case using Suc.IH [of "Suc i"] by (auto simp: tab less_Suc_eq_0_disj)
qed simp

lemma ascii_upper: "ascii_iequals a b \<longleftrightarrow> map upper a = map upper b"
proof (cases "length a = length b")
  case True
  let ?n = "length a"
  have split: "(\<forall>j < ?n. P j) \<longleftrightarrow> (\<forall>j < 4 * (?n div 4). P j) \<and> (\<forall>j < ?n mod 4. P (?n div 4 * 4 + j))" for P :: "nat \<Rightarrow> bool"
  proof -
    have n: "?n = 4 * (?n div 4) + ?n mod 4" by simp
    have "j < 4 * (?n div 4) \<or> (\<exists>k < ?n mod 4. j = ?n div 4 * 4 + k)" if "j < ?n" for j
    proof (cases "j < 4 * (?n div 4)")
      case False
      then have "j - 4 * (?n div 4) < ?n mod 4" "j = ?n div 4 * 4 + (j - 4 * (?n div 4))" using that n by linarith+
      then show ?thesis by blast
    qed simp
    moreover have "?n div 4 * 4 + k < ?n" if "k < ?n mod 4" for k using that n by linarith
    ultimately show ?thesis by fastforce
  qed
  have "ascii_iequals a b \<longleftrightarrow> (\<forall>j < ?n. upper_code (code (a ! j)) = upper_code (code (b ! j)))"
    unfolding split using True
    by (simp add: ascii_iequals_def toupper_cmp_def cmp_words_iff cmp_bytes_iff Let_def)
  also have "\<dots> \<longleftrightarrow> map upper a = map upper b"
    using True code_upper by (auto simp: list_eq_iff_nth_eq upper_def)
  finally show ?thesis .
qed (auto simp: ascii_iequals_def Let_def dest: map_eq_imp_length_eq)

text \<open>
  C25: the comparison of header names is equality of the upper-cased names.  The word-wise
  arithmetic with its bytes packed in a 32-bit word and the table for the remaining bytes
  agree with upper-casing the ASCII letters one by one, for names of any length and any bytes.
\<close>

theorem ascii_iequals_correct: "ascii_iequals a b \<longleftrightarrow> map upper a = map upper b"
  by (rule ascii_upper)

section \<open>The header list\<close>

record http_headers =
  hlist :: "(string \<times> string) list"
  got_header_field :: bool

definition http_headers_new :: http_headers where
  "http_headers_new = \<lparr>hlist = [], got_header_field = False\<rparr>"

text \<open>The iterator that \<open>_hfind\<close> returns is an index; the length is \<open>end\<close>.\<close>

primrec find_header :: "string \<Rightarrow> (string \<times> string) list \<Rightarrow> nat" where
  "find_header f [] = 0"
| "find_header f (h # hs) = (if ascii_iequals (fst h) f then 0 else Suc (find_header f hs))"

definition hfind :: "string \<Rightarrow> 'a http_headers_scheme \<Rightarrow> nat" where
  "hfind f h = find_header f (hlist h)"

definition hdr_append :: "string \<Rightarrow> string \<Rightarrow> 'a http_headers_scheme \<Rightarrow> 'a http_headers_scheme" where
  "hdr_append f v h = h\<lparr>hlist := hlist h @ [(f, v)]\<rparr>"

definition hdr_concat :: "http_headers \<Rightarrow> 'a http_headers_scheme \<Rightarrow> 'a http_headers_scheme" where
  "hdr_concat other h = h\<lparr>hlist := hlist h @ hlist other\<rparr>"

definition hdr_set :: "string \<Rightarrow> string \<Rightarrow> 'a http_headers_scheme \<Rightarrow> 'a http_headers_scheme" where
  "hdr_set f v h =
     (let i = hfind f h
      in if i \<noteq> length (hlist h) then h\<lparr>hlist := (hlist h)[i := (fst (hlist h ! i), v)]\<rparr>
         else h\<lparr>hlist := hlist h @ [(f, v)]\<rparr>)"

definition hdr_empty :: "'a http_headers_scheme \<Rightarrow> bool" where
  "hdr_empty h \<longleftrightarrow> hlist h = []"

definition hdr_contains :: "string \<Rightarrow> 'a http_headers_scheme \<Rightarrow> bool" where
  "hdr_contains f h \<longleftrightarrow> hfind f h \<noteq> length (hlist h)"

text \<open>\<open>std::remove_if\<close> keeps the others in order; the erased tail is as long as the matches.\<close>

definition hdr_remove :: "string \<Rightarrow> 'a http_headers_scheme \<Rightarrow> bool \<times> 'a http_headers_scheme" where
  "hdr_remove f h =
     (let kept = filter (\<lambda>p. \<not> ascii_iequals (fst p) f) (hlist h)
      in if length kept \<noteq> length (hlist h) then (True, h\<lparr>hlist := kept\<rparr>) else (False, h))"

definition hdr_get :: "string \<Rightarrow> 'a http_headers_scheme \<Rightarrow> string option" where
  "hdr_get f h = (let i = hfind f h in if i \<noteq> length (hlist h) then Some (snd (hlist h ! i)) else None)"

definition hdr_clear :: "'a http_headers_scheme \<Rightarrow> 'a http_headers_scheme" where
  "hdr_clear h = h\<lparr>hlist := [], got_header_field := False\<rparr>"

definition hwrite :: "'a http_headers_scheme \<Rightarrow> string" where
  "hwrite h = concat (map (\<lambda>(n, v). n @ '': '' @ v @ [CHR 0x0D, CHR 0x0A]) (hlist h)) @ [CHR 0x0D, CHR 0x0A]"

section \<open>Headers are a map from names to values\<close>

text \<open>
  What the clients of a header list rely on: names up to an equivalence, and what a lookup
  returns after each change.
\<close>

locale header_map =
  fixes same :: "'n \<Rightarrow> 'n \<Rightarrow> bool" and look :: "'n \<Rightarrow> 'h \<Rightarrow> 'v option" and put :: "'n \<Rightarrow> 'v \<Rightarrow> 'h \<Rightarrow> 'h"
    and drop_all :: "'n \<Rightarrow> 'h \<Rightarrow> 'h" and has :: "'n \<Rightarrow> 'h \<Rightarrow> bool"
  assumes same_equiv: "equivp same"
    and look_put: "look g (put f v h) = (if same f g then Some v else look g h)"
    and look_drop: "look g (drop_all f h) = (if same f g then None else look g h)"
    and has_look: "has f h \<longleftrightarrow> look f h \<noteq> None"
begin

lemma put_same [simp]: "look f (put f v h) = Some v"
  using same_equiv by (simp add: look_put equivp_reflp)

lemma put_put: "look g (put f w (put f v h)) = look g (put f w h)"
  by (simp add: look_put)

lemma put_comm: "\<not> same f e \<Longrightarrow> look g (put f w (put e v h)) = look g (put e v (put f w h))"
  using same_equiv by (auto simp: look_put dest: equivp_symp equivp_transp)

lemma drop_has: "\<not> has f (drop_all f h)"
  using same_equiv by (simp add: has_look look_drop equivp_reflp)

lemma put_has: "has g (put f v h) \<longleftrightarrow> same f g \<or> has g h"
  by (simp add: has_look look_put)

lemma default_put: "look g (if has f h then h else put f v h) = (if same f g \<and> \<not> has f h then Some v else look g h)"
  by (simp add: look_put)

end

definition same_name :: "string \<Rightarrow> string \<Rightarrow> bool" where
  "same_name f g \<longleftrightarrow> map upper f = map upper g"

lemma ascii_same: "ascii_iequals f g \<longleftrightarrow> same_name f g"
  by (rule ascii_upper [folded same_name_def])

lemma find_header_le: "find_header f hs \<le> length hs"
  by (induction hs) auto

lemma find_header_end: "find_header f hs = length hs \<longleftrightarrow> (\<forall>h \<in> set hs. \<not> same_name (fst h) f)"
  by (induction hs) (auto simp: ascii_same)

definition look_list :: "string \<Rightarrow> (string \<times> string) list \<Rightarrow> string option" where
  "look_list f hs = map_option snd (List.find (\<lambda>h. same_name (fst h) f) hs)"

lemma hdr_get_look: "hdr_get f h = look_list f (hlist h)"
proof -
  have "(let i = find_header f hs in if i \<noteq> length hs then Some (snd (hs ! i)) else None) = look_list f hs" for hs
    by (induction hs) (auto simp: look_list_def ascii_same Let_def)
  then show ?thesis by (simp add: hdr_get_def hfind_def)
qed

primrec set_list :: "string \<Rightarrow> string \<Rightarrow> (string \<times> string) list \<Rightarrow> (string \<times> string) list" where
  "set_list f v [] = [(f, v)]"
| "set_list f v (h # hs) = (if same_name (fst h) f then (fst h, v) # hs else h # set_list f v hs)"

lemma hdr_set_list: "hdr_set f v h = h\<lparr>hlist := set_list f v (hlist h)\<rparr>"
proof -
  have eq: "(if find_header f hs \<noteq> length hs then hs[find_header f hs := (fst (hs ! find_header f hs), v)] else hs @ [(f, v)]) =
      set_list f v hs" for hs
    by (induction hs) (auto simp: ascii_same split: if_splits)
  show ?thesis using eq [of "hlist h"] by (simp add: hdr_set_def hfind_def Let_def split: if_splits)
qed

lemma same_name_equiv: "equivp same_name"
  by (auto simp: same_name_def equivp_def fun_eq_iff)

lemma look_set_list: "look_list g (set_list f v hs) = (if same_name f g then Some v else look_list g hs)"
  by (induction hs) (auto simp: look_list_def same_name_def)

lemma look_filter:
  "look_list g (filter (\<lambda>p. \<not> ascii_iequals (fst p) f) hs) = (if same_name f g then None else look_list g hs)"
proof (cases "same_name f g")
  case True
  then show ?thesis
    by (auto simp: look_list_def ascii_same same_name_def find_None_iff)
next
  case False
  then show ?thesis by (induction hs) (auto simp: look_list_def ascii_same same_name_def)
qed

lemma length_filter_eq: "length (filter P xs) = length xs \<longleftrightarrow> (\<forall>x \<in> set xs. P x)"
proof (induction xs)
  case (Cons x xs)
  have "length (filter P xs) \<noteq> Suc (length xs)" using length_filter_le [of P xs] by linarith
  then show ?case using Cons by auto
qed simp

lemma hdr_remove_list: "snd (hdr_remove f h) = h\<lparr>hlist := filter (\<lambda>p. \<not> ascii_iequals (fst p) f) (hlist h)\<rparr>"
  by (cases h) (auto simp: hdr_remove_def length_filter_eq Let_def)

interpretation hm: header_map same_name hdr_get hdr_set "\<lambda>f h. snd (hdr_remove f h)" hdr_contains
proof unfold_locales
  show "hdr_get g (hdr_set f v h) = (if same_name f g then Some v else hdr_get g h)" for g f v and h :: "'a http_headers_scheme"
    by (simp add: hdr_get_look hdr_set_list look_set_list)
  show "hdr_get g (snd (hdr_remove f h)) = (if same_name f g then None else hdr_get g h)" for g f and h :: "'a http_headers_scheme"
    by (simp add: hdr_get_look hdr_remove_list look_filter)
  show "hdr_contains f h \<longleftrightarrow> hdr_get f h \<noteq> None" for f and h :: "'a http_headers_scheme"
    by (simp add: hdr_contains_def hdr_get_def Let_def)
qed (rule same_name_equiv)

text \<open>
  C18: the header list is a map from names, compared without regard to ASCII case, to
  values.  A lookup after \<open>set\<close> gives the new value for every spelling of the name and what
  it gave before for other names; after \<open>remove\<close>, which reports whether it removed
  anything, the name is gone in every spelling and no other name is affected; \<open>set\<close> keeps the
  position and spelling of a name that is present, and the order of the others.
\<close>

theorem headers_map:
  "hdr_get g (hdr_set f v h) = (if same_name f g then Some v else hdr_get g h)
   \<and> hdr_get g (snd (hdr_remove f h)) = (if same_name f g then None else hdr_get g h)
   \<and> fst (hdr_remove f h) = hdr_contains f h
   \<and> map fst (hlist (hdr_set f v h)) = map fst (hlist h) @ (if hdr_contains f h then [] else [f])"
proof -
  have "fst (hdr_remove f h) = hdr_contains f h"
  proof -
    have "length (filter (\<lambda>p. \<not> ascii_iequals (fst p) f) (hlist h)) = length (hlist h) \<longleftrightarrow>
        (\<forall>p \<in> set (hlist h). \<not> same_name (fst p) f)"
      by (simp add: length_filter_eq ascii_same)
    then show ?thesis by (auto simp: hdr_remove_def hdr_contains_def hfind_def find_header_end Let_def)
  qed
  moreover have "map fst (set_list f v hs) = map fst hs @ (if \<forall>p \<in> set hs. \<not> same_name (fst p) f then [f] else [])" for hs
    by (induction hs) auto
  ultimately show ?thesis
    using hm.look_put [of g f v h] hm.look_drop [of g f h]
    by (auto simp: hdr_set_list hdr_contains_def hfind_def find_header_end)
qed

end
