(* ===== verification/Decimal.thy ===== *)
theory Decimal
  imports Ten_Prelude
begin

text \<open>
  Natural numbers in decimal, as \<open>operator<<\<close> of a stream and \<open>boost::lexical_cast\<close> print
  them, and read back by the usual scan.
\<close>

fun decimal :: "nat \<Rightarrow> string" where
  "decimal n = (if n < 10 then [char_of (48 + n)] else decimal (n div 10) @ [char_of (48 + n mod 10)])"

declare decimal.simps [simp del]

definition digit_scan :: "string \<Rightarrow> nat" where
  "digit_scan = foldl (\<lambda>a c. 10 * a + (code c - 48)) 0"

definition is_digit :: "char \<Rightarrow> bool" where
  "is_digit c \<longleftrightarrow> 48 \<le> code c \<and> code c \<le> 57"

lemma digit_scan_snoc: "digit_scan (xs @ [c]) = 10 * digit_scan xs + (code c - 48)"
  by (simp add: digit_scan_def)

lemma decimal_scan [simp]: "digit_scan (decimal n) = n"
proof (induction n rule: decimal.induct)
  case (1 n)
  show ?case
  proof (cases "n < 10")
    case True
    then show ?thesis by (subst decimal.simps) (simp add: digit_scan_def of_char_of)
  next
    case False
    then show ?thesis using 1 by (subst decimal.simps) (simp add: digit_scan_snoc of_char_of)
  qed
qed

lemma decimal_inj: "decimal m = decimal n \<longleftrightarrow> m = n"
  using decimal_scan by metis

lemma decimal_digits: "c \<in> set (decimal n) \<Longrightarrow> is_digit c"
proof (induction n rule: decimal.induct)
  case (1 n)
  then show ?case
    by (subst (asm) decimal.simps) (auto simp: is_digit_def of_char_of split: if_splits)
qed

lemma decimal_not_Nil [simp]: "decimal n \<noteq> []"
  by (subst decimal.simps) simp

end
