(* ===== verification/Http_Message.thy ===== *)
theory Http_Message
  imports Http_Chunking Http_Headers Decimal
begin

text \<open>
  \<open>http_request\<close> and \<open>http_response\<close> of \<open>include/ten/http/http_message.hh\<close> and
  \<open>src/http_message.cc\<close>: the messages, their text, and the callbacks through which
  \<open>http_parser_execute\<close> fills them in.

  The state the callbacks work on is a message and a flag for the assertion in the value
  callback.  That storage may run out is not modelled: \<open>reserve\<close> has no effect here.

  The callbacks are an instance of the interface \<open>stream_callbacks\<close>, so a message does not
  depend on how the network cut it into buffers, and of the interface \<open>message_invariant\<close>,
  from which the assertion never fails.
\<close>

section \<open>Messages\<close>

datatype http_version = http_0_9 | http_1_0 | http_1_1

record http_base = http_headers +
  version :: http_version
  body :: string
  body_length :: nat
  complete :: bool

record http_request = http_base +
  req_method :: string
  uri :: string

record http_response = http_base +
  status_code :: nat
  parser_guillotine :: bool

definition version_string :: "http_version \<Rightarrow> string" where
  "version_string v =
     (case v of http_0_9 \<Rightarrow> ''HTTP/0.9'' | http_1_0 \<Rightarrow> ''HTTP/1.0'' | http_1_1 \<Rightarrow> ''HTTP/1.1'')"

definition http_status_codes :: "(nat \<times> string) list" where
  "http_status_codes =
     [(100, ''Continue''), (101, ''Switching Protocols''), (200, ''OK''), (201, ''Created''),
      (202, ''Accepted''), (203, ''Non-Authoritative Information''), (204, ''No Content''),
      (205, ''Reset Content''), (206, ''Partial Content''), (300, ''Multiple Choices''),
      (301, ''Moved Permanently''), (302, ''Found''), (303, ''See Other''), (304, ''Not Modified''),
      (305, ''Use Proxy''), (307, ''Temporary Redirect''), (400, ''Bad Request''),
      (401, ''Unauthroized''), (402, ''Payment Required''), (403, ''Forbidden''), (404, ''Not Found''),
      (405, ''Method Not Allowed''), (406, ''Not Acceptable''),
      (407, ''Proxy Authentication Required''), (408, ''Request Timeout''), (409, ''Conflict''),
      (410, ''Gone''), (411, ''Length Required''), (412, ''Precondition Failed''),
      (413, ''Request Entity Too Large''), (414, ''Request URI Too Large''),
      (415, ''Unsupported Media Type''), (416, ''Requested Range Not Satisfiable''),
      (417, ''Expectation Failed''), (500, ''Internal Server Error''), (501, ''Not Implemented''),
      (502, ''Bad Gateway''), (503, ''Service Unavailable''), (504, ''Gateway Timeout''),
      (505, ''HTTP Version Not Supported'')]"

definition reason :: "'a http_response_scheme \<Rightarrow> string" where
  "reason m = (case map_of http_status_codes (status_code m) of Some r \<Rightarrow> r | None \<Rightarrow> ''Unknown'')"

definition base_clear :: "'a http_base_scheme \<Rightarrow> 'a http_base_scheme" where
  "base_clear m = (hdr_clear m)\<lparr>version := http_1_1, body := [], body_length := 0, complete := False\<rparr>"

definition request_clear :: "http_request \<Rightarrow> http_request" where
  "request_clear m = (base_clear m)\<lparr>req_method := [], uri := []\<rparr>"

definition response_clear :: "http_response \<Rightarrow> http_response" where
  "response_clear m = (base_clear m)\<lparr>status_code := 0\<rparr>"

definition set_body :: "string \<Rightarrow> string option \<Rightarrow> 'a http_base_scheme \<Rightarrow> 'a http_base_scheme" where
  "set_body b content_type m =
     (let m1 = m\<lparr>body := b, body_length := length b\<rparr>;
          m2 = hdr_set ''Content-Length'' (decimal (body_length m1)) m1
      in case content_type of
           Some t \<Rightarrow> hdr_set ''Content-Type'' t m2
         | None \<Rightarrow> if \<not> hdr_contains ''Content-Type'' m2 then hdr_set ''Content-Type'' ''text/plain'' m2 else m2)"

definition close_after :: "'a http_base_scheme \<Rightarrow> bool" where
  "close_after m =
     (let conn = hdr_get ''Connection'' m
      in if version m \<noteq> http_1_1
         then (case conn of None \<Rightarrow> True | Some c \<Rightarrow> \<not> ascii_iequals c ''Keep-Alive'')
         else (case conn of None \<Rightarrow> False | Some c \<Rightarrow> ascii_iequals c ''close''))"

definition request_data :: "http_request \<Rightarrow> string" where
  "request_data m = req_method m @ '' '' @ uri m @ '' '' @ version_string (version m) @ [CR, LF] @ hwrite m"

definition response_data :: "http_response \<Rightarrow> string" where
  "response_data m =
     version_string (version m) @ '' '' @ decimal (status_code m) @ '' '' @ reason m @ [CR, LF] @ hwrite m"

definition request_path :: "http_request \<Rightarrow> string" where
  "request_path m = takeWhile (\<lambda>c. c \<noteq> CHR ''?'' \<and> c \<noteq> CHR ''#'') (uri m)"

section \<open>Callbacks\<close>

definition set_version :: "http_parser \<Rightarrow> http_version option" where
  "set_version P =
     (if p_http_major P = 0 \<and> p_http_minor P = 9 then Some http_0_9
      else if p_http_major P = 1 \<and> p_http_minor P = 0 then Some http_1_0
      else if p_http_major P = 1 \<and> p_http_minor P = 1 then Some http_1_1 else None)"

text \<open>A message and whether the assertion of \<open>http_header_parse::value\<close> has failed.\<close>

type_synonym 'm parsing = "'m \<times> bool"

definition append_last :: "(string \<times> string \<Rightarrow> string \<times> string) \<Rightarrow> 'a http_headers_scheme \<Rightarrow> 'a http_headers_scheme" where
  "append_last g h = h\<lparr>hlist := butlast (hlist h) @ [g (last (hlist h))]\<rparr>"

definition parse_field :: "string \<Rightarrow> 'a http_headers_scheme \<Rightarrow> 'a http_headers_scheme" where
  "parse_field d h =
     (let h1 = (if \<not> got_header_field h then h\<lparr>hlist := hlist h @ [([], [])]\<rparr> else h)
      in (append_last (\<lambda>(f, v). (f @ d, v)) h1)\<lparr>got_header_field := True\<rparr>)"

definition parse_value :: "string \<Rightarrow> 'a http_headers_scheme parsing \<Rightarrow> 'a http_headers_scheme parsing" where
  "parse_value d ma =
     (let (h, failed) = ma
      in if hlist h = [] then (h, True)
         else ((append_last (\<lambda>(f, v). (f, v @ d)) h)\<lparr>got_header_field := False\<rparr>, failed))"

definition on_message_complete :: "'a http_base_scheme parsing \<Rightarrow> int \<times> bool \<times> 'a http_base_scheme parsing" where
  "on_message_complete ma =
     (let (m, failed) = ma in (1, False, m\<lparr>complete := True, body_length := length (body m)\<rparr>, failed))"

text \<open>What the data callbacks that are set do to the message.\<close>

definition base_put :: "data_kind \<Rightarrow> string \<Rightarrow> 'a http_base_scheme parsing \<Rightarrow> 'a http_base_scheme parsing" where
  "base_put k d ma =
     (case k of
        K_header_field \<Rightarrow> (parse_field d (fst ma), snd ma)
      | K_header_value \<Rightarrow> parse_value d ma
      | K_body \<Rightarrow> ((fst ma)\<lparr>body := body (fst ma) @ d\<rparr>, snd ma)
      | K_url \<Rightarrow> ma)"

definition request_put :: "data_kind \<Rightarrow> string \<Rightarrow> http_request parsing \<Rightarrow> http_request parsing" where
  "request_put k d ma = (if k = K_url then ((fst ma)\<lparr>uri := uri (fst ma) @ d\<rparr>, snd ma) else base_put k d ma)"

definition request_on_headers_complete :: "http_parser \<Rightarrow> http_request parsing \<Rightarrow> int \<times> bool \<times> http_request parsing" where
  "request_on_headers_complete P ma =
     (let m = (fst ma)\<lparr>req_method := method_string (p_method P)\<rparr>
      in case set_version P of
           None \<Rightarrow> (-1, False, m, snd ma)
         | Some v \<Rightarrow> (0, False, m\<lparr>version := v\<rparr>, snd ma))"

definition response_on_headers_complete :: "http_parser \<Rightarrow> http_response parsing \<Rightarrow> int \<times> bool \<times> http_response parsing" where
  "response_on_headers_complete P ma =
     (let m = (fst ma)\<lparr>status_code := p_status_code P\<rparr>
      in case set_version P of
           None \<Rightarrow> (-1, False, m, snd ma)
         | Some v \<Rightarrow> (if parser_guillotine m then 1 else 0, False, m\<lparr>version := v\<rparr>, snd ma))"

definition request_settings :: "http_request parsing settings" where
  "request_settings =
     \<lparr>on_notify = (\<lambda>k. if k = N_message_complete then Some (\<lambda>P. on_message_complete) else None),
      on_data = (\<lambda>k. Some (\<lambda>P d ma. (0, False, request_put k d ma))),
      on_headers_complete = Some request_on_headers_complete\<rparr>"

definition response_settings :: "http_response parsing settings" where
  "response_settings =
     \<lparr>on_notify = (\<lambda>k. if k = N_message_complete then Some (\<lambda>P. on_message_complete) else None),
      on_data = (\<lambda>k. if k = K_url then None else Some (\<lambda>P d ma. (0, False, base_put k d ma))),
      on_headers_complete = Some response_on_headers_complete\<rparr>"

text \<open>
  \<open>parse\<close> reports the number of bytes taken, or throws with the parser's error when the message
  is not complete and bytes are left.  libten builds the parser with \<open>HTTP_PARSER_STRICT\<close> off.
\<close>

datatype parse_outcome = Parsed nat | Parse_error nat http_errno | Asserts

definition parse_result ::
  "string \<Rightarrow> (nat \<times> http_parser \<times> 'a http_base_scheme parsing) option
    \<Rightarrow> parse_outcome \<times> (http_parser \<times> 'a http_base_scheme) option" where
  "parse_result d r =
     (case r of
        None \<Rightarrow> (Asserts, None)
      | Some (n, P, m, failed) \<Rightarrow>
          if failed then (Asserts, None)
          else (if \<not> complete m \<and> n \<noteq> length d then Parse_error n (p_errno P) else Parsed n, Some (P, m)))"

definition request_parse ::
  "http_parser \<Rightarrow> string \<Rightarrow> http_request \<Rightarrow> parse_outcome \<times> (http_parser \<times> http_request) option" where
  "request_parse P d m = parse_result d (http_parser_execute False request_settings P (m, False) d)"

definition response_parse ::
  "http_parser \<Rightarrow> string \<Rightarrow> http_response \<Rightarrow> parse_outcome \<times> (http_parser \<times> http_response) option" where
  "response_parse P d m = parse_result d (http_parser_execute False response_settings P (m, False) d)"

definition request_parser_init :: "http_request \<Rightarrow> http_parser \<times> http_request" where
  "request_parser_init m = (http_parser_init HTTP_REQUEST, request_clear m)"

definition response_parser_init :: "bool \<Rightarrow> http_response \<Rightarrow> http_parser \<times> http_response" where
  "response_parser_init guillotine m =
     (http_parser_init HTTP_RESPONSE, (response_clear m)\<lparr>parser_guillotine := guillotine\<rparr>)"

section \<open>The callbacks append\<close>

lemma append_last_twice: "append_last g (append_last f h) = append_last (g \<circ> f) h"
  by (simp add: append_last_def)

lemma parse_field_append: "parse_field (a @ b) h = parse_field b (parse_field a h)"
  by (auto simp: parse_field_def append_last_def Let_def split: prod.split)

lemma parse_value_append: "parse_value (a @ b) ma = parse_value b (parse_value a ma)"
  by (auto simp: parse_value_def append_last_def Let_def split: prod.split)

lemma base_put_append: "base_put k (a @ b) ma = base_put k b (base_put k a ma)"
  by (cases k) (simp_all add: base_put_def parse_field_append parse_value_append)

interpretation req: stream_callbacks request_settings request_put
  by unfold_locales (auto simp: request_settings_def request_put_def base_put_append)

definition response_put :: "data_kind \<Rightarrow> string \<Rightarrow> http_response parsing \<Rightarrow> http_response parsing" where
  "response_put k d ma = (if k = K_url then ma else base_put k d ma)"

interpretation resp: stream_callbacks response_settings response_put
  by unfold_locales (auto simp: response_settings_def response_put_def base_put_append split: if_splits)

lemma same_resultD:
  assumes "same_result 0 (Some (n, P, u)) r" and "\<not> syntax_error (p_errno P)" shows "r = Some (n, P, u)"
  using assms by (auto simp: same_result_def)

text \<open>
  C12: how a request is cut into buffers does not matter.  Feed any non-empty buffers one
  after the other to a parser that \<open>http_request::parser_init\<close> made, until the message is
  complete, an error occurs or the buffers are used up.  Unless the bytes are malformed or
  the rest of the connection belongs to another protocol, the parser, the request and the
  number of bytes taken are the same as when all buffers are fed as one.
\<close>

theorem request_chunks:
  assumes "feed_all False request_settings ds (http_parser_init HTTP_REQUEST) (m, False) = Some (n, P, ma)"
    and "ds \<noteq> []" and "\<forall>d \<in> set ds. d \<noteq> []" and "\<not> syntax_error (p_errno P)"
    and "p_errno P \<noteq> HPE_OK \<or> \<not> p_upgrade P"
  shows "http_parser_execute False request_settings (http_parser_init HTTP_REQUEST) (m, False) (concat ds) = Some (n, P, ma)"
proof -
  have "p_errno (http_parser_init HTTP_REQUEST) = HPE_OK" by (simp add: http_parser_init_def)
  from req.feed_all_concat [OF init_reusable this assms(2,3,1,5)] assms(4) show ?thesis by (rule same_resultD)
qed

lemma response_chunks:
  assumes "feed_all False response_settings ds (http_parser_init HTTP_RESPONSE) (m, False) = Some (n, P, ma)"
    and "ds \<noteq> []" and "\<forall>d \<in> set ds. d \<noteq> []" and "\<not> syntax_error (p_errno P)"
    and "p_errno P \<noteq> HPE_OK \<or> \<not> p_upgrade P"
  shows "http_parser_execute False response_settings (http_parser_init HTTP_RESPONSE) (m, False) (concat ds) = Some (n, P, ma)"
proof -
  have "p_errno (http_parser_init HTTP_RESPONSE) = HPE_OK" by (simp add: http_parser_init_def)
  from resp.feed_all_concat [OF init_reusable this assms(2,3,1,5)] assms(4) show ?thesis by (rule same_resultD)
qed

definition blank_request :: http_request where
  "blank_request = \<lparr>hlist = [], got_header_field = False, version = http_1_1, body = [], body_length = 0,
     complete = False, req_method = [], uri = []\<rparr>"

lemmas loop_defs = http_parser_execute_def exec_loop.simps iterate_def run_byte.simps on_byte_def leave_def apply_step_def
  set_mark_def perform_def parsing_header_def HTTP_MAX_HEADER_SIZE_def Let_def initial_marks_def finish_def

theorem request_chunks_witness:
  "\<exists>P. http_parser_execute False request_settings (http_parser_init HTTP_REQUEST) (blank_request, False)
      (concat [''G'', ''E'']) = Some (2, P, blank_request, False)"
proof -
  let ?P = "(http_parser_init HTTP_REQUEST)\<lparr>p_nread := 1, p_content_length := ULLONG_MAX, p_state := s_req_method,
    p_method := HTTP_GET, p_index := 1\<rparr>"
  let ?Q = "?P\<lparr>p_nread := 2, p_index := 2\<rparr>"
  have "http_parser_execute False request_settings (http_parser_init HTTP_REQUEST) (blank_request, False) ''G'' =
      Some (1, ?P, blank_request, False)"
    by (simp add: loop_defs http_parser_init_def on_start_req_def is_alpha_def first_method_def call_data_def
        call_notify_def request_settings_def url_states_def)
  moreover have "http_parser_execute False request_settings ?P (blank_request, False) ''E'' =
      Some (1, ?Q, blank_request, False)"
    by (simp add: loop_defs http_parser_init_def on_req_method_def c_at_def call_data_def request_settings_def url_states_def)
  ultimately have "feed_all False request_settings [''G'', ''E''] (http_parser_init HTTP_REQUEST) (blank_request, False) =
      Some (2, ?Q, blank_request, False)"
    by (simp add: http_parser_init_def)
  from request_chunks [OF this] show ?thesis by (auto simp: syntax_error_def http_parser_init_def)
qed

section \<open>Invariants of an application\<close>

text \<open>
  An application invariant that depends on the parser's state only: each step of the parser
  with its callback keeps it, and so does handing over a marked piece at the end of a buffer.
\<close>

definition keeps :: "(state \<Rightarrow> 'u \<Rightarrow> bool) \<Rightarrow> 'u exec \<Rightarrow> bool" where
  "keeps I E \<longleftrightarrow> I (p_state (e_parser E)) (e_user E) \<and> marks_ok (p_state (e_parser E)) (e_marks E)"

definition left :: "(state \<Rightarrow> 'u \<Rightarrow> bool) \<Rightarrow> http_parser \<Rightarrow> 'u \<Rightarrow> bool" where
  "left I P u \<longleftrightarrow> (\<exists>s. I s u) \<and> (\<not> syntax_error (p_errno P) \<longrightarrow> I (p_state P) u)"

definition flow_keeps :: "(state \<Rightarrow> 'u \<Rightarrow> bool) \<Rightarrow> 'u flow \<Rightarrow> bool" where
  "flow_keeps I r \<longleftrightarrow>
     (case r of Next E \<Rightarrow> keeps I E | Stop n E \<Rightarrow> left I (e_parser E) (e_user E) | Abort \<Rightarrow> True)"

locale message_invariant =
  fixes strict :: bool and S :: "'u settings" and I :: "state \<Rightarrow> 'u \<Rightarrow> bool"
  assumes step_keeps: "keeps I E \<Longrightarrow> e_pos E < length D \<Longrightarrow>
      st = on_byte strict (length D - e_pos E) (e_parser E) ch \<Longrightarrow> goes_on (st_control st) \<Longrightarrow>
      I (p_state (st_parser st)) (e_user (fst (perform S D (st_action st) (apply_step st E))))"
    and flush_keeps: "keeps I E \<Longrightarrow> e_marks E k \<noteq> None \<Longrightarrow> I (p_state (e_parser E)) (e_user (call_data S D k hi E))"
    and eof_keeps: "I s_body_identity_eof (e_user E) \<Longrightarrow> I s_body_identity_eof (e_user (call_notify S N_message_complete E))"
begin

lemma run_byte_keeps:
  assumes "keeps I E" and "e_pos E < length D" and "p_errno (e_parser E) = HPE_OK"
  shows "flow_keeps I (run_byte strict S D ch E)"
  using assms
proof (induction "reexec_rank (p_state (e_parser E))" arbitrary: E rule: less_induct)
  case less
  define st where "st = on_byte strict (length D - e_pos E) (e_parser E) ch"
  obtain E2 n where p: "perform S D (st_action st) (apply_step st E) = (E2, n)" by fastforce
  have fits: "step_fits (length D - e_pos E) (e_parser E) st"
    unfolding st_def using less.prems(2) by (intro on_byte_fits) simp
  have E2: "e_pos E2 = e_pos E + st_advance st" "p_state (e_parser E2) = p_state (st_parser st)"
    "e_marks E2 = step_marks st (e_pos E) (e_marks E)"
    using perform_pos [of S D "st_action st" "apply_step st E"] perform_state [of S D "st_action st" "apply_step st E"]
      perform_marks [of S D st E] p by simp_all
  have pos: "e_pos E2 < length D" using fits less.prems(2) unfolding E2 step_fits_def by linarith
  have ok: "p_errno (st_parser st) = HPE_OK" using fits less.prems(3) by (simp add: step_fits_def)
  note run = run_byte_unfold [OF st_def p, simplified ok]
  have err: "error_step st" unfolding st_def by (rule on_byte_error)
  show ?case
  proof (cases "goes_on (st_control st)")
    case False
    then have "st_action st = No_callback" using fits by (auto simp: step_fits_def)
    then have "e_user E2 = e_user E" using p by (auto simp: perform_def apply_step_def set_mark_def Let_def split: option.splits)
    then show ?thesis
      using False \<open>st_action st = No_callback\<close> err less.prems(1) unfolding run
      by (cases "st_control st") (auto simp: flow_keeps_def left_def keeps_def set_errno_def error_step_def)
  next
    case True
    have inv: "I (p_state (e_parser E2)) (e_user E2)"
      using step_keeps [OF less.prems(1,2) st_def True] p E2 by simp
    have "marks_ok (p_state (e_parser E2)) (e_marks E2)"
      using on_byte_arm [of "e_parser E" strict "length D - e_pos E" ch] True less.prems(1)
      unfolding E2 arm_ok_def st_def [symmetric] keeps_def by blast
    then have k: "keeps I E2" using inv by (simp add: keeps_def)
    have noerr: "p_errno (e_parser E2) = HPE_OK" if "st_action st = No_callback" using that p ok by (auto simp: perform_def)
    have again: "flow_keeps I (run_byte strict S D ch E2)" if "st_control st = Reexecute" "p_errno (e_parser E2) = HPE_OK"
      using on_byte_reexec [of strict "length D - e_pos E" "e_parser E" ch] that k pos E2
      by (intro less.hyps) (simp_all add: st_def)
    show ?thesis
      using True k again inv noerr unfolding run
      by (cases "st_control st"; cases "p_errno (e_parser E2) = HPE_OK") (auto simp: flow_keeps_def left_def)
  qed
qed

lemma iterate_keeps:
  assumes "keeps I E" and "e_pos E < length D" and "p_errno (e_parser E) = HPE_OK"
  shows "flow_keeps I (iterate strict S D E)"
proof -
  let ?E = "E\<lparr>e_parser := (e_parser E)\<lparr>p_nread := Suc (p_nread (e_parser E))\<rparr>\<rparr>"
  have "flow_keeps I (run_byte strict S D ch ?E)" for ch using assms by (intro run_byte_keeps) (simp_all add: keeps_def)
  moreover have "flow_keeps I (run_byte strict S D ch E)" for ch using assms by (rule run_byte_keeps)
  ultimately show ?thesis using assms(1) by (auto simp: iterate_def Let_def flow_keeps_def left_def keeps_def set_errno_def syntax_error_def)
qed

lemma call_marks_keeps:
  "keeps I E \<Longrightarrow> I (p_state (e_parser E)) (e_user (call_marks S D ks E))
     \<and> p_state (e_parser (call_marks S D ks E)) = p_state (e_parser E)"
proof (induction ks arbitrary: E)
  case (Cons k ks)
  let ?E = "call_data S D k (e_pos E) E"
  have I: "I (p_state (e_parser E)) (e_user ?E)"
    using Cons.prems flush_keeps [of E k D "e_pos E"] by (cases "e_marks E k") (auto simp: call_data_def keeps_def)
  show ?case
  proof (cases "e_marks E k")
    case None
    then have "?E = E" by (simp add: call_data_def)
    then show ?thesis using Cons by (simp add: Let_def keeps_def)
  next
    case (Some m)
    have "e_marks E x = None" if "x \<noteq> k" for x
      using that Some Cons.prems marks_kind [of _ "e_marks E" k] marks_kind [of _ "e_marks E" x]
      unfolding keeps_def by (metis option.inject option.distinct(1))
    then have "e_marks ?E = (\<lambda>_. None)" by (auto simp: fun_eq_iff)
    moreover have "e_marks F = (\<lambda>_. None) \<Longrightarrow> call_marks S D ks F = F" for F :: "'u exec"
      by (induction ks) (auto simp: call_data_def Let_def)
    ultimately show ?thesis using I by (simp add: Let_def)
  qed
qed (simp add: keeps_def)

lemma exec_loop_keeps:
  "keeps I E \<Longrightarrow> p_errno (e_parser E) = HPE_OK \<Longrightarrow> exec_ok 0 E \<Longrightarrow> e_pos E \<le> length D \<Longrightarrow>
     exec_loop strict S D E = Some (n, E') \<Longrightarrow> left I (e_parser E') (e_user E')"
proof (induction "length D - e_pos E" arbitrary: E rule: less_induct)
  case less
  show ?case
  proof (cases "e_pos E < length D")
    case False
    then have "E' = call_marks S D [K_header_field, K_header_value, K_url, K_body] E"
      using less.prems(5) by (subst (asm) exec_loop.simps) (auto simp: finish_def Let_def split: if_splits)
    then show ?thesis using call_marks_keeps [OF less.prems(1)] unfolding left_def by metis
  next
    case True
    note k = iterate_keeps [OF less.prems(1) True less.prems(2)]
    have okE: "flow_ok D (iterate strict S D E)" by (rule iterate_ok [OF less.prems(3) True])
    show ?thesis
    proof (cases "iterate strict S D E")
      case (Next F)
      let ?F = "F\<lparr>e_pos := Suc (e_pos F)\<rparr>"
      have "exec_loop strict S D ?F = Some (n, E')" using less.prems(5) True Next by (subst (asm) exec_loop.simps) simp
      moreover have "exec_ok 0 ?F" "e_pos F < length D" "p_errno (e_parser F) = HPE_OK"
        using okE Next by (simp_all add: flow_ok_def exec_ok_def)
      moreover have "keeps I ?F" using k Next by (simp add: flow_keeps_def keeps_def)
      ultimately show ?thesis using less.hyps [of ?F] iterate_pos [OF Next] True by simp
    next
      case (Stop m F)
      then show ?thesis using k less.prems(5) True by (subst (asm) exec_loop.simps) (simp add: flow_keeps_def)
    next
      case Abort
      then show ?thesis using okE by (simp add: flow_ok_def)
    qed
  qed
qed

lemma execute_keeps:
  assumes "reusable P" and "left I P u" and "http_parser_execute strict S P u D = Some (n, P', u')"
  shows "left I P' u'"
proof -
  have start: "p_errno P = HPE_OK \<Longrightarrow> I (p_state P) u" using assms(2) by (simp add: left_def syntax_error_def)
  let ?E = "\<lparr>e_parser = P, e_user = u, e_pos = 0, e_marks = initial_marks (p_state P)\<rparr>"
  consider "p_errno P \<noteq> HPE_OK" | "p_errno P = HPE_OK" "D = []" | "p_errno P = HPE_OK" "D \<noteq> []" by blast
  then show ?thesis
  proof cases
    case 2
    then have "execute_eof S P u = (n, P', u')" using assms(3) by (simp add: http_parser_execute_def)
    then show ?thesis
      using 2 start eof_keeps [of "\<lparr>e_parser = P, e_user = u, e_pos = 0, e_marks = \<lambda>_. None\<rparr>"]
        callback_state(3) [of S N_message_complete "\<lparr>e_parser = P, e_user = u, e_pos = 0, e_marks = \<lambda>_. None\<rparr>"]
      by (auto simp: execute_eof_def left_def syntax_error_def Let_def split: if_splits)
  next
    case 3
    then obtain E' where "exec_loop strict S D ?E = Some (n, E')" "P' = e_parser E'" "u' = e_user E'"
      using assms(3) by (auto simp: http_parser_execute_def)
    moreover have "exec_ok 0 ?E" using assms(1) 3 by (simp add: exec_ok_def reusable_def initial_marks_ok)
    moreover have "keeps I ?E" using start 3 by (simp add: keeps_def initial_marks_ok)
    ultimately show ?thesis using exec_loop_keeps [of ?E D n E'] 3 by simp
  qed (use assms in \<open>auto simp: http_parser_execute_def\<close>)
qed

lemma session_keeps:
  "reusable P \<Longrightarrow> left I P u \<Longrightarrow> hp_session strict S evs (P, u) = Some (P', u') \<Longrightarrow> left I P' u'"
proof (induction evs arbitrary: P u)
  case (Cons ev evs)
  show ?case
  proof (cases ev)
    case (Feed D)
    obtain n Q v where x: "http_parser_execute strict S P u D = Some (n, Q, v)" "reusable Q"
      using http_parser_execute_ok [OF Cons.prems(1), of strict S u D] by metis
    then show ?thesis using Cons.IH [of Q v] execute_keeps [OF Cons.prems(1,2) x(1)] Cons.prems(3) Feed by simp
  next
    case (Pause b)
    show ?thesis
    proof (cases "p_errno P = HPE_OK \<or> p_errno P = HPE_PAUSED")
      case True
      then obtain Q where Q: "http_parser_pause b P = Some Q" "reusable Q" using pause_reusable [OF Cons.prems(1)] by blast
      have "I (p_state P) u"
        using Cons.prems(2) True unfolding left_def syntax_error_def by blast
      moreover have "p_state Q = p_state P" using Q(1) by (auto simp: http_parser_pause_def split: if_splits)
      ultimately have "left I Q u" unfolding left_def by metis
      then show ?thesis using Cons.IH [OF Q(2)] Cons.prems(3) Pause True Q(1) by simp
    next
      case False
      then show ?thesis using Cons.IH [OF Cons.prems(1,2)] Cons.prems(3) Pause by simp
    qed
  qed
qed simp

end

section \<open>A value follows a name\<close>

text \<open>The states in which a header value may be reported, or continued on the next line.\<close>

definition value_states :: "state set" where
  "value_states = {s_header_value_start, s_header_value, s_header_almost_done, s_header_value_lws}"

definition value_step :: "state \<Rightarrow> step \<Rightarrow> bool" where
  "value_step s st \<longleftrightarrow>
     (act_kind (st_action st) = Some K_header_value \<longrightarrow> s \<in> value_states)
   \<and> (goes_on (st_control st) \<longrightarrow> p_state (st_parser st) \<in> value_states \<longrightarrow>
        s \<in> value_states \<or> s = s_header_field \<and> st_action st = Data K_header_field)"

lemma value_step_simps [simp]:
  "s \<in> value_states \<Longrightarrow> value_step s st"
  "value_step s (leave P a (Error e)) \<longleftrightarrow> (act_kind a = Some K_header_value \<longrightarrow> s \<in> value_states)"
  "value_step s (leave P a Assert_fails) \<longleftrightarrow> (act_kind a = Some K_header_value \<longrightarrow> s \<in> value_states)"
  "value_step s (marking k st) = value_step s st" "value_step s (body_step n st) = value_step s st"
  "value_step s st \<Longrightarrow> value_step s (expect strict x ch P st)"
  "value_step s st \<Longrightarrow> value_step s (assert_chunked P st)"
  by (auto simp: value_step_def leave_def marking_def body_step_def expect_def assert_chunked_def act_kind_def)

lemma value_step_leave:
  "s \<notin> value_states \<Longrightarrow> goes_on c \<Longrightarrow> value_step s (leave P a c) \<longleftrightarrow>
     act_kind a \<noteq> Some K_header_value \<and> (p_state P \<in> value_states \<longrightarrow> s = s_header_field \<and> a = Data K_header_field)"
  by (auto simp: value_step_def leave_def)

lemma value_states_start [simp]: "start_state P \<notin> value_states" "new_message strict P \<notin> value_states"
  by (auto simp: start_state_def new_message_def value_states_def)

lemma parse_url_value: "parse_url_char strict s ch \<noteq> s_dead \<Longrightarrow> parse_url_char strict s ch \<notin> value_states"
  using parse_url_char_range [of strict s ch] by (auto simp: url_states_def value_states_def)

lemma header_field_char_state: "header_field_char ch c P = Some P1 \<Longrightarrow> p_state P1 = p_state P"
  by (cases "p_header_state P") (auto simp: header_field_char_def match_next_def Let_def)

lemma on_byte_value: "value_step (p_state P) (on_byte strict rem P ch)"
proof (cases "p_state P \<in> value_states")
  case False
  have url: "value_step s (url_next strict Q ch)" if "s \<notin> value_states" for s Q
    using that parse_url_value [of strict "p_state Q" ch] by (auto simp: url_next_def Let_def value_step_leave act_kind_def)
  have field: "value_step s_header_field (on_header_field strict P ch)" if "p_state P = s_header_field"
  proof (cases "header_field_char ch (token strict ch) P")
    case None
    then show ?thesis by (simp add: on_header_field_def Let_def value_step_leave value_states_def act_kind_def)
  next
    case (Some P1)
    have "p_state P1 = s_header_field" using header_field_char_state [OF Some] that by simp
    then show ?thesis using Some by (simp add: on_header_field_def Let_def value_step_leave value_states_def act_kind_def)
  qed
  have plain: "s \<in> value_states \<longleftrightarrow>
      s = s_header_value_start \<or> s = s_header_value \<or> s = s_header_almost_done \<or> s = s_header_value_lws" for s
    by (simp add: value_states_def)
  show ?thesis
    using False
    by (cases "p_state P")
      (simp_all add: on_byte_def value_step_leave url field act_kind_def message_done_def plain
        on_start_req_or_res_def on_start_req_def on_req_method_def on_spaces_before_url_def on_url_no_space_def
        on_url_def on_req_http_start_def on_req_minor_def on_req_line_almost_done_def response_line_defs
        on_header_field_start_def on_headers_almost_done_def on_headers_done_def on_body_identity_def
        on_body_identity_eof_def on_chunk_size_start_def on_chunk_size_def on_chunk_parameters_def
        on_chunk_size_almost_done_def on_chunk_data_def on_chunk_data_almost_done_def on_chunk_data_done_def
        take_body_def start_state_def new_message_def Let_def split: option.split)
qed simp

definition value_inv :: "state \<Rightarrow> 'a http_base_scheme parsing \<Rightarrow> bool" where
  "value_inv s ma \<longleftrightarrow> \<not> snd ma \<and> (s \<in> value_states \<longrightarrow> hlist (fst ma) \<noteq> [])"

text \<open>What the invariant needs of the callbacks: only a value without a name fails.\<close>

definition safe_callbacks :: "'a http_base_scheme parsing settings \<Rightarrow> bool" where
  "safe_callbacks S \<longleftrightarrow>
     (\<forall>k f P d ma. on_data S k = Some f \<longrightarrow>
        (k = K_header_value \<longrightarrow> hlist (fst ma) \<noteq> []) \<longrightarrow> snd (snd (snd (f P d ma))) = snd ma)
   \<and> (\<forall>k f P d ma. on_data S k = Some f \<longrightarrow> hlist (fst ma) \<noteq> [] \<or> k = K_header_field \<longrightarrow>
        hlist (fst (snd (snd (f P d ma)))) \<noteq> [])
   \<and> on_data S K_header_field \<noteq> None
   \<and> (\<forall>k f P ma. on_notify S k = Some f \<longrightarrow> snd (snd (snd (f P ma))) = snd ma \<and>
        (hlist (fst ma) \<noteq> [] \<longrightarrow> hlist (fst (snd (snd (f P ma)))) \<noteq> []))
   \<and> (\<forall>f P ma. on_headers_complete S = Some f \<longrightarrow> snd (snd (snd (f P ma))) = snd ma \<and>
        (hlist (fst ma) \<noteq> [] \<longrightarrow> hlist (fst (snd (snd (f P ma)))) \<noteq> []))"

lemma after_callback_user: "e_user (after_callback e r E) = snd (snd r)"
  by (cases r) (simp add: after_callback_def set_errno_def Let_def)

lemma safeD:
  assumes "safe_callbacks S"
  shows "on_data S k = Some f \<Longrightarrow> (k = K_header_value \<Longrightarrow> hlist (fst ma) \<noteq> []) \<Longrightarrow> snd (snd (snd (f P d ma))) = snd ma"
    and "on_data S k = Some f \<Longrightarrow> hlist (fst ma) \<noteq> [] \<or> k = K_header_field \<Longrightarrow> hlist (fst (snd (snd (f P d ma)))) \<noteq> []"
    and "on_data S K_header_field \<noteq> None"
    and "on_notify S j = Some g \<Longrightarrow> snd (snd (snd (g P ma))) = snd ma"
    and "on_notify S j = Some g \<Longrightarrow> hlist (fst ma) \<noteq> [] \<Longrightarrow> hlist (fst (snd (snd (g P ma)))) \<noteq> []"
    and "on_headers_complete S = Some g \<Longrightarrow> snd (snd (snd (g P ma))) = snd ma"
    and "on_headers_complete S = Some g \<Longrightarrow> hlist (fst ma) \<noteq> [] \<Longrightarrow> hlist (fst (snd (snd (g P ma)))) \<noteq> []"
  using assms unfolding safe_callbacks_def by blast+

lemma call_data_user:
  "e_user (call_data S D k hi E) =
     (case (e_marks E k, on_data S k) of
        (Some m, Some f) \<Rightarrow> snd (snd (f (e_parser E) (slice m hi D) (e_user E))) | _ \<Rightarrow> e_user E)"
  by (simp add: call_data_def after_callback_user Let_def split: option.split)

lemma call_notify_user:
  "e_user (call_notify S k E) = (case on_notify S k of None \<Rightarrow> e_user E | Some f \<Rightarrow> snd (snd (f (e_parser E) (e_user E))))"
  by (simp add: call_notify_def after_callback_user split: option.split)

lemma call_headers_user:
  "e_user (call_headers_complete S E) =
     (case on_headers_complete S of None \<Rightarrow> e_user E | Some f \<Rightarrow> snd (snd (f (e_parser E) (e_user E))))"
  by (simp add: call_headers_complete_def after_callback_user Let_def split: option.split prod.split)

lemma data_safe:
  assumes "safe_callbacks S" and "k = K_header_value \<Longrightarrow> hlist (fst (e_user E)) \<noteq> []"
  shows "snd (e_user (call_data S D k hi E)) = snd (e_user E)"
    and "hlist (fst (e_user E)) \<noteq> [] \<Longrightarrow> hlist (fst (e_user (call_data S D k hi E))) \<noteq> []"
    and "k = K_header_field \<Longrightarrow> e_marks E k \<noteq> None \<Longrightarrow> hlist (fst (e_user (call_data S D k hi E))) \<noteq> []"
  using safeD(1) [OF assms(1), of k _ "e_user E"] safeD(2) [OF assms(1), of k _ "e_user E"] safeD(3) [OF assms(1)] assms(2)
  unfolding call_data_user by (auto split: option.splits)

lemma perform_safe:
  assumes "safe_callbacks S" and "act_kind a = Some K_header_value \<Longrightarrow> hlist (fst (e_user E)) \<noteq> []"
  shows "snd (e_user (fst (perform S D a E))) = snd (e_user E)"
    and "hlist (fst (e_user E)) \<noteq> [] \<Longrightarrow> hlist (fst (e_user (fst (perform S D a E)))) \<noteq> []"
    and "a = Data K_header_field \<Longrightarrow> e_marks E K_header_field \<noteq> None \<Longrightarrow> hlist (fst (e_user (fst (perform S D a E)))) \<noteq> []"
proof -
  have n: "snd (e_user (call_notify S k E)) = snd (e_user E)" "hlist (fst (e_user E)) \<noteq> [] \<Longrightarrow> hlist (fst (e_user (call_notify S k E))) \<noteq> []"
    "snd (e_user (call_headers_complete S E)) = snd (e_user E)"
    "hlist (fst (e_user E)) \<noteq> [] \<Longrightarrow> hlist (fst (e_user (call_headers_complete S E))) \<noteq> []" for k
    using safeD(4-7) [OF assms(1), where ma = "e_user E"]
    unfolding call_notify_user call_headers_user by (auto split: option.splits)
  show "snd (e_user (fst (perform S D a E))) = snd (e_user E)"
    "hlist (fst (e_user E)) \<noteq> [] \<Longrightarrow> hlist (fst (e_user (fst (perform S D a E)))) \<noteq> []"
    "a = Data K_header_field \<Longrightarrow> e_marks E K_header_field \<noteq> None \<Longrightarrow> hlist (fst (e_user (fst (perform S D a E)))) \<noteq> []"
    using data_safe [OF assms(1), where E = E and D = D] assms(2) n
    by (cases a; auto simp: perform_def act_kind_def)+
qed

lemma apply_step_user [simp]: "e_user (apply_step st E) = e_user E"
  by (simp add: apply_step_def set_mark_def Let_def split: option.split)

lemma apply_step_mark: "e_marks E k \<noteq> None \<Longrightarrow> e_marks (apply_step st E) k \<noteq> None"
  by (auto simp: apply_step_def set_mark_def Let_def split: option.split)

lemma value_inv_kept:
  assumes "safe_callbacks S" shows "message_invariant strict S value_inv"
proof
  fix E :: "'a http_base_scheme parsing exec" and D :: string and st ch
  assume k: "keeps value_inv E" and pos: "e_pos E < length D" and go: "goes_on (st_control st)"
    and st: "st = on_byte strict (length D - e_pos E) (e_parser E) ch"
  let ?F = "apply_step st E"
  have v: "value_step (p_state (e_parser E)) st" unfolding st by (rule on_byte_value)
  have inv: "\<not> snd (e_user E)" "p_state (e_parser E) \<in> value_states \<Longrightarrow> hlist (fst (e_user E)) \<noteq> []"
    using k by (simp_all add: keeps_def value_inv_def)
  have "p_state (e_parser E) = s_header_field \<Longrightarrow> e_marks E K_header_field \<noteq> None"
    using k by (simp add: keeps_def marks_ok_def)
  then show "value_inv (p_state (st_parser st)) (e_user (fst (perform S D (st_action st) ?F)))"
    using perform_safe [OF assms, of "st_action st" ?F D] v inv go apply_step_mark [of E K_header_field st]
    unfolding value_inv_def value_step_def by fastforce
next
  fix E :: "'a http_base_scheme parsing exec" and k and D :: string and hi
  assume a: "keeps value_inv E" "e_marks E k \<noteq> None"
  then have "k = K_header_value \<Longrightarrow> p_state (e_parser E) \<in> value_states" by (auto simp: keeps_def marks_ok_def value_states_def)
  then show "value_inv (p_state (e_parser E)) (e_user (call_data S D k hi E))"
    using data_safe [OF assms, of k E D hi] a unfolding keeps_def value_inv_def by blast
next
  fix E :: "'a http_base_scheme parsing exec"
  assume "value_inv s_body_identity_eof (e_user E)"
  then show "value_inv s_body_identity_eof (e_user (call_notify S N_message_complete E))"
    using perform_safe(1) [OF assms, of "Notify N_message_complete" E] by (simp add: value_inv_def perform_def act_kind_def value_states_def)
qed

lemma request_safe: "safe_callbacks request_settings"
  by (auto simp: safe_callbacks_def request_settings_def request_put_def base_put_def parse_field_def parse_value_def
      append_last_def on_message_complete_def request_on_headers_complete_def Let_def
      split: data_kind.splits prod.splits option.splits if_splits)

lemma response_safe: "safe_callbacks response_settings"
  by (auto simp: safe_callbacks_def response_settings_def base_put_def parse_field_def parse_value_def
      append_last_def on_message_complete_def response_on_headers_complete_def Let_def
      split: data_kind.splits prod.splits option.splits if_splits)

interpretation req_inv: message_invariant strict request_settings value_inv
  by (rule value_inv_kept [OF request_safe])

interpretation resp_inv: message_invariant strict response_settings value_inv
  by (rule value_inv_kept [OF response_safe])

lemma fresh_left: "left value_inv (http_parser_init t) (m, False)"
  by (auto simp: left_def value_inv_def http_parser_init_def value_states_def)

text \<open>
  The assertion in \<open>http_header_parse::value\<close>, that a header value is only reported
  after a name, never fails.  Whatever bytes are fed in whatever buffers to the parser of a
  request or a response, with pauses between them, every call returns and the header list
  is not empty when a value arrives.
\<close>

theorem header_value_has_name:
  "(\<exists>P m'. hp_session False request_settings evs (http_parser_init HTTP_REQUEST, m, False) = Some (P, m', False))
   \<and> (\<exists>P r'. hp_session False response_settings evs (http_parser_init HTTP_RESPONSE, r, False) = Some (P, r', False))"
proof
  obtain P ma where s: "hp_session False request_settings evs (http_parser_init HTTP_REQUEST, m, False) = Some (P, ma)"
    using session_reusable [of "(http_parser_init HTTP_REQUEST, m, False)" False request_settings evs] init_reusable by auto
  have "left value_inv P ma" by (rule req_inv.session_keeps [OF init_reusable fresh_left s])
  then show "\<exists>P m'. hp_session False request_settings evs (http_parser_init HTTP_REQUEST, m, False) = Some (P, m', False)"
    using s by (cases ma) (auto simp: left_def value_inv_def)
next
  obtain P ra where s: "hp_session False response_settings evs (http_parser_init HTTP_RESPONSE, r, False) = Some (P, ra)"
    using session_reusable [of "(http_parser_init HTTP_RESPONSE, r, False)" False response_settings evs] init_reusable by auto
  have "left value_inv P ra" by (rule resp_inv.session_keeps [OF init_reusable fresh_left s])
  then show "\<exists>P r'. hp_session False response_settings evs (http_parser_init HTTP_RESPONSE, r, False) = Some (P, r', False)"
    using s by (cases ra) (auto simp: left_def value_inv_def)
qed

end
