(* ===== verification/Simulation.thy ===== *)
theory Simulation
  imports Ten_Prelude
begin

text \<open>
  Functional refinement of a component by its specification, stated once.  A component has a
  state with an invariant, and operations that answer and change the state; its specification
  has the same operations on an abstract state.  When one operation refines its specification,
  so does any sequence of operations, answers included.
\<close>

fun session :: "('op \<Rightarrow> 's \<Rightarrow> 'a \<times> 's) \<Rightarrow> 'op list \<Rightarrow> 's \<Rightarrow> 'a list \<times> 's" where
  "session f [] s = ([], s)"
| "session f (x # xs) s = (let (a, s1) = f x s; (as, s2) = session f xs s1 in (a # as, s2))"

lemma session_append:
  "session f (xs @ ys) s = (let (as, s1) = session f xs s; (bs, s2) = session f ys s1 in (as @ bs, s2))"
  by (induction xs arbitrary: s) (auto simp: Let_def split: prod.splits)

locale refinement =
  fixes ok :: "'s \<Rightarrow> bool"
    and abs :: "'s \<Rightarrow> 't"
    and step :: "'op \<Rightarrow> 's \<Rightarrow> 'a \<times> 's"
    and spec :: "'op \<Rightarrow> 't \<Rightarrow> 'a \<times> 't"
  assumes sim_ok: "ok s \<Longrightarrow> ok (snd (step x s))"
    and sim_step: "ok s \<Longrightarrow> spec x (abs s) = map_prod id abs (step x s)"
begin

lemma sim_session_ok: "ok s \<Longrightarrow> ok (snd (session step xs s))"
proof (induction xs arbitrary: s)
  case (Cons x xs)
  then show ?case using sim_ok [OF Cons.prems, of x] Cons.IH by (auto simp: Let_def split_beta)
qed simp

lemma sim_session: "ok s \<Longrightarrow> session spec xs (abs s) = map_prod id abs (session step xs s)"
proof (induction xs arbitrary: s)
  case (Cons x xs)
  obtain a t where s: "step x s = (a, t)" by (cases "step x s")
  then have "ok t" "spec x (abs s) = (a, abs t)" using sim_ok [OF Cons.prems, of x] sim_step [OF Cons.prems, of x] by simp_all
  with Cons.IH [of t] s show ?case by (simp add: Let_def split_beta)
qed simp

lemma sim_answers: "ok s \<Longrightarrow> fst (session step xs s) = fst (session spec xs (abs s))"
  by (simp add: sim_session)

end

end
