(* ===== verification/Lru.thy ===== *)
theory Lru
  imports Simulation
begin

text \<open>
  \<open>lru\<close> of \<open>include/ten/lru.hh\<close>: a bounded map that drops the least recently used entry.

  The list of entries and the map from keys to list iterators are modelled as the code has
  them: an iterator is the identity of a list node, which a move to the front changes.  The
  specification is an association list ordered by use.  The model implements it with one
  difference, which the lemmas make exact: \<open>erase\<close> does not give its place back, so the
  capacity shrinks by one with every entry erased.
\<close>

section \<open>Model\<close>

record ('k, 'v) lru =
  l_list :: "(nat \<times> 'k \<times> 'v) list"
  l_map :: "'k \<Rightarrow> nat option"
  l_entries :: nat
  l_limit :: nat
  l_next :: nat

definition lru_new :: "nat \<Rightarrow> ('k, 'v) lru" where
  "lru_new limit = \<lparr>l_list = [], l_map = (\<lambda>_. None), l_entries = 0, l_limit = limit, l_next = 0\<rparr>"

definition push_front :: "'k \<Rightarrow> 'v \<Rightarrow> ('k, 'v) lru \<Rightarrow> ('k, 'v) lru" where
  "push_front k v l = l\<lparr>l_list := (l_next l, k, v) # l_list l, l_next := Suc (l_next l)\<rparr>"

definition erase_node :: "nat \<Rightarrow> ('k, 'v) lru \<Rightarrow> ('k, 'v) lru" where
  "erase_node i l = l\<lparr>l_list := filter (\<lambda>n. fst n \<noteq> i) (l_list l)\<rparr>"

text \<open>The entry found, or \<open>end()\<close>.\<close>

definition lru_find :: "'k \<Rightarrow> ('k, 'v) lru \<Rightarrow> ('k \<times> 'v) option \<times> ('k, 'v) lru" where
  "lru_find k l =
     (case l_map l k of
        None \<Rightarrow> (None, l)
      | Some old \<Rightarrow>
          (case List.find (\<lambda>n. fst n = old) (l_list l) of
             None \<Rightarrow> (None, l)
           | Some (_, k', v) \<Rightarrow>
               let l1 = push_front k' v l; l2 = l1\<lparr>l_map := (l_map l1)(k := Some (l_next l))\<rparr>
               in (Some (k', v), erase_node old l2)))"

definition lru_insert :: "'k \<Rightarrow> 'v \<Rightarrow> ('k, 'v) lru \<Rightarrow> bool \<times> ('k, 'v) lru" where
  "lru_insert k v l =
     (let l1 = push_front k v l
      in case l_map l1 k of
           None \<Rightarrow>
             (let l2 = l1\<lparr>l_map := (l_map l1)(k := Some (l_next l))\<rparr>
              in if l_entries l2 \<ge> l_limit l2
                 then (True, l2\<lparr>l_map := (l_map l2)(fst (snd (last (l_list l2))) := None), l_list := butlast (l_list l2)\<rparr>)
                 else (True, l2\<lparr>l_entries := Suc (l_entries l2)\<rparr>))
         | Some old \<Rightarrow> (False, erase_node old (l1\<lparr>l_map := (l_map l1)(k := Some (l_next l))\<rparr>)))"

definition lru_erase :: "'k \<Rightarrow> ('k, 'v) lru \<Rightarrow> nat \<times> ('k, 'v) lru" where
  "lru_erase k l =
     (case l_map l k of
        None \<Rightarrow> (0, l)
      | Some i \<Rightarrow> (1, (erase_node i l)\<lparr>l_map := (l_map l)(k := None)\<rparr>))"

definition lru_capacity :: "('k, 'v) lru \<Rightarrow> nat" where
  "lru_capacity l = l_limit l"

definition lru_size :: "('k, 'v) lru \<Rightarrow> nat" where
  "lru_size l = l_entries l"

section \<open>Invariant\<close>

definition lru_abs :: "('k, 'v) lru \<Rightarrow> ('k \<times> 'v) list" where
  "lru_abs l = map snd (l_list l)"

definition lost :: "('k, 'v) lru \<Rightarrow> nat" where
  "lost l = l_entries l - length (l_list l)"

definition lru_core :: "('k, 'v) lru \<Rightarrow> bool" where
  "lru_core l \<longleftrightarrow>
     distinct (map fst (l_list l)) \<and> distinct (map (fst \<circ> snd) (l_list l))
   \<and> (\<forall>k i. l_map l k = Some i \<longleftrightarrow> (\<exists>v. (i, k, v) \<in> set (l_list l)))
   \<and> (\<forall>n \<in> set (l_list l). fst n < l_next l)"

definition lru_ok :: "('k, 'v) lru \<Rightarrow> bool" where
  "lru_ok l \<longleftrightarrow> lru_core l \<and> length (l_list l) \<le> l_entries l \<and> l_entries l \<le> l_limit l"

definition without :: "'k \<Rightarrow> ('k \<times> 'v) list \<Rightarrow> ('k \<times> 'v) list" where
  "without k xs = filter (\<lambda>p. fst p \<noteq> k) xs"

lemma lru_new_ok: "lru_ok (lru_new limit)"
  by (simp add: lru_ok_def lru_core_def lru_new_def)

lemma lru_coreD:
  assumes "lru_core l"
  shows "distinct (map fst (l_list l))" and "distinct (map (fst \<circ> snd) (l_list l))"
    and "\<And>k i. l_map l k = Some i \<longleftrightarrow> (\<exists>v. (i, k, v) \<in> set (l_list l))"
    and "\<And>n. n \<in> set (l_list l) \<Longrightarrow> fst n < l_next l"
  using assms by (simp_all add: lru_core_def)

lemma lru_map_None:
  assumes "lru_core l"
  shows "l_map l k = None \<longleftrightarrow> k \<notin> fst ` set (lru_abs l)"
proof -
  have "l_map l k = None \<longleftrightarrow> \<not> (\<exists>i v. (i, k, v) \<in> set (l_list l))"
    using lru_coreD(3) [OF assms, of k] by (metis not_None_eq)
  then show ?thesis by (auto simp: lru_abs_def image_iff)
qed

lemma keys_inj:
  assumes "distinct (map (fst \<circ> snd) xs)" and "(i, k, v) \<in> set xs" and "(j, k, w) \<in> set xs"
  shows "i = j \<and> v = w"
  using assms inj_onD [of "fst \<circ> snd" "set xs" "(i, k, v)" "(j, k, w)"] by (simp add: distinct_map)

lemma ids_inj:
  assumes "distinct (map fst xs)" and "(i, p) \<in> set xs" and "(i, q) \<in> set xs"
  shows "p = q"
  using assms inj_onD [of fst "set xs" "(i, p)" "(i, q)"] by (simp add: distinct_map)

text \<open>Removing the node of a key removes the key.\<close>

lemma filter_node:
  assumes "distinct (map fst xs)" and "distinct (map (fst \<circ> snd) xs)" and "(i, k, v) \<in> set xs"
  shows "filter (\<lambda>n. fst n \<noteq> i) xs = filter (\<lambda>n. fst (snd n) \<noteq> k) xs"
proof (rule filter_cong [OF refl])
  fix n assume n: "n \<in> set xs"
  obtain j k' w where [simp]: "n = (j, k', w)" by (cases n)
  show "fst n \<noteq> i \<longleftrightarrow> fst (snd n) \<noteq> k"
    using ids_inj [OF assms(1), of i "(k, v)" "(k', w)"] keys_inj [OF assms(2), of j k w i v] n assms(3)
    by auto
qed

lemma map_snd_without: "map snd (filter (\<lambda>n. fst (snd n) \<noteq> k) xs) = without k (map snd xs)"
  by (simp add: without_def filter_map comp_def)

lemma without_id: "k \<notin> fst ` set xs \<Longrightarrow> without k xs = xs"
  by (auto simp: without_def filter_id_conv)

lemma length_without:
  "distinct (map fst xs) \<Longrightarrow> k \<in> fst ` set xs \<Longrightarrow> Suc (length (without k xs)) = length xs"
proof (induction xs)
  case (Cons x xs)
  show ?case
  proof (cases "fst x = k")
    case True
    then have "without k xs = xs" using Cons.prems(1) by (intro without_id) simp
    with True show ?thesis by (simp add: without_def)
  next
    case False
    then show ?thesis using Cons by (auto simp: without_def)
  qed
qed simp

lemma lru_drop:
  fixes l :: "('k, 'v) lru"
  assumes core: "lru_core l" and k: "l_map l k = Some i"
  defines "l' \<equiv> (erase_node i l)\<lparr>l_map := (l_map l)(k := None)\<rparr>"
  shows "lru_core l'" and "lru_abs l' = without k (lru_abs l)"
    and "Suc (length (l_list l')) = length (l_list l)"
proof -
  note D = lru_coreD [OF core]
  obtain v where v: "(i, k, v) \<in> set (l_list l)" using k D(3) by auto
  have l: "l_list l' = filter (\<lambda>n. fst (snd n) \<noteq> k) (l_list l)"
    using filter_node [OF D(1,2) v] by (simp add: l'_def erase_node_def)
  show "lru_core l'"
    using D by (auto simp: lru_core_def l distinct_map_filter) (auto simp: l'_def erase_node_def split: if_splits)
  show abs: "lru_abs l' = without k (lru_abs l)" by (simp add: lru_abs_def l map_snd_without)
  have "k \<in> fst ` set (lru_abs l)" using v by (force simp: lru_abs_def image_iff)
  then have "Suc (length (without k (lru_abs l))) = length (lru_abs l)"
    using D(2) by (intro length_without) (simp_all add: lru_abs_def)
  then show "Suc (length (l_list l')) = length (l_list l)"
    using arg_cong [OF abs, of length] by (simp add: lru_abs_def)
qed

lemma lru_add:
  fixes l :: "('k, 'v) lru" and v
  assumes core: "lru_core l" and k: "l_map l k = None"
  defines "l' \<equiv> (push_front k v l)\<lparr>l_map := (l_map l)(k := Some (l_next l))\<rparr>"
  shows "lru_core l'" and "lru_abs l' = (k, v) # lru_abs l" and "l_list l' = (l_next l, k, v) # l_list l"
proof -
  note D = lru_coreD [OF core]
  have fresh: "(l_next l, p) \<notin> set (l_list l)" "(i, k, w) \<notin> set (l_list l)" for p i w
    using D(4) [of "(l_next l, p)"] D(3) [of k i] k by auto
  show l: "l_list l' = (l_next l, k, v) # l_list l" by (simp add: l'_def push_front_def)
  show "lru_core l'"
    unfolding lru_core_def
  proof (intro conjI allI ballI)
    show "distinct (map fst (l_list l'))" using D(1) fresh(1) by (auto simp: l)
    show "distinct (map (fst \<circ> snd) (l_list l'))" using D(2) fresh(2) by (auto simp: l)
    show "l_map l' k' = Some i \<longleftrightarrow> (\<exists>v. (i, k', v) \<in> set (l_list l'))" for k' i
      using D(3) [of k' i] fresh by (cases "k' = k") (auto simp: l, auto simp: l'_def)
    show "fst n < l_next l'" if "n \<in> set (l_list l')" for n
      using that D(4) [of n] by (auto simp: l) (auto simp: l'_def push_front_def)
  qed
  show "lru_abs l' = (k, v) # lru_abs l" by (simp add: lru_abs_def l)
qed

text \<open>\<open>find\<close> and an \<open>insert\<close> of a known key both move the entry to the front.\<close>

lemma lru_move:
  fixes l :: "('k, 'v) lru" and v
  assumes core: "lru_core l" and k: "l_map l k = Some old"
  defines "l' \<equiv> erase_node old ((push_front k v l)\<lparr>l_map := (l_map (push_front k v l))(k := Some (l_next l))\<rparr>)"
  shows "lru_core l'" and "lru_abs l' = (k, v) # without k (lru_abs l)"
    and "length (l_list l') = length (l_list l)"
proof -
  define d where "d = (erase_node old l)\<lparr>l_map := (l_map l)(k := None)\<rparr>"
  note drop = lru_drop [OF core k, folded d_def]
  have "old < l_next l" using lru_coreD(3,4) [OF core] k by fastforce
  then have l': "l' = (push_front k v d)\<lparr>l_map := (l_map d)(k := Some (l_next d))\<rparr>"
    by (simp add: l'_def d_def push_front_def erase_node_def)
  have "l_map d k = None" by (simp add: d_def)
  note add = lru_add [OF drop(1) this, of v, folded l']
  show "lru_core l'" "lru_abs l' = (k, v) # without k (lru_abs l)" using add drop by simp_all
  show "length (l_list l') = length (l_list l)" using add(3) drop(3) by simp
qed

lemma find_id:
  "distinct (map fst xs) \<Longrightarrow> (i, p) \<in> set xs \<Longrightarrow> List.find (\<lambda>n. fst n = i) xs = Some (i, p)"
  by (induction xs) (auto intro: rev_image_eqI)

lemma find_node:
  "lru_core l \<Longrightarrow> (i, k, v) \<in> set (l_list l) \<Longrightarrow> List.find (\<lambda>n. fst n = i) (l_list l) = Some (i, k, v)"
  by (simp add: find_id lru_coreD(1))

lemma map_of_abs:
  assumes "lru_core l"
  shows "map_of (lru_abs l) k = (case l_map l k of None \<Rightarrow> None | Some i \<Rightarrow> Some (snd (snd (the (List.find (\<lambda>n. fst n = i) (l_list l))))))"
proof (cases "l_map l k")
  case None
  then have "k \<notin> fst ` set (lru_abs l)" using lru_map_None [OF assms, of k] by simp
  with None show ?thesis by (simp add: map_of_eq_None_iff)
next
  case (Some i)
  then obtain v where v: "(i, k, v) \<in> set (l_list l)" using lru_coreD(3) [OF assms] by auto
  have "distinct (map fst (lru_abs l))" using lru_coreD(2) [OF assms] by (simp add: lru_abs_def)
  moreover have "(k, v) \<in> set (lru_abs l)" using v by (force simp: lru_abs_def)
  ultimately show ?thesis using Some find_node [OF assms v] by simp
qed

lemma butlast_node:
  "distinct (map fst xs) \<Longrightarrow> xs \<noteq> [] \<Longrightarrow> butlast xs = filter (\<lambda>n. fst n \<noteq> fst (last xs)) xs"
proof (induction xs rule: rev_induct)
  case (snoc x xs)
  have "fst n \<noteq> fst x" if "n \<in> set xs" for n using snoc.prems(1) that by (auto simp: image_iff)
  then have "filter (\<lambda>n. fst n \<noteq> fst x) xs = xs" by (simp add: filter_id_conv)
  then show ?case by simp
qed simp

section \<open>Refinement\<close>

text \<open>
  The specification: the entries in order of use and the number of places.  Places are lost by
  \<open>erase\<close> only.
\<close>

definition cap :: "('k, 'v) lru \<Rightarrow> nat" where
  "cap l = l_limit l - lost l"

definition lru_spec :: "('k, 'v) lru \<Rightarrow> nat \<times> ('k \<times> 'v) list" where
  "lru_spec l = (cap l, lru_abs l)"

definition spec_find :: "'k \<Rightarrow> nat \<times> ('k \<times> 'v) list \<Rightarrow> ('k \<times> 'v) option \<times> nat \<times> ('k \<times> 'v) list" where
  "spec_find k = (\<lambda>(n, xs). case map_of xs k of None \<Rightarrow> (None, n, xs) | Some v \<Rightarrow> (Some (k, v), n, (k, v) # without k xs))"

definition spec_insert :: "'k \<Rightarrow> 'v \<Rightarrow> nat \<times> ('k \<times> 'v) list \<Rightarrow> bool \<times> nat \<times> ('k \<times> 'v) list" where
  "spec_insert k v = (\<lambda>(n, xs). (k \<notin> fst ` set xs, n, take n ((k, v) # without k xs)))"

definition spec_erase :: "'k \<Rightarrow> nat \<times> ('k \<times> 'v) list \<Rightarrow> nat \<times> nat \<times> ('k \<times> 'v) list" where
  "spec_erase k = (\<lambda>(n, xs). if k \<in> fst ` set xs then (1, n - 1, without k xs) else (0, n, xs))"

lemma lru_bounds:
  assumes "lru_ok l"
  shows "length (lru_abs l) \<le> cap l" "cap l \<le> l_limit l"
  using assms by (auto simp: lru_ok_def cap_def lost_def lru_abs_def)

lemma find_refines:
  assumes ok: "lru_ok l"
  shows "lru_ok (snd (lru_find k l))" and "spec_find k (lru_spec l) = map_prod id lru_spec (lru_find k l)"
proof -
  have core: "lru_core l" using ok by (simp add: lru_ok_def)
  have "lru_ok (snd (lru_find k l)) \<and> spec_find k (lru_spec l) = map_prod id lru_spec (lru_find k l)"
  proof (cases "l_map l k")
    case None
    then show ?thesis using ok map_of_abs [OF core, of k] by (simp add: lru_find_def spec_find_def lru_spec_def)
  next
    case (Some i)
    then obtain v where v: "(i, k, v) \<in> set (l_list l)" using lru_coreD(3) [OF core] by auto
    have m: "map_of (lru_abs l) k = Some v" using map_of_abs [OF core, of k] Some find_node [OF core v] by simp
    define l' where "l' = erase_node i ((push_front k v l)\<lparr>l_map := (l_map (push_front k v l))(k := Some (l_next l))\<rparr>)"
    have f: "lru_find k l = (Some (k, v), l')"
      using Some find_node [OF core v] by (simp add: lru_find_def l'_def Let_def)
    note move = lru_move [OF core Some, of v, folded l'_def]
    have "l_entries l' = l_entries l" "l_limit l' = l_limit l"
      by (simp_all add: l'_def push_front_def erase_node_def)
    with move ok show ?thesis
      by (simp add: f m spec_find_def lru_spec_def cap_def lost_def lru_ok_def)
  qed
  then show "lru_ok (snd (lru_find k l))" and "spec_find k (lru_spec l) = map_prod id lru_spec (lru_find k l)"
    by simp_all
qed

lemma erase_refines:
  assumes ok: "lru_ok l"
  shows "lru_ok (snd (lru_erase k l))" and "spec_erase k (lru_spec l) = map_prod id lru_spec (lru_erase k l)"
proof -
  have core: "lru_core l" using ok by (simp add: lru_ok_def)
  have "lru_ok (snd (lru_erase k l)) \<and> spec_erase k (lru_spec l) = map_prod id lru_spec (lru_erase k l)"
  proof (cases "l_map l k")
    case None
    then show ?thesis
      using ok lru_map_None [OF core, of k] by (simp add: lru_erase_def spec_erase_def lru_spec_def)
  next
    case (Some i)
    then have k: "k \<in> fst ` set (lru_abs l)" using lru_map_None [OF core, of k] by auto
    define l' where "l' = (erase_node i l)\<lparr>l_map := (l_map l)(k := None)\<rparr>"
    have f: "lru_erase k l = (1, l')" using Some by (simp add: lru_erase_def l'_def)
    note drop = lru_drop [OF core Some, folded l'_def]
    have "l_entries l' = l_entries l" "l_limit l' = l_limit l" by (simp_all add: l'_def erase_node_def)
    with drop ok k show ?thesis
      by (auto simp: f spec_erase_def lru_spec_def cap_def lost_def lru_ok_def)
  qed
  then show "lru_ok (snd (lru_erase k l))" and "spec_erase k (lru_spec l) = map_prod id lru_spec (lru_erase k l)"
    by simp_all
qed

lemma lru_pop:
  fixes l :: "('k, 'v) lru"
  assumes core: "lru_core l" and ne: "l_list l \<noteq> []"
  defines "l' \<equiv> l\<lparr>l_map := (l_map l)(fst (snd (last (l_list l))) := None), l_list := butlast (l_list l)\<rparr>"
  shows "lru_core l'" and "lru_abs l' = butlast (lru_abs l)"
proof -
  obtain i k v where n: "last (l_list l) = (i, k, v)" by (cases "last (l_list l)")
  then have "(i, k, v) \<in> set (l_list l)" using last_in_set [OF ne] by simp
  then have k: "l_map l k = Some i" using lru_coreD(3) [OF core] by blast
  have "l' = (erase_node i l)\<lparr>l_map := (l_map l)(k := None)\<rparr>"
    using butlast_node [OF lru_coreD(1) [OF core] ne] by (simp add: l'_def n erase_node_def)
  then show "lru_core l'" using lru_drop(1) [OF core k] by simp
  show "lru_abs l' = butlast (lru_abs l)" by (simp add: l'_def lru_abs_def map_butlast)
qed

lemma insert_full:
  assumes ok: "lru_ok l" and None: "l_map l k = None" and full: "l_limit l \<le> l_entries l"
  shows "lru_ok (snd (lru_insert k v l)) \<and> spec_insert k v (lru_spec l) = map_prod id lru_spec (lru_insert k v l)"
proof -
  have core: "lru_core l" using ok by (simp add: lru_ok_def)
  have k: "k \<notin> fst ` set (lru_abs l)" using lru_map_None [OF core, of k] None by simp
  define l2 where "l2 = (push_front k v l)\<lparr>l_map := (l_map l)(k := Some (l_next l))\<rparr>"
  note add = lru_add [OF core None, of v, folded l2_def]
  have same: "l_entries l2 = l_entries l" "l_limit l2 = l_limit l" by (simp_all add: l2_def push_front_def)
  define l3 where "l3 = l2\<lparr>l_map := (l_map l2)(fst (snd (last (l_list l2))) := None), l_list := butlast (l_list l2)\<rparr>"
  have f: "lru_insert k v l = (True, l3)"
    using None full same by (simp add: lru_insert_def l3_def l2_def push_front_def)
  have ne: "l_list l2 \<noteq> []" using add(3) by simp
  note pop = lru_pop [OF add(1) ne, folded l3_def]
  have "cap l = length (lru_abs l)" using full ok by (simp add: cap_def lost_def lru_ok_def lru_abs_def)
  moreover have "l_entries l3 = l_entries l" "l_limit l3 = l_limit l" "length (l_list l3) = length (l_list l)"
    using same add(3) by (simp_all add: l3_def)
  ultimately show ?thesis using pop add(2) ok k
    by (simp add: f spec_insert_def lru_spec_def lru_ok_def cap_def lost_def without_id butlast_conv_take)
qed

lemma insert_room:
  assumes ok: "lru_ok l" and None: "l_map l k = None" and room: "l_entries l < l_limit l"
  shows "lru_ok (snd (lru_insert k v l)) \<and> spec_insert k v (lru_spec l) = map_prod id lru_spec (lru_insert k v l)"
proof -
  have core: "lru_core l" using ok by (simp add: lru_ok_def)
  have k: "k \<notin> fst ` set (lru_abs l)" using lru_map_None [OF core, of k] None by simp
  define l2 where "l2 = (push_front k v l)\<lparr>l_map := (l_map l)(k := Some (l_next l))\<rparr>"
  note add = lru_add [OF core None, of v, folded l2_def]
  have same: "l_entries l2 = l_entries l" "l_limit l2 = l_limit l" by (simp_all add: l2_def push_front_def)
  have f: "lru_insert k v l = (True, l2\<lparr>l_entries := Suc (l_entries l)\<rparr>)"
    using None room same by (simp add: lru_insert_def l2_def push_front_def)
  have "lru_core (l2\<lparr>l_entries := Suc (l_entries l)\<rparr>)" "lru_abs (l2\<lparr>l_entries := Suc (l_entries l)\<rparr>) = (k, v) # lru_abs l"
    using add by (simp_all add: lru_core_def lru_abs_def)
  moreover have "Suc (length (lru_abs l)) \<le> cap l"
    using room ok by (simp add: cap_def lost_def lru_ok_def lru_abs_def)
  ultimately show ?thesis using add(3) same ok k room
    by (simp add: f spec_insert_def lru_spec_def lru_ok_def cap_def lost_def without_id)
qed

lemma insert_known:
  assumes ok: "lru_ok l" and Some: "l_map l k = Some old"
  shows "lru_ok (snd (lru_insert k v l)) \<and> spec_insert k v (lru_spec l) = map_prod id lru_spec (lru_insert k v l)"
proof -
  have core: "lru_core l" using ok by (simp add: lru_ok_def)
  have k: "k \<in> fst ` set (lru_abs l)" using lru_map_None [OF core, of k] Some by auto
  define l' where "l' = erase_node old ((push_front k v l)\<lparr>l_map := (l_map (push_front k v l))(k := Some (l_next l))\<rparr>)"
  have f: "lru_insert k v l = (False, l')" using Some by (simp add: lru_insert_def l'_def push_front_def Let_def)
  note move = lru_move [OF core Some, of v, folded l'_def]
  have "l_entries l' = l_entries l" "l_limit l' = l_limit l"
    by (simp_all add: l'_def push_front_def erase_node_def)
  moreover have "length ((k, v) # without k (lru_abs l)) \<le> cap l"
    using arg_cong [OF move(2), of length] move(3) lru_bounds(1) [OF ok] by (simp add: lru_abs_def)
  ultimately show ?thesis using move ok k
    by (simp add: f spec_insert_def lru_spec_def lru_ok_def cap_def lost_def)
qed

lemma insert_refines:
  assumes "lru_ok l"
  shows "lru_ok (snd (lru_insert k v l))" and "spec_insert k v (lru_spec l) = map_prod id lru_spec (lru_insert k v l)"
  using insert_full [OF assms, of k v] insert_room [OF assms, of k v] insert_known [OF assms, of k]
  by (cases "l_map l k"; cases "l_entries l < l_limit l"; simp)+

section \<open>Sessions\<close>

datatype ('k, 'v) lru_op = Find 'k | Insert 'k 'v | Erase 'k

datatype ('k, 'v) lru_out = Found "('k \<times> 'v) option" | Inserted bool | Erased nat

fun lru_step :: "('k, 'v) lru_op \<Rightarrow> ('k, 'v) lru \<Rightarrow> ('k, 'v) lru_out \<times> ('k, 'v) lru" where
  "lru_step (Find k) l = map_prod Found id (lru_find k l)"
| "lru_step (Insert k v) l = map_prod Inserted id (lru_insert k v l)"
| "lru_step (Erase k) l = map_prod Erased id (lru_erase k l)"

fun spec_step :: "('k, 'v) lru_op \<Rightarrow> nat \<times> ('k \<times> 'v) list \<Rightarrow> ('k, 'v) lru_out \<times> nat \<times> ('k \<times> 'v) list" where
  "spec_step (Find k) s = map_prod Found id (spec_find k s)"
| "spec_step (Insert k v) s = map_prod Inserted id (spec_insert k v s)"
| "spec_step (Erase k) s = map_prod Erased id (spec_erase k s)"

interpretation cache: refinement lru_ok lru_spec lru_step spec_step
proof
  fix l :: "('k, 'v) lru" and c :: "('k, 'v) lru_op"
  assume ok: "lru_ok l"
  show "lru_ok (snd (lru_step c l))"
    using find_refines(1) [OF ok] insert_refines(1) [OF ok] erase_refines(1) [OF ok] by (cases c) simp_all
  show "spec_step c (lru_spec l) = map_prod id lru_spec (lru_step c l)"
    using find_refines(2) [OF ok] insert_refines(2) [OF ok] erase_refines(2) [OF ok]
    by (cases c) (simp_all add: prod.map_comp comp_def)
qed

lemma lru_spec_new [simp]: "lru_spec (lru_new n) = (n, [])"
  by (simp add: lru_spec_def cap_def lost_def lru_abs_def lru_new_def)

lemma step_limit: "l_limit (snd (lru_step c l)) = l_limit l"
  by (cases c) (simp_all add: lru_find_def lru_insert_def lru_erase_def push_front_def erase_node_def Let_def
      split: option.split)

lemma session_limit: "l_limit (snd (session lru_step cs l)) = l_limit l"
proof (induction cs arbitrary: l)
  case (Cons c cs)
  then show ?case using step_limit [of c l] by (auto simp: Let_def split: prod.splits) (metis snd_conv)
qed simp

lemma size_of_spec: "lru_ok l \<Longrightarrow> lru_size l = l_limit l - cap l + length (lru_abs l)"
  by (auto simp: lru_ok_def lru_size_def cap_def lost_def lru_abs_def)

lemma spec_cycles:
  "snd (session spec_step (concat (replicate m [Insert k v, Erase k])) (m + n, [])) = (n, [])"
proof (induction m)
  case (Suc m)
  then show ?case
    by (simp add: spec_insert_def spec_erase_def without_def Let_def split_beta)
qed simp

text \<open>
  C21: any sequence of \<open>find\<close>, \<open>insert\<close> and \<open>erase\<close> calls on a fresh cache of \<open>n\<close> places gives
  the answers of, and leaves the entries of, a list kept in order of use: \<open>find\<close> and \<open>insert\<close>
  put their entry first, an entry past the capacity is dropped from the end, and the map of
  iterators never dangles.  The capacity is \<open>n\<close> less the number of entries erased, and while no
  \<open>erase\<close> is called it is \<open>n\<close>.
\<close>

theorem lru_refines_list:
  "session spec_step cs (n, []) = map_prod id lru_spec (session lru_step cs (lru_new n))
   \<and> lru_ok (snd (session lru_step cs (lru_new n)))
   \<and> ((\<forall>k. Erase k \<notin> set cs) \<longrightarrow> cap (snd (session lru_step cs (lru_new n))) = n)"
proof -
  note ref = cache.sim_session [OF lru_new_ok, of cs n, simplified] cache.sim_session_ok [OF lru_new_ok, of cs n]
  have "(\<forall>k. Erase k \<notin> set cs) \<longrightarrow> fst (snd (session spec_step cs (n, xs))) = n" for xs :: "('a \<times> 'b) list"
  proof (induction cs arbitrary: xs)
    case (Cons c cs)
    then show ?case
      by (cases c) (auto simp: spec_find_def spec_insert_def Let_def split_beta split: option.splits)
  qed simp
  from this [of "[]"] ref show ?thesis by (auto simp: lru_spec_def)
qed

theorem lru_refines_list_witness:
  "let cs = [Insert (1::nat) ''a'', Insert 2 ''b'', Find 1, Insert 3 ''c'', Find 2]
   in (\<forall>k. Erase k \<notin> set cs)
     \<and> cap (snd (session lru_step cs (lru_new 2))) = 2
     \<and> map_prod id lru_spec (session lru_step cs (lru_new 2))
         = ([Inserted True, Inserted True, Found (Some (1, ''a'')), Inserted True, Found None], 2, [(3, ''c''), (1, ''a'')])"
  (is "let cs = ?cs in _")
proof -
  have "session spec_step ?cs (2, [])
      = ([Inserted True, Inserted True, Found (Some (1, ''a'')), Inserted True, Found None], 2, [(3, ''c''), (1, ''a'')])"
    by (simp add: spec_insert_def spec_find_def without_def numeral_2_eq_2)
  moreover have "\<forall>k. Erase k \<notin> set ?cs" by simp
  ultimately show ?thesis using lru_refines_list [of ?cs 2] unfolding Let_def by metis
qed

text \<open>
  \<open>erase\<close> does not give its place back: after an entry was inserted into and erased from a
  cache of \<open>n\<close> places \<open>n\<close> times, the empty cache reports \<open>n\<close> entries, and an entry inserted then
  is dropped by the same call, so that looking it up finds nothing.
\<close>

theorem lru_erase_loses_places:
  "(let l = snd (session lru_step (concat (replicate n [Insert k v, Erase k])) (lru_new n))
    in lru_abs l = [] \<and> lru_size l = n \<and> fst (lru_find k (snd (lru_insert k v l))) = None)"
proof -
  define l where "l = snd (session lru_step (concat (replicate n [Insert k v, Erase k])) (lru_new n))"
  have ok: "lru_ok l" and spec: "lru_spec l = (0, [])" and lim: "l_limit l = n"
    using cache.sim_session [OF lru_new_ok, of "concat (replicate n [Insert k v, Erase k])" n]
      cache.sim_session_ok [OF lru_new_ok, of "concat (replicate n [Insert k v, Erase k])" n]
      spec_cycles [of n k v 0] session_limit [of _ "lru_new n"]
    by (simp_all add: l_def) (simp add: lru_new_def)
  have abs: "lru_abs l = []" using spec by (simp add: lru_spec_def)
  have "cap l = 0" using spec by (simp add: lru_spec_def)
  then have "lru_size l = n" using size_of_spec [OF ok] abs lim by simp
  moreover have "lru_spec (snd (lru_insert k v l)) = (0, [])"
    using arg_cong [OF insert_refines(2) [OF ok, of k v], of snd] spec by (simp add: spec_insert_def)
  then have "fst (lru_find k (snd (lru_insert k v l))) = None"
    using arg_cong [OF find_refines(2) [OF insert_refines(1) [OF ok, of k v], of k], of fst] by (simp add: spec_find_def)
  ultimately show ?thesis using abs by (simp add: l_def Let_def)
qed

end
