(* ===== verification/Hash_Ring.thy ===== *)
theory Hash_Ring
  imports Decimal
begin

text \<open>
  \<open>hash_ring\<close> of \<open>include/ten/consistent_hash.hh\<close>: a consistent hash of data to nodes.

  The \<open>std::map\<close> from hashes to nodes is a list sorted by hash.  The text of a node and the two
  hash functions are parameters, collected with the template parameters in \<open>ring_cfg\<close>.  The
  lemmas say which node a datum is given to, by the distance around the ring of 64-bit hashes,
  and that a change of the set of nodes moves only the data it has to.
\<close>

section \<open>Model\<close>

record ('n, 'd) ring_cfg =
  show_node :: "'n \<Rightarrow> string"
  delimiter :: char
  replicas :: nat
  node_hash :: "string \<Rightarrow> u64"
  data_hash :: "'d \<Rightarrow> u64"

type_synonym 'n ring = "(u64 \<times> 'n) list"

text \<open>Assignment through \<open>operator[]\<close>, and \<open>erase\<close>, of a \<open>std::map\<close>.\<close>

fun map_put :: "'k::linorder \<Rightarrow> 'v \<Rightarrow> ('k \<times> 'v) list \<Rightarrow> ('k \<times> 'v) list" where
  "map_put k v [] = [(k, v)]"
| "map_put k v ((k', v') # xs) =
     (if k < k' then (k, v) # (k', v') # xs
      else if k = k' then (k, v) # xs
      else (k', v') # map_put k v xs)"

definition map_erase :: "'k \<Rightarrow> ('k \<times> 'v) list \<Rightarrow> nat \<times> ('k \<times> 'v) list" where
  "map_erase k xs = (if k \<in> fst ` set xs then 1 else 0, filter (\<lambda>p. fst p \<noteq> k) xs)"

definition ring_label :: "('n, 'd) ring_cfg \<Rightarrow> 'n \<Rightarrow> nat \<Rightarrow> string" where
  "ring_label cfg n r = show_node cfg n @ [delimiter cfg] @ decimal r"

definition ring_point :: "('n, 'd) ring_cfg \<Rightarrow> 'n \<Rightarrow> nat \<Rightarrow> u64" where
  "ring_point cfg n r = node_hash cfg (ring_label cfg n r)"

definition ring_add :: "('n, 'd) ring_cfg \<Rightarrow> 'n \<Rightarrow> 'n ring \<Rightarrow> 'n ring" where
  "ring_add cfg n ring = fold (\<lambda>r. map_put (ring_point cfg n r) n) [0..<replicas cfg] ring"

definition ring_remove :: "('n, 'd) ring_cfg \<Rightarrow> 'n \<Rightarrow> 'n ring \<Rightarrow> nat \<times> 'n ring" where
  "ring_remove cfg n ring =
     fold (\<lambda>r (removed, ring). let (k, ring') = map_erase (ring_point cfg n r) ring in (removed + k, ring'))
       [0..<replicas cfg] (0, ring)"

datatype ring_error = Empty_hash_ring

definition ring_get :: "('n, 'd) ring_cfg \<Rightarrow> 'd \<Rightarrow> 'n ring \<Rightarrow> ring_error + 'n" where
  "ring_get cfg d ring =
     (if ring = [] then Inl Empty_hash_ring
      else case dropWhile (\<lambda>p. fst p < data_hash cfg d) ring of
             p # _ \<Rightarrow> Inr (snd p)
           | [] \<Rightarrow> Inr (snd (hd ring)))"

definition ring_nodes :: "('n \<Rightarrow> string) \<Rightarrow> 'n ring \<Rightarrow> string set" where
  "ring_nodes str ring = (\<lambda>p. str (snd p)) ` set ring"

section \<open>The map\<close>

abbreviation sorted_map :: "('k::linorder \<times> 'v) list \<Rightarrow> bool" where
  "sorted_map xs \<equiv> sorted_wrt (<) (map fst xs)"

lemma set_map_put: "sorted_map xs \<Longrightarrow> set (map_put k v xs) = {p \<in> set xs. fst p \<noteq> k} \<union> {(k, v)}"
proof (induction k v xs rule: map_put.induct)
  case (2 k v k' v' xs)
  have "fst p \<noteq> k" if "p \<in> set xs" "k \<le> k'" for p using 2(2) that by auto
  then show ?case using 2 by auto
qed auto

lemma sorted_map_put: "sorted_map xs \<Longrightarrow> sorted_map (map_put k v xs)"
proof (induction k v xs rule: map_put.induct)
  case (2 k v k' v' xs)
  then show ?case using set_map_put [of xs k v] by auto
qed auto

lemma sorted_map_erase: "sorted_map xs \<Longrightarrow> sorted_map (filter P xs)"
  by (induction xs) auto

lemma sorted_map_inj: "sorted_map xs \<Longrightarrow> p \<in> set xs \<Longrightarrow> q \<in> set xs \<Longrightarrow> fst p = fst q \<Longrightarrow> p = q"
  by (induction xs) auto

section \<open>Points of the ring\<close>

definition points :: "('n, 'd) ring_cfg \<Rightarrow> 'n \<Rightarrow> u64 set" where
  "points cfg n = ring_point cfg n ` {..<replicas cfg}"

definition node_points :: "('n, 'd) ring_cfg \<Rightarrow> 'n set \<Rightarrow> (u64 \<times> 'n) set" where
  "node_points cfg S = {(p, n) | p n. n \<in> S \<and> p \<in> points cfg n}"

lemma fold_map_put:
  "sorted_map xs \<Longrightarrow>
     sorted_map (fold (\<lambda>r. map_put (f r) v) rs xs)
   \<and> set (fold (\<lambda>r. map_put (f r) v) rs xs) = {p \<in> set xs. fst p \<notin> f ` set rs} \<union> (\<lambda>r. (f r, v)) ` set rs"
proof (induction rs arbitrary: xs)
  case (Cons r rs)
  show ?case using Cons.IH [OF sorted_map_put [OF Cons.prems]] by (auto simp: set_map_put [OF Cons.prems])
qed simp

lemma ring_add_set:
  assumes "sorted_map ring"
  shows "sorted_map (ring_add cfg n ring)"
    and "set (ring_add cfg n ring) = {p \<in> set ring. fst p \<notin> points cfg n} \<union> node_points cfg {n}"
  using fold_map_put [OF assms, of "ring_point cfg n" n "[0..<replicas cfg]"]
  by (auto simp: ring_add_def points_def node_points_def lessThan_atLeast0)

lemma fold_erase:
  "snd (fold (\<lambda>r (removed, ring). let (k, ring') = map_erase (f r) ring in (removed + k, ring')) rs (m, xs))
     = filter (\<lambda>p. fst p \<notin> f ` set rs) xs"
  by (induction rs arbitrary: m xs) (auto simp: map_erase_def Let_def intro: filter_cong)

lemma ring_remove_list: "snd (ring_remove cfg n ring) = filter (\<lambda>p. fst p \<notin> points cfg n) ring"
  using fold_erase [of "ring_point cfg n" "[0..<replicas cfg]" 0 ring]
  by (simp add: ring_remove_def points_def lessThan_atLeast0)

text \<open>The labels of different replicas and nodes differ whenever the delimiter is not a digit.\<close>

lemma split_last_delim:
  assumes "xs @ [d] @ ys = xs' @ [d] @ ys'" and "d \<notin> set ys" and "d \<notin> set ys'"
  shows "xs = xs' \<and> ys = ys'"
  using assms by (auto simp: append_eq_append_conv2 append_eq_Cons_conv Cons_eq_append_conv)

lemma ring_label_inj:
  assumes "inj (show_node cfg)" and "\<not> is_digit (delimiter cfg)"
  shows "ring_label cfg m r = ring_label cfg n s \<longleftrightarrow> m = n \<and> r = s"
proof
  assume "ring_label cfg m r = ring_label cfg n s"
  moreover have "delimiter cfg \<notin> set (decimal r)" "delimiter cfg \<notin> set (decimal s)"
    using assms(2) decimal_digits by blast+
  ultimately show "m = n \<and> r = s"
    using split_last_delim [of "show_node cfg m" "delimiter cfg" "decimal r" "show_node cfg n" "decimal s"]
    by (simp add: ring_label_def decimal_inj inj_eq [OF assms(1)])
qed simp

section \<open>The nearest point\<close>

definition nearest :: "u64 \<Rightarrow> (u64 \<times> 'n) set \<Rightarrow> u64 \<times> 'n \<Rightarrow> bool" where
  "nearest h A p \<longleftrightarrow> p \<in> A \<and> (\<forall>q \<in> A. fst p - h \<le> fst q - h)"

lemma dist_le:
  fixes a b h :: u64
  shows "a - h \<le> b - h \<longleftrightarrow> (if h \<le> a then b < h \<or> a \<le> b else b < h \<and> a \<le> b)"
proof -
  have "unat a < 2 ^ 64" "unat b < 2 ^ 64" "unat h < 2 ^ 64"
    using unsigned_less [of a] unsigned_less [of b] unsigned_less [of h] by simp_all
  then show ?thesis by (auto simp: word_le_nat_alt word_less_nat_alt unat_sub_if')
qed

lemma nearest_unique:
  assumes "nearest h A p" and "nearest h A q" and "\<And>x y. x \<in> A \<Longrightarrow> y \<in> A \<Longrightarrow> fst x = fst y \<Longrightarrow> x = y"
  shows "p = q"
proof -
  have "fst p - h = fst q - h" using assms(1,2) by (simp add: nearest_def antisym)
  then show ?thesis using assms by (simp add: nearest_def)
qed

lemma ring_get_nearest_point:
  assumes "sorted_map ring" and "ring \<noteq> []"
  shows "\<exists>p. nearest (data_hash cfg d) (set ring) p \<and> ring_get cfg d ring = Inr (snd p)"
proof -
  define h where "h = data_hash cfg d"
  show ?thesis
  proof (cases "dropWhile (\<lambda>p. fst p < h) ring")
    case Nil
    then have below: "\<forall>p \<in> set ring. fst p < h" by (simp add: dropWhile_eq_Nil_conv)
    have "\<forall>p \<in> set ring. fst (hd ring) \<le> fst p" using assms by (cases ring) auto
    then have "nearest h (set ring) (hd ring)" using below assms(2) by (auto simp: nearest_def dist_le)
    moreover have "ring_get cfg d ring = Inr (snd (hd ring))"
      using Nil assms(2) by (simp add: ring_get_def h_def del: dropWhile_eq_Nil_conv)
    ultimately show ?thesis unfolding h_def by blast
  next
    case (Cons p ps)
    have split: "ring = takeWhile (\<lambda>p. fst p < h) ring @ p # ps" using takeWhile_dropWhile_id [of "\<lambda>p. fst p < h" ring] Cons by simp
    have ge: "h \<le> fst p" using Cons by (metis dropWhile_eq_Cons_conv not_less)
    have "sorted_map (takeWhile (\<lambda>p. fst p < h) ring @ p # ps)" using assms(1) split by simp
    then have le: "\<forall>q \<in> set (p # ps). fst p \<le> fst q" by (auto simp: sorted_wrt_append)
    have "fst q < h \<or> fst p \<le> fst q" if "q \<in> set ring" for q
      using that le split set_takeWhileD [of q "\<lambda>p. fst p < h" ring] by (metis Un_iff set_append)
    then have "nearest h (set ring) p" using ge split by (metis dist_le in_set_conv_decomp nearest_def)
    moreover have "ring_get cfg d ring = Inr (snd p)"
      using Cons assms(2) by (simp add: ring_get_def h_def)
    ultimately show ?thesis unfolding h_def by blast
  qed
qed

section \<open>Histories\<close>

datatype 'n ring_op = Add (op_node: 'n) | Remove (op_node: 'n)

fun ring_step :: "('n, 'd) ring_cfg \<Rightarrow> 'n ring_op \<Rightarrow> 'n ring \<Rightarrow> 'n ring" where
  "ring_step cfg (Add n) ring = ring_add cfg n ring"
| "ring_step cfg (Remove n) ring = snd (ring_remove cfg n ring)"

definition ring_run :: "('n, 'd) ring_cfg \<Rightarrow> 'n ring_op list \<Rightarrow> 'n ring" where
  "ring_run cfg ops = fold (ring_step cfg) ops []"

fun member_step :: "'n ring_op \<Rightarrow> 'n set \<Rightarrow> 'n set" where
  "member_step (Add n) S = insert n S"
| "member_step (Remove n) S = S - {n}"

definition ring_members :: "'n ring_op list \<Rightarrow> 'n set" where
  "ring_members ops = fold member_step ops {}"

text \<open>Two different nodes have no hash in common.\<close>

definition no_collisions :: "('n, 'd) ring_cfg \<Rightarrow> 'n set \<Rightarrow> bool" where
  "no_collisions cfg U \<longleftrightarrow> (\<forall>m \<in> U. \<forall>n \<in> U. m \<noteq> n \<longrightarrow> points cfg m \<inter> points cfg n = {})"

definition ring_of :: "('n, 'd) ring_cfg \<Rightarrow> 'n set \<Rightarrow> 'n ring \<Rightarrow> bool" where
  "ring_of cfg S ring \<longleftrightarrow> sorted_map ring \<and> set ring = node_points cfg S"

lemma ring_step_of:
  assumes "no_collisions cfg U" and "S \<subseteq> U" and "op_node x \<in> U" and "ring_of cfg S ring"
  shows "ring_of cfg (member_step x S) (ring_step cfg x ring)"
proof -
  define n where "n = op_node x"
  have sorted: "sorted_map ring" and S: "set ring = node_points cfg S" using assms(4) by (auto simp: ring_of_def)
  have "p \<in> points cfg n \<Longrightarrow> p \<in> points cfg m \<Longrightarrow> m \<in> S \<Longrightarrow> m = n" for m p
    using assms(1-3) unfolding no_collisions_def n_def by blast
  then have keep: "{p \<in> set ring. fst p \<notin> points cfg n} = node_points cfg (S - {n})"
    unfolding S by (auto simp: node_points_def)
  show ?thesis
  proof (cases x)
    case (Add n')
    then have [simp]: "n' = n" by (simp add: n_def)
    have "node_points cfg (S - {n}) \<union> node_points cfg {n} = node_points cfg (insert n S)"
      by (auto simp: node_points_def)
    then show ?thesis using ring_add_set [OF sorted, of cfg n] keep Add by (simp add: ring_of_def)
  next
    case (Remove n')
    then have [simp]: "n' = n" by (simp add: n_def)
    show ?thesis using Remove keep sorted by (simp add: ring_of_def ring_remove_list sorted_map_erase)
  qed
qed

lemma ring_fold_of:
  assumes "no_collisions cfg U" and "op_node ` set ops \<subseteq> U" and "S \<subseteq> U" and "ring_of cfg S ring"
  shows "ring_of cfg (fold member_step ops S) (fold (ring_step cfg) ops ring)"
  using assms(2-)
proof (induction ops arbitrary: S ring)
  case (Cons x ops)
  have "member_step x S \<subseteq> U" using Cons.prems by (cases x) auto
  moreover have "ring_of cfg (member_step x S) (ring_step cfg x ring)"
    using ring_step_of [OF assms(1) Cons.prems(2) _ Cons.prems(3), of x] Cons.prems(1) by simp
  ultimately show ?case using Cons by simp
qed simp

lemma ring_run_of:
  "no_collisions cfg U \<Longrightarrow> op_node ` set ops \<subseteq> U \<Longrightarrow> ring_of cfg (ring_members ops) (ring_run cfg ops)"
  using ring_fold_of [of cfg U ops "{}" "[]"] by (simp add: ring_run_def ring_members_def ring_of_def node_points_def)

lemma ring_of_get:
  assumes "ring_of cfg S ring"
  shows "case ring_get cfg d ring of
           Inl _ \<Rightarrow> node_points cfg S = {}
         | Inr n \<Rightarrow> \<exists>p. nearest (data_hash cfg d) (node_points cfg S) (p, n)"
proof (cases "ring = []")
  case True
  then show ?thesis using assms by (simp add: ring_of_def ring_get_def)
next
  case False
  then obtain p where "nearest (data_hash cfg d) (node_points cfg S) p" "ring_get cfg d ring = Inr (snd p)"
    using ring_get_nearest_point [of ring cfg d] assms by (auto simp: ring_of_def)
  then show ?thesis by (cases p) auto
qed

lemma ring_of_nearest:
  assumes "ring_of cfg S ring" and "nearest (data_hash cfg d) (node_points cfg S) (p, n)"
  shows "ring_get cfg d ring = Inr n"
proof -
  have "ring \<noteq> []" using assms by (auto simp: ring_of_def nearest_def)
  then obtain q where q: "nearest (data_hash cfg d) (node_points cfg S) q" "ring_get cfg d ring = Inr (snd q)"
    using ring_get_nearest_point [of ring cfg d] assms(1) by (auto simp: ring_of_def)
  have "q = (p, n)"
    using nearest_unique [OF q(1) assms(2)] sorted_map_inj [of ring] assms(1) by (simp add: ring_of_def)
  with q(2) show ?thesis by simp
qed

lemma nearest_mono: "nearest h B p \<Longrightarrow> p \<in> A \<Longrightarrow> A \<subseteq> B \<Longrightarrow> nearest h A p"
  by (auto simp: nearest_def)

lemma node_points_mono: "S \<subseteq> T \<Longrightarrow> node_points cfg S \<subseteq> node_points cfg T"
  by (auto simp: node_points_def)

text \<open>Between two sets of nodes, a datum of the larger ring whose node is in the smaller stays.\<close>

lemma ring_stays:
  assumes big: "ring_of cfg T ring'" and small: "ring_of cfg S ring" and "S \<subseteq> T"
    and n: "ring_get cfg d ring' = Inr n" "n \<in> S"
  shows "ring_get cfg d ring = Inr n"
proof -
  obtain p where p: "nearest (data_hash cfg d) (node_points cfg T) (p, n)"
    using ring_of_get [OF big, of d] n(1) by auto
  then have "(p, n) \<in> node_points cfg S" using n(2) by (auto simp: nearest_def node_points_def)
  then show ?thesis
    using ring_of_nearest [OF small nearest_mono [OF p _ node_points_mono [OF \<open>S \<subseteq> T\<close>]]] by simp
qed

text \<open>
  C22: after any history of added and removed nodes whose hashes do not collide, \<open>get\<close> gives a
  datum to the node that owns the first point at or after the hash of the datum, going round
  from the largest 64-bit hash to 0: the point at the least distance modulo 2^64.  It throws
  only when the nodes of the ring have no point at all.  The labels that are hashed are
  different for different nodes and replicas whenever the delimiter is not a digit and nodes
  print differently, also when the delimiter occurs in the text of a node.
\<close>

theorem ring_get_nearest:
  assumes "no_collisions cfg (op_node ` set ops)"
  shows "(case ring_get cfg d (ring_run cfg ops) of
            Inl _ \<Rightarrow> node_points cfg (ring_members ops) = {}
          | Inr n \<Rightarrow> \<exists>p. nearest (data_hash cfg d) (node_points cfg (ring_members ops)) (p, n))
       \<and> (inj (show_node cfg) \<and> \<not> is_digit (delimiter cfg) \<longrightarrow>
            (\<forall>m n r s. ring_label cfg m r = ring_label cfg n s \<longleftrightarrow> m = n \<and> r = s))"
  using ring_of_get [OF ring_run_of [OF assms subset_refl], of d] ring_label_inj [of cfg] by blast

text \<open>A ring of two nodes and two replicas, for examples.\<close>

definition two_nodes :: "(string, u64) ring_cfg" where
  "two_nodes = \<lparr>show_node = (\<lambda>s. s), delimiter = CHR ''$'', replicas = 2,
     node_hash = (\<lambda>s. (if hd s = CHR ''a'' then 10 else 20) + (if last s = CHR ''0'' then 0 else 100)),
     data_hash = (\<lambda>x. x)\<rparr>"

lemma two_nodes_ring [simp]:
  "ring_point two_nodes ''a'' 0 = 10" "ring_point two_nodes ''a'' 1 = 110"
  "ring_point two_nodes ''b'' 0 = 20" "ring_point two_nodes ''b'' 1 = 120"
  "[0..<replicas two_nodes] = [0, 1]" "data_hash two_nodes x = x"
proof -
  have "decimal 0 = ''0''" "decimal 1 = ''1''" by code_simp+
  then show "ring_point two_nodes ''a'' 0 = 10" "ring_point two_nodes ''a'' 1 = 110"
    "ring_point two_nodes ''b'' 0 = 20" "ring_point two_nodes ''b'' 1 = 120"
    by (simp_all add: ring_point_def ring_label_def two_nodes_def)
  show "[0..<replicas two_nodes] = [0, 1]" "data_hash two_nodes x = x" by (simp_all add: two_nodes_def upt_rec)
qed

lemma two_nodes_apart: "no_collisions two_nodes {''a'', ''b''}"
proof -
  have "{..<replicas two_nodes} = {0, 1}" by (auto simp: two_nodes_def)
  then have "points two_nodes ''a'' = {10, 110}" "points two_nodes ''b'' = {20, 120}"
    by (simp_all add: points_def del: One_nat_def)
  then show ?thesis by (auto simp: no_collisions_def)
qed

theorem ring_get_nearest_witness:
  "no_collisions two_nodes {''a'', ''b''}
   \<and> (\<exists>p. nearest 115 (node_points two_nodes {''a'', ''b''}) (p, ''b''))
   \<and> ring_label two_nodes ''a'' 1 \<noteq> ring_label two_nodes ''b'' 1"
proof -
  have n: "no_collisions two_nodes (op_node ` set [Add ''b'', Add ''a''])"
    using two_nodes_apart by (simp add: insert_commute)
  have "ring_get two_nodes 115 (ring_run two_nodes [Add ''b'', Add ''a'']) = Inr ''b''"
    by (simp add: ring_run_def ring_add_def ring_get_def del: One_nat_def)
  then have "\<exists>p. nearest 115 (node_points two_nodes {''a'', ''b''}) (p, ''b'')"
    using ring_get_nearest [OF n, of 115] by (simp add: ring_members_def)
  moreover have "inj (show_node two_nodes)" "\<not> is_digit (delimiter two_nodes)"
    by (simp_all add: two_nodes_def is_digit_def)
  then have "ring_label two_nodes ''a'' 1 \<noteq> ring_label two_nodes ''b'' 1"
    using ring_get_nearest [OF n, of 115] by simp
  ultimately show ?thesis using two_nodes_apart by simp
qed



end
