(* ===== verification/Threads.thy ===== *)
theory Threads
  imports Simulation
begin

text \<open>
  What the threads of a lock-free algorithm hold.  A thread is a program point of any type \<open>'p\<close>;
  \<open>f\<close> reads from it the ticket, node or cell that the thread holds there, if any.  Shared by the proofs of the queues.
\<close>

definition holders :: "('p \<Rightarrow> 'x option) \<Rightarrow> (nat \<Rightarrow> 'p) \<Rightarrow> 'x set" where
  "holders f th = {x. \<exists>t. f (th t) = Some x}"

definition unique :: "('p \<Rightarrow> 'x option) \<Rightarrow> (nat \<Rightarrow> 'p) \<Rightarrow> bool" where
  "unique f th \<longleftrightarrow> (\<forall>t t' x. f (th t) = Some x \<longrightarrow> f (th t') = Some x \<longrightarrow> t = t')"

lemma holdersI: "f (th t) = Some x \<Longrightarrow> x \<in> holders f th"
  by (auto simp: holders_def)

lemma holders_keep [simp]: "f p = f (th t) \<Longrightarrow> holders f (th(t := p)) = holders f th"
  by (auto simp: holders_def)

lemma holders_add: "f (th t) = None \<Longrightarrow> f p = Some x \<Longrightarrow> holders f (th(t := p)) = insert x (holders f th)"
  unfolding holders_def by (auto, metis option.distinct(1))

lemma holders_del:
  "unique f th \<Longrightarrow> f (th t) = Some x \<Longrightarrow> f p = None \<Longrightarrow> holders f (th(t := p)) = holders f th - {x}"
  unfolding holders_def unique_def by (auto, metis option.inject)

lemma unique_keep [simp]: "f p = f (th t) \<Longrightarrow> unique f (th(t := p)) \<longleftrightarrow> unique f th"
  by (auto simp: unique_def)

lemma unique_add: "unique f th \<Longrightarrow> f p = Some x \<Longrightarrow> x \<notin> holders f th \<Longrightarrow> unique f (th(t := p))"
  by (auto simp: unique_def holders_def)

lemma unique_del: "unique f th \<Longrightarrow> f p = None \<Longrightarrow> unique f (th(t := p))"
  by (auto simp: unique_def)

lemma uniqueD: "unique f th \<Longrightarrow> f (th t) = Some x \<Longrightarrow> f (th u) = Some x \<Longrightarrow> t = u"
  by (auto simp: unique_def)

end
