(* ===== verification/Mpmc_Queue.thy ===== *)
theory Mpmc_Queue
  imports Threads
begin

text \<open>
  \<open>mpmc_bounded_queue\<close> of \<open>include/ten/mpmc_bounded_queue.hh\<close>: a bounded queue that any number
  of threads fill and drain without a lock.

  A thread is a program counter with the local variables of \<open>enqueue\<close> or \<open>dequeue\<close>; one step of
  a thread is one access to the shared memory, and a schedule interleaves the steps of the
  threads in any way, with any number of spurious failures of the weak compare-and-exchange.
  The steps are sequentially consistent: the acquire and release orders on the sequence
  numbers, which order the accesses to the data on a weaker memory, are not modelled.
  Positions and sequence numbers are 64-bit words and their difference is signed, as in the
  code.

  The specification is an automaton on a list.  A successful compare-and-exchange is where an
  operation takes effect; an operation may fail when the list is full (empty) and also while
  another thread is between its compare-and-exchange and the publication of the cell, which
  the specification has as \<open>taking\<close> and \<open>putting\<close>.
\<close>

unbundle bit_operations_syntax

section \<open>Model\<close>

record 'a cell =
  c_sequence :: u64
  c_data :: "'a option"

record 'a mpmc =
  q_buffer :: "'a cell list"
  q_enqueue_pos :: u64
  q_dequeue_pos :: u64

text \<open>The static assertion on the template parameter.\<close>

definition mpmc_size_ok :: "u64 \<Rightarrow> bool" where
  "mpmc_size_ok B \<longleftrightarrow> 2 \<le> B \<and> B AND (B - 1) = 0"

definition buffer_mask :: "u64 \<Rightarrow> u64" where
  "buffer_mask B = B - 1"

definition mpmc_new :: "u64 \<Rightarrow> 'a mpmc" where
  "mpmc_new B =
     \<lparr>q_buffer = map (\<lambda>i. \<lparr>c_sequence = of_nat i, c_data = None\<rparr>) [0..<unat B],
      q_enqueue_pos = 0, q_dequeue_pos = 0\<rparr>"

definition cell_at :: "u64 \<Rightarrow> u64 \<Rightarrow> nat" where
  "cell_at B pos = unat (pos AND buffer_mask B)"

text \<open>\<open>(intptr_t)seq - (intptr_t)pos\<close>\<close>

definition pos_dif :: "u64 \<Rightarrow> u64 \<Rightarrow> int" where
  "pos_dif sq pos = sint sq - sint pos"

text \<open>
  Where a thread stands in \<open>enqueue\<close> and \<open>dequeue\<close>, with its local variables.  Each constructor
  is named after the access to the shared memory the thread makes next.
\<close>

datatype 'a pc =
    Idle
  | Enq_Load 'a | Enq_Seq 'a u64 | Enq_Cas 'a u64 | Enq_Write 'a u64 | Enq_Publish u64 | Enq_Return bool
  | Deq_Load | Deq_Seq u64 | Deq_Cas u64 | Deq_Read u64 | Deq_Publish u64 "'a option" | Deq_Return "'a option"

text \<open>What a step shows to the specification.\<close>

datatype 'a act =
    Internal
  | Claimed_put nat 'a | Finished_put nat | Refused_put nat
  | Claimed_take nat | Finished_take nat "'a option" | Refused_take nat

text \<open>
  A thread that stands outside both operations starts the one the schedule chooses; a
  compare-and-exchange fails spuriously when the schedule says so.
\<close>

datatype 'a choice = Call_enqueue 'a | Call_dequeue | Run | Fail_spuriously

definition set_cell :: "nat \<Rightarrow> ('a cell \<Rightarrow> 'a cell) \<Rightarrow> 'a mpmc \<Rightarrow> 'a mpmc" where
  "set_cell i f q = q\<lparr>q_buffer := (q_buffer q)[i := f (q_buffer q ! i)]\<rparr>"

fun enqueue_step :: "u64 \<Rightarrow> nat \<Rightarrow> 'a choice \<Rightarrow> 'a pc \<Rightarrow> 'a mpmc \<Rightarrow> 'a act \<times> 'a pc \<times> 'a mpmc" where
  "enqueue_step B t c (Enq_Load d) q = (Internal, Enq_Seq d (q_enqueue_pos q), q)"
| "enqueue_step B t c (Enq_Seq d pos) q =
     (let dif = pos_dif (c_sequence (q_buffer q ! cell_at B pos)) pos
      in if dif = 0 then (Internal, Enq_Cas d pos, q)
         else if dif < 0 then (Refused_put t, Enq_Return False, q)
         else (Internal, Enq_Load d, q))"
| "enqueue_step B t c (Enq_Cas d pos) q =
     (if q_enqueue_pos q = pos \<and> c \<noteq> Fail_spuriously
      then (Claimed_put t d, Enq_Write d pos, q\<lparr>q_enqueue_pos := pos + 1\<rparr>)
      else (Internal, Enq_Seq d (q_enqueue_pos q), q))"
| "enqueue_step B t c (Enq_Write d pos) q =
     (Internal, Enq_Publish pos, set_cell (cell_at B pos) (\<lambda>e. e\<lparr>c_data := Some d\<rparr>) q)"
| "enqueue_step B t c (Enq_Publish pos) q =
     (Finished_put t, Enq_Return True, set_cell (cell_at B pos) (\<lambda>e. e\<lparr>c_sequence := pos + 1\<rparr>) q)"
| "enqueue_step B t c p q = (Internal, p, q)"

fun dequeue_step :: "u64 \<Rightarrow> nat \<Rightarrow> 'a choice \<Rightarrow> 'a pc \<Rightarrow> 'a mpmc \<Rightarrow> 'a act \<times> 'a pc \<times> 'a mpmc" where
  "dequeue_step B t c Deq_Load q = (Internal, Deq_Seq (q_dequeue_pos q), q)"
| "dequeue_step B t c (Deq_Seq pos) q =
     (let dif = pos_dif (c_sequence (q_buffer q ! cell_at B pos)) (pos + 1)
      in if dif = 0 then (Internal, Deq_Cas pos, q)
         else if dif < 0 then (Refused_take t, Deq_Return None, q)
         else (Internal, Deq_Load, q))"
| "dequeue_step B t c (Deq_Cas pos) q =
     (if q_dequeue_pos q = pos \<and> c \<noteq> Fail_spuriously
      then (Claimed_take t, Deq_Read pos, q\<lparr>q_dequeue_pos := pos + 1\<rparr>)
      else (Internal, Deq_Seq (q_dequeue_pos q), q))"
| "dequeue_step B t c (Deq_Read pos) q =
     (Internal, Deq_Publish pos (c_data (q_buffer q ! cell_at B pos)), q)"
| "dequeue_step B t c (Deq_Publish pos x) q =
     (Finished_take t x, Deq_Return x,
      set_cell (cell_at B pos) (\<lambda>e. e\<lparr>c_sequence := pos + buffer_mask B + 1\<rparr>) q)"
| "dequeue_step B t c p q = (Internal, p, q)"

definition at_rest :: "'a pc \<Rightarrow> bool" where
  "at_rest p \<longleftrightarrow> (case p of Idle \<Rightarrow> True | Enq_Return _ \<Rightarrow> True | Deq_Return _ \<Rightarrow> True | _ \<Rightarrow> False)"

definition in_enqueue :: "'a pc \<Rightarrow> bool" where
  "in_enqueue p \<longleftrightarrow>
     (case p of Enq_Load _ \<Rightarrow> True | Enq_Seq _ _ \<Rightarrow> True | Enq_Cas _ _ \<Rightarrow> True | Enq_Write _ _ \<Rightarrow> True
              | Enq_Publish _ \<Rightarrow> True | _ \<Rightarrow> False)"

record 'a system =
  mem :: "'a mpmc"
  thread :: "nat \<Rightarrow> 'a pc"

definition mpmc_step :: "u64 \<Rightarrow> nat \<times> 'a choice \<Rightarrow> 'a system \<Rightarrow> 'a act \<times> 'a system" where
  "mpmc_step B = (\<lambda>(t, c) s.
     if at_rest (thread s t)
     then (Internal,
           s\<lparr>thread := (thread s)(t :=
              (case c of Call_enqueue d \<Rightarrow> Enq_Load d | Call_dequeue \<Rightarrow> Deq_Load | _ \<Rightarrow> thread s t))\<rparr>)
     else let (a, p, q) = (if in_enqueue (thread s t) then enqueue_step B t c (thread s t) (mem s)
                           else dequeue_step B t c (thread s t) (mem s))
          in (a, \<lparr>mem = q, thread = (thread s)(t := p)\<rparr>))"

definition mpmc_start :: "u64 \<Rightarrow> 'a system" where
  "mpmc_start B = \<lparr>mem = mpmc_new B, thread = (\<lambda>_. Idle)\<rparr>"

section \<open>Specification\<close>

record 'a bag =
  items :: "'a list"
  taking :: "nat \<Rightarrow> 'a option"
  putting :: "nat set"

definition bag_start :: "'a bag" where
  "bag_start = \<lparr>items = [], taking = (\<lambda>_. None), putting = {}\<rparr>"

fun bag_step :: "nat \<Rightarrow> 'a act \<Rightarrow> 'a bag \<Rightarrow> 'a bag option" where
  "bag_step n Internal b = Some b"
| "bag_step n (Claimed_put t d) b =
     (if length (items b) < n then Some (b\<lparr>items := items b @ [d], putting := insert t (putting b)\<rparr>) else None)"
| "bag_step n (Finished_put t) b =
     (if t \<in> putting b then Some (b\<lparr>putting := putting b - {t}\<rparr>) else None)"
| "bag_step n (Refused_put t) b =
     (if length (items b) = n \<or> (\<exists>t'. taking b t' \<noteq> None) then Some b else None)"
| "bag_step n (Claimed_take t) b =
     (case items b of [] \<Rightarrow> None | x # xs \<Rightarrow> Some (b\<lparr>items := xs, taking := (taking b)(t := Some x)\<rparr>))"
| "bag_step n (Finished_take t x) b =
     (if x \<noteq> None \<and> taking b t = x then Some (b\<lparr>taking := (taking b)(t := None)\<rparr>) else None)"
| "bag_step n (Refused_take t) b =
     (if items b = [] \<or> putting b \<noteq> {} then Some b else None)"

fun bag_run :: "nat \<Rightarrow> 'a act list \<Rightarrow> 'a bag \<Rightarrow> 'a bag option" where
  "bag_run n [] b = Some b"
| "bag_run n (a # as) b = (case bag_step n a b of None \<Rightarrow> None | Some b' \<Rightarrow> bag_run n as b')"

section \<open>Arithmetic of positions\<close>

lemma bit_top:
  assumes "2 ^ k \<le> (n::nat)" and "n < 2 ^ Suc k"
  shows "bit n k"
proof -
  have "n div 2 ^ k = 1" using assms by (intro div_nat_eqI) simp_all
  then show ?thesis by (simp add: bit_iff_odd)
qed

lemma power_of_two:
  assumes "mpmc_size_ok B"
  shows "\<exists>k. unat B = 2 ^ k"
proof -
  define n where "n = unat B"
  have n: "2 \<le> n" and B: "B AND (B - 1) = 0"
    using assms by (simp_all add: n_def mpmc_size_ok_def word_le_nat_alt)
  have "unat (B - 1) = n - 1" using n by (subst unat_sub) (simp_all add: n_def word_le_nat_alt)
  then have zero: "n AND (n - 1) = 0" using arg_cong [OF B, of unat] by (simp add: unsigned_and_eq n_def)
  obtain k where k: "2 ^ k \<le> n" "n < 2 ^ Suc k" using ex_power_ivl1 [of 2 n] n by auto
  have "n = 2 ^ k"
  proof (rule ccontr)
    assume "n \<noteq> 2 ^ k"
    then have "bit n k" "bit (n - 1) k" using k by (auto intro!: bit_top)
    then have "bit (n AND (n - 1)) k" by (simp add: bit_and_iff)
    then show False using zero by simp
  qed
  then show ?thesis unfolding n_def by blast
qed

lemma cell_at_mod:
  assumes "mpmc_size_ok B"
  shows "cell_at B pos = unat pos mod unat B"
proof -
  obtain k where k: "unat B = 2 ^ k" using power_of_two [OF assms] by blast
  have "unat (B - 1) = 2 ^ k - 1"
    using assms k by (subst unat_sub) (auto simp: mpmc_size_ok_def word_le_nat_alt)
  then have "cell_at B pos = unat pos AND mask k"
    by (simp add: cell_at_def buffer_mask_def unsigned_and_eq mask_eq_exp_minus_1)
  then show ?thesis by (simp add: k take_bit_eq_mask [symmetric] take_bit_eq_mod)
qed

lemma pos_dif_small:
  "unat a < 2 ^ 63 \<Longrightarrow> unat b < 2 ^ 63 \<Longrightarrow> pos_dif a b = int (unat a) - int (unat b)"
  by (simp add: pos_dif_def sint_small)

lemma unat_next: "unat (w::u64) < 2 ^ 63 \<Longrightarrow> unat (w + 1) = unat w + 1"
  by (simp add: unat_word_ariths)

lemma unat_round:
  assumes "mpmc_size_ok B" and "unat pos + unat B < 2 ^ 63"
  shows "unat (pos + buffer_mask B + 1) = unat pos + unat B"
proof -
  have B: "pos + buffer_mask B + 1 = pos + B" by (simp add: buffer_mask_def)
  show ?thesis using assms(2) unfolding B by (simp add: unat_word_ariths)
qed

section \<open>The ring of tickets\<close>

text \<open>
  Ticket \<open>p\<close> is the \<open>p\<close>-th \<open>enqueue\<close> or \<open>dequeue\<close> that won its compare-and-exchange; it uses cell
  \<open>p mod n\<close>.  With \<open>E\<close> tickets given to enqueuers and \<open>D\<close> to dequeuers, the \<open>n\<close> tickets from \<open>D\<close> on
  name each cell once.  The sequence number of each cell follows from the tickets still in use:
  \<open>W\<close> for those of enqueuers that have not published yet, \<open>R\<close> for those of dequeuers.
\<close>

definition expected :: "nat \<Rightarrow> nat \<Rightarrow> nat set \<Rightarrow> nat set \<Rightarrow> nat \<Rightarrow> nat" where
  "expected n E W R p =
     (if p < E then if p \<in> W then p else p + 1 else if n \<le> p \<and> p - n \<in> R then p - n + 1 else p)"

definition cells_ok :: "nat \<Rightarrow> nat \<Rightarrow> nat \<Rightarrow> nat set \<Rightarrow> nat set \<Rightarrow> (nat \<Rightarrow> nat) \<Rightarrow> bool" where
  "cells_ok n E D W R sq \<longleftrightarrow>
     2 \<le> n \<and> D \<le> E \<and> E \<le> D + n \<and> W \<subseteq> {D..<E} \<and> (\<forall>r \<in> R. r < D \<and> E \<le> r + n)
   \<and> (\<forall>p. D \<le> p \<longrightarrow> p < D + n \<longrightarrow> sq (p mod n) = expected n E W R p)"

lemma cells_okD:
  assumes "cells_ok n E D W R sq"
  shows "2 \<le> n" and "D \<le> E" and "E \<le> D + n" and "\<And>p. p \<in> W \<Longrightarrow> D \<le> p \<and> p < E"
    and "\<And>r. r \<in> R \<Longrightarrow> r < D \<and> E \<le> r + n"
    and "\<And>p. D \<le> p \<Longrightarrow> p < D + n \<Longrightarrow> sq (p mod n) = expected n E W R p"
  using assms by (auto simp: cells_ok_def)

lemma same_cell: "(p::nat) mod n = p' mod n \<Longrightarrow> p \<le> p' \<Longrightarrow> p' < p + n \<Longrightarrow> p = p'"
  using mod_eq_dvd_iff_nat [of p p' n] dvd_imp_le [of n "p' - p"] by fastforce

lemma same_cell_sym:
  "(p::nat) mod n = p' mod n \<Longrightarrow> D \<le> p \<Longrightarrow> p < D + n \<Longrightarrow> D \<le> p' \<Longrightarrow> p' < D + n \<Longrightarrow> p = p'"
  using same_cell [of p n p'] same_cell [of p' n p] by (cases "p \<le> p'") auto

lemma next_cell: "2 \<le> n \<Longrightarrow> Suc p mod n \<noteq> p mod n"
  using mod_eq_dvd_iff_nat [of p "Suc p" n] by auto

lemma window_ticket:
  assumes "0 < (n::nat)"
  shows "\<exists>p. D \<le> p \<and> p < D + n \<and> p mod n = x mod n"
proof -
  define p where "p = D + (x + n * D - D) mod n"
  have "D \<le> n * D" using assms by (cases n) auto
  then have "p mod n = (D + (x + n * D - D)) mod n" unfolding p_def by (simp add: mod_add_right_eq)
  also have "D + (x + n * D - D) = x + n * D" using \<open>D \<le> n * D\<close> by linarith
  also have "\<dots> mod n = x mod n" by simp
  finally have "p mod n = x mod n" .
  moreover have "D \<le> p" "p < D + n" using assms by (simp_all add: p_def)
  ultimately show ?thesis by blast
qed

text \<open>A position a thread loaded before the ring moved on: its cell has a later sequence number.\<close>

lemma stale_position:
  assumes ok: "cells_ok n E D W R sq" and "x < D"
  shows "x < sq (x mod n)"
proof -
  note C = cells_okD [OF ok]
  obtain p where p: "D \<le> p" "p < D + n" "p mod n = x mod n" using window_ticket [of n D x] C(1) by auto
  have "x + n \<le> p" using same_cell [of x n p] p assms(2) by (cases "p < x + n") auto
  then show ?thesis using C(6) [OF p(1,2)] p(3) C(1) by (auto simp: expected_def split: if_splits)
qed

lemma put_claim:
  assumes ok: "cells_ok n E D W R sq" and free: "sq (E mod n) = E"
  shows "E < D + n" and "cells_ok n (E + 1) D (insert E W) R sq"
proof -
  note C = cells_okD [OF ok]
  show lt: "E < D + n"
  proof (rule ccontr)
    assume "\<not> E < D + n"
    then have E: "E = D + n" using C(3) by simp
    then have "sq (D mod n) = E" using free by simp
    then show False using C(6) [of D] C(1) E by (auto simp: expected_def split: if_splits)
  qed
  have "\<not> (n \<le> E \<and> E - n \<in> R)" using C(6) [OF C(2) lt] free C(1) by (auto simp: expected_def)
  then have R: "E < r + n" if "r \<in> R" for r using C(5) [OF that] that by (cases "E = r + n") auto
  show "cells_ok n (E + 1) D (insert E W) R sq"
    unfolding cells_ok_def
  proof (intro conjI allI impI ballI)
    fix p assume p: "D \<le> p" "p < D + n"
    show "sq (p mod n) = expected n (E + 1) (insert E W) R p"
      using C(6) [OF p] free by (auto simp: expected_def less_Suc_eq split: if_splits)
  qed (use C lt R in \<open>auto simp: less_Suc_eq Suc_le_eq\<close>)
qed

lemma put_publish:
  assumes ok: "cells_ok n E D W R sq" and p: "p \<in> W"
  shows "cells_ok n E D (W - {p}) R (sq(p mod n := p + 1))"
  unfolding cells_ok_def
proof (intro conjI allI impI ballI)
  note C = cells_okD [OF ok]
  fix x assume x: "D \<le> x" "x < D + n"
  show "(sq(p mod n := p + 1)) (x mod n) = expected n E (W - {p}) R x"
  proof (cases "x = p")
    case True
    then show ?thesis using C(4) [OF p] by (simp add: expected_def)
  next
    case False
    then have "x mod n \<noteq> p mod n" using same_cell_sym [of x n p D] x C(3) C(4) [OF p] by auto
    then show ?thesis using C(6) [OF x] False by (auto simp: expected_def)
  qed
qed (use cells_okD [OF ok] in auto)

lemma take_claim:
  assumes ok: "cells_ok n E D W R sq" and full: "sq (D mod n) = D + 1"
  shows "D < E" and "D \<notin> W" and "cells_ok n E (D + 1) W (insert D R) sq"
proof -
  note C = cells_okD [OF ok]
  have D: "sq (D mod n) = expected n E W R D" using C(1) by (intro C(6)) simp_all
  show lt: "D < E" using D full C(1,2) by (auto simp: expected_def split: if_splits)
  show W: "D \<notin> W" using D full lt by (auto simp: expected_def)
  show "cells_ok n E (D + 1) W (insert D R) sq"
    unfolding cells_ok_def
  proof (intro conjI allI impI ballI)
    fix p assume p: "D + 1 \<le> p" "p < D + 1 + n"
    show "sq (p mod n) = expected n E W (insert D R) p"
    proof (cases "p = D + n")
      case True
      then show ?thesis using full C(3) by (simp add: expected_def)
    next
      case False
      then show ?thesis using C(6) [of p] p by (auto simp: expected_def)
    qed
  next
    show "W \<subseteq> {D + 1..<E}" using C(4) W by (fastforce simp: Suc_le_eq le_eq_less_or_eq)
  qed (use C(1,3) lt in \<open>auto simp: less_Suc_eq dest: C(5)\<close>)
qed

lemma take_publish:
  assumes ok: "cells_ok n E D W R sq" and r: "r \<in> R"
  shows "cells_ok n E D W (R - {r}) (sq(r mod n := r + n))"
  unfolding cells_ok_def
proof (intro conjI allI impI ballI)
  note C = cells_okD [OF ok]
  fix x assume x: "D \<le> x" "x < D + n"
  show "(sq(r mod n := r + n)) (x mod n) = expected n E W (R - {r}) x"
  proof (cases "x = r + n")
    case True
    then show ?thesis using C(5) [OF r] by (simp add: expected_def)
  next
    case False
    then have "x mod n \<noteq> (r + n) mod n" using same_cell_sym [of x n "r + n" D] x C(2) C(5) [OF r] by auto
    then show ?thesis using C(6) [OF x] False by (auto simp: expected_def)
  qed
qed (use cells_okD [OF ok] in auto)

text \<open>The values of the sequence number while a ticket is in use.\<close>

lemma put_cell:
  assumes ok: "cells_ok n E D W R sq" and p: "p \<in> W"
  shows "sq (p mod n) = p"
  using cells_okD(3,4,6) [OF ok] p by (fastforce simp: expected_def)

lemma take_cell:
  assumes ok: "cells_ok n E D W R sq" and r: "r \<in> R"
  shows "sq (r mod n) = r + 1"
proof -
  note C = cells_okD [OF ok]
  have "sq ((r + n) mod n) = expected n E W R (r + n)" using C(2) C(5) [OF r] by (intro C(6)) auto
  then show ?thesis using C(5) [OF r] r by (simp add: expected_def)
qed

text \<open>No two tickets in use share a cell.\<close>

lemma tickets_apart:
  assumes ok: "cells_ok n E D W R sq"
  shows "p \<in> W \<Longrightarrow> p' \<in> W \<Longrightarrow> p mod n = p' mod n \<Longrightarrow> p = p'"
    and "p \<in> W \<Longrightarrow> r \<in> R \<Longrightarrow> p mod n \<noteq> r mod n"
    and "r \<in> R \<Longrightarrow> r' \<in> R \<Longrightarrow> r mod n = r' mod n \<Longrightarrow> r = r'"
    and "p \<in> W \<Longrightarrow> D \<le> x \<Longrightarrow> x < E \<Longrightarrow> p mod n = x mod n \<Longrightarrow> p = x"
proof -
  note C = cells_okD [OF ok] note P = put_cell [OF ok] and T = take_cell [OF ok]
  show "p = p'" if "p \<in> W" "p' \<in> W" "p mod n = p' mod n" using P [OF that(1)] P [OF that(2)] unfolding that(3) by simp
  show "r = r'" if "r \<in> R" "r' \<in> R" "r mod n = r' mod n" using T [OF that(1)] T [OF that(2)] unfolding that(3) by simp
  show "p mod n \<noteq> r mod n" if "p \<in> W" "r \<in> R"
  proof
    assume eq: "p mod n = r mod n"
    have "p = Suc r" using P [OF that(1)] T [OF that(2)] unfolding eq by simp
    then show False using next_cell [OF C(1), of r] eq by simp
  qed
  show "p = x" if "p \<in> W" "D \<le> x" "x < E" "p mod n = x mod n"
    using same_cell_sym [of p n x D] C(3) C(4) [OF that(1)] that by auto
qed

lemma put_refused:
  assumes ok: "cells_ok n E D W R sq" and "x \<le> E" and "sq (x mod n) < x"
  shows "E = D + n \<or> R \<noteq> {}"
proof -
  note C = cells_okD [OF ok]
  have "D \<le> x" using stale_position [OF ok, of x] assms(3) by (cases "x < D") auto
  then show ?thesis
    using C(6) [of x] C(3) assms(2,3) by (cases "x < D + n") (auto simp: expected_def split: if_splits)
qed

lemma take_refused:
  assumes ok: "cells_ok n E D W R sq" and "x \<le> D" and "sq (x mod n) \<le> x"
  shows "D = E \<or> W \<noteq> {}"
proof -
  note C = cells_okD [OF ok]
  have x: "x = D" using stale_position [OF ok, of x] assms(2,3) by (cases "x < D") auto
  have "sq (D mod n) = expected n E W R D" using C(1) by (intro C(6)) simp_all
  then show ?thesis using assms(3) x C(2) by (auto simp: expected_def split: if_splits)
qed

section \<open>Invariant\<close>

definition put_ticket :: "'a pc \<Rightarrow> nat option" where
  "put_ticket pc = (case pc of Enq_Write _ p \<Rightarrow> Some (unat p) | Enq_Publish p \<Rightarrow> Some (unat p) | _ \<Rightarrow> None)"

definition take_ticket :: "'a pc \<Rightarrow> nat option" where
  "take_ticket pc = (case pc of Deq_Read p \<Rightarrow> Some (unat p) | Deq_Publish p _ \<Rightarrow> Some (unat p) | _ \<Rightarrow> None)"

definition local_ok ::
  "nat \<Rightarrow> nat \<Rightarrow> nat \<Rightarrow> (nat \<Rightarrow> nat) \<Rightarrow> (nat \<Rightarrow> 'a option) \<Rightarrow> 'a bag \<Rightarrow> nat \<Rightarrow> 'a pc \<Rightarrow> bool" where
  "local_ok n E D sq dat b t pc \<longleftrightarrow>
     (t \<in> putting b \<longleftrightarrow> put_ticket pc \<noteq> None) \<and> (taking b t \<noteq> None \<longleftrightarrow> take_ticket pc \<noteq> None)
   \<and> (case pc of
        Enq_Seq d p \<Rightarrow> unat p \<le> E
      | Enq_Cas d p \<Rightarrow> unat p \<le> E \<and> (unat p = E \<longrightarrow> sq (E mod n) = E)
      | Enq_Write d p \<Rightarrow> items b ! (unat p - D) = d
      | Enq_Publish p \<Rightarrow> dat (unat p mod n) = Some (items b ! (unat p - D))
      | Deq_Seq p \<Rightarrow> unat p \<le> D
      | Deq_Cas p \<Rightarrow> unat p \<le> D \<and> (unat p = D \<longrightarrow> sq (D mod n) = D + 1)
      | Deq_Read p \<Rightarrow> dat (unat p mod n) = taking b t
      | Deq_Publish p x \<Rightarrow> x = taking b t
      | _ \<Rightarrow> True)"

definition view_inv ::
  "nat \<Rightarrow> nat \<Rightarrow> nat \<Rightarrow> (nat \<Rightarrow> nat) \<Rightarrow> (nat \<Rightarrow> 'a option) \<Rightarrow> (nat \<Rightarrow> 'a pc) \<Rightarrow> 'a bag \<Rightarrow> bool" where
  "view_inv n E D sq dat th b \<longleftrightarrow>
     cells_ok n E D (holders put_ticket th) (holders take_ticket th) sq
   \<and> unique put_ticket th \<and> unique take_ticket th \<and> length (items b) = E - D
   \<and> (\<forall>p. D \<le> p \<longrightarrow> p < E \<longrightarrow> p \<notin> holders put_ticket th \<longrightarrow> dat (p mod n) = Some (items b ! (p - D)))
   \<and> (\<forall>t. local_ok n E D sq dat b t (th t))"

lemma view_invD:
  assumes "view_inv n E D sq dat th b"
  shows "cells_ok n E D (holders put_ticket th) (holders take_ticket th) sq"
    and "unique put_ticket th" and "unique take_ticket th" and "length (items b) = E - D"
    and "\<And>p. D \<le> p \<Longrightarrow> p < E \<Longrightarrow> p \<notin> holders put_ticket th \<Longrightarrow> dat (p mod n) = Some (items b ! (p - D))"
    and "\<And>t. local_ok n E D sq dat b t (th t)"
  using assms by (auto simp: view_inv_def)

text \<open>A step that only moves the thread, and keeps its tickets.\<close>

lemma view_move:
  assumes inv: "view_inv n E D sq dat th b"
    and "put_ticket p = put_ticket (th t)" and "take_ticket p = take_ticket (th t)"
    and "local_ok n E D sq dat b t p"
  shows "view_inv n E D sq dat (th(t := p)) b"
  using assms by (simp add: view_inv_def)

lemma view_put_claim:
  assumes inv: "view_inv n E D sq dat th b" and pc: "th t = Enq_Cas d p" and p: "unat p = E"
  shows "length (items b) < n"
    and "view_inv n (E + 1) D sq dat (th(t := Enq_Write d p)) (b\<lparr>items := items b @ [d], putting := insert t (putting b)\<rparr>)"
proof -
  note V = view_invD [OF inv] note C = cells_okD [OF V(1)]
  have "sq (E mod n) = E" using V(6) [of t] p by (simp add: pc local_ok_def)
  note claim = put_claim [OF V(1) this]
  show "length (items b) < n" using V(4) claim(1) C(2) by simp
  have E: "E \<notin> holders put_ticket th" using C(4) [of E] by auto
  have t: "put_ticket (th t) = None" "take_ticket (th t) = None" by (simp_all add: pc put_ticket_def take_ticket_def)
  have new: "put_ticket (Enq_Write d p) = Some E" "take_ticket (Enq_Write d p) = take_ticket (th t)"
    by (simp_all add: p pc put_ticket_def take_ticket_def)
  have hold: "holders put_ticket (th(t := Enq_Write d p)) = insert E (holders put_ticket th)"
    by (rule holders_add) (simp_all add: t new)
  have old: "x - D < length (items b)" if "x \<in> holders put_ticket th" for x using C(4) [OF that] V(4) by auto
  show "view_inv n (E + 1) D sq dat (th(t := Enq_Write d p)) (b\<lparr>items := items b @ [d], putting := insert t (putting b)\<rparr>)"
    unfolding view_inv_def
  proof (intro conjI allI impI)
    show "cells_ok n (E + 1) D (holders put_ticket (th(t := Enq_Write d p))) (holders take_ticket (th(t := Enq_Write d p))) sq"
      using claim(2) by (simp add: hold new(2))
    show "unique put_ticket (th(t := Enq_Write d p))" using unique_add [OF V(2) new(1) E] .
    show "unique take_ticket (th(t := Enq_Write d p))" using V(3) new(2) by simp
    show "length (items (b\<lparr>items := items b @ [d], putting := insert t (putting b)\<rparr>)) = E + 1 - D" using V(4) C(2) by simp
    fix x assume x: "D \<le> x" "x < E + 1" "x \<notin> holders put_ticket (th(t := Enq_Write d p))"
    then have "x < E" "x \<notin> holders put_ticket th" by (auto simp: hold less_Suc_eq)
    then show "dat (x mod n) = Some (items (b\<lparr>items := items b @ [d], putting := insert t (putting b)\<rparr>) ! (x - D))"
      using V(5) [OF x(1)] V(4) diff_less_mono [OF \<open>x < E\<close> x(1)] by (simp add: nth_append)
  next
    fix u
    show "local_ok n (E + 1) D sq dat (b\<lparr>items := items b @ [d], putting := insert t (putting b)\<rparr>) u ((th(t := Enq_Write d p)) u)"
    proof (cases "u = t")
      case True
      then show ?thesis using V(6) [of t] V(4) p C(2) new t by (simp add: local_ok_def nth_append)
    next
      case False
      have "put_ticket (th u) = Some x \<Longrightarrow> x - D < length (items b)" for x using old holdersI by metis
      then show ?thesis using False V(6) [of u]
        by (auto simp: local_ok_def put_ticket_def nth_append split: pc.split)
    qed
  qed
qed

lemma view_put_write:
  fixes th :: "nat \<Rightarrow> 'a pc"
  assumes inv: "view_inv n E D sq dat th b" and pc: "th t = Enq_Write d p"
  shows "view_inv n E D sq (dat(unat p mod n := Some d)) (th(t := Enq_Publish p)) b"
proof -
  note V = view_invD [OF inv] note apart = tickets_apart [OF V(1)]
  have W: "unat p \<in> holders put_ticket th" by (rule holdersI [of _ _ t]) (simp add: pc put_ticket_def)
  have same: "put_ticket (Enq_Publish p :: 'a pc) = put_ticket (th t)" "take_ticket (Enq_Publish p :: 'a pc) = take_ticket (th t)"
    by (simp_all add: pc put_ticket_def take_ticket_def)
  show ?thesis
    unfolding view_inv_def holders_keep [of put_ticket _ th t, OF same(1)] holders_keep [of take_ticket _ th t, OF same(2)]
  proof (intro conjI allI impI)
    fix x assume x: "D \<le> x" "x < E" "x \<notin> holders put_ticket th"
    have "x mod n \<noteq> unat p mod n" using apart(4) [OF W x(1,2)] W x(3) by metis
    then show "(dat(unat p mod n := Some d)) (x mod n) = Some (items b ! (x - D))" using V(5) [OF x] by simp
  next
    fix u
    show "local_ok n E D sq (dat(unat p mod n := Some d)) b u ((th(t := Enq_Publish p)) u)"
    proof (cases "u = t")
      case True
      then show ?thesis using V(6) [of t] same by (auto simp: local_ok_def pc put_ticket_def take_ticket_def)
    next
      case False
      have put: "unat p mod n \<noteq> x mod n" if "put_ticket (th u) = Some x" for x
        using apart(1) [OF W holdersI [of put_ticket th u, OF that]] V(2) that False
        by (auto simp: unique_def pc put_ticket_def)
      have take: "unat p mod n \<noteq> x mod n" if "take_ticket (th u) = Some x" for x
        using apart(2) [OF W holdersI [of take_ticket th u, OF that]] .
      show ?thesis using False V(6) [of u] put take
        by (cases "th u") (simp_all add: local_ok_def put_ticket_def take_ticket_def)
    qed
  qed (use V(1-4) same in simp_all)
qed

lemma view_put_publish:
  fixes th :: "nat \<Rightarrow> 'a pc"
  assumes inv: "view_inv n E D sq dat th b" and pc: "th t = Enq_Publish p"
  shows "t \<in> putting b"
    and "view_inv n E D (sq(unat p mod n := unat p + 1)) dat (th(t := Enq_Return True)) (b\<lparr>putting := putting b - {t}\<rparr>)"
proof -
  note V = view_invD [OF inv] note C = cells_okD [OF V(1)]
  show "t \<in> putting b" using V(6) [of t] by (simp add: local_ok_def pc put_ticket_def)
  have W: "unat p \<in> holders put_ticket th" by (rule holdersI [of _ _ t]) (simp add: pc put_ticket_def)
  have cell: "sq (unat p mod n) = unat p" by (rule put_cell [OF V(1) W])
  have new: "put_ticket (Enq_Return True :: 'a pc) = None" "take_ticket (Enq_Return True :: 'a pc) = take_ticket (th t)"
    by (simp_all add: pc put_ticket_def take_ticket_def)
  have hold: "holders put_ticket (th(t := Enq_Return True)) = holders put_ticket th - {unat p}"
    by (rule holders_del [OF V(2)]) (simp_all add: pc put_ticket_def)
  show "view_inv n E D (sq(unat p mod n := unat p + 1)) dat (th(t := Enq_Return True)) (b\<lparr>putting := putting b - {t}\<rparr>)"
    unfolding view_inv_def hold holders_keep [of take_ticket _ th t, OF new(2)]
  proof (intro conjI allI impI)
    fix x assume x: "D \<le> x" "x < E" "x \<notin> holders put_ticket th - {unat p}"
    show "dat (x mod n) = Some (items (b\<lparr>putting := putting b - {t}\<rparr>) ! (x - D))"
      using V(5) [OF x(1,2)] x(3) V(6) [of t] by (auto simp: local_ok_def pc)
  next
    fix u
    show "local_ok n E D (sq(unat p mod n := unat p + 1)) dat (b\<lparr>putting := putting b - {t}\<rparr>) u ((th(t := Enq_Return True)) u)"
    proof (cases "u = t")
      case True
      then show ?thesis using V(6) [of t] new by (simp add: local_ok_def)
    next
      case False
      have "sq (E mod n) = E \<Longrightarrow> unat p mod n \<noteq> E mod n" using cell C(4) [OF W] by auto
      moreover have "sq (D mod n) = D + 1 \<Longrightarrow> unat p mod n \<noteq> D mod n"
        using cell next_cell [OF C(1), of D] by auto
      ultimately show ?thesis using False V(6) [of u] by (cases "th u") (auto simp: local_ok_def)
    qed
  qed (use V(3,4) new put_publish [OF V(1) W] unique_del [OF V(2), of "Enq_Return True" t] in simp_all)
qed

lemma view_take_claim:
  fixes th :: "nat \<Rightarrow> 'a pc"
  assumes inv: "view_inv n E D sq dat th b" and pc: "th t = Deq_Cas p" and p: "unat p = D"
  obtains x xs where "items b = x # xs"
    and "view_inv n E (D + 1) sq dat (th(t := Deq_Read p)) (b\<lparr>items := xs, taking := (taking b)(t := Some x)\<rparr>)"
proof -
  note V = view_invD [OF inv] note C = cells_okD [OF V(1)]
  have "sq (D mod n) = D + 1" using V(6) [of t] p by (simp add: pc local_ok_def)
  note claim = take_claim [OF V(1) this]
  obtain x xs where q: "items b = x # xs" using V(4) claim(1) by (cases "items b") auto
  have R: "D \<notin> holders take_ticket th" using C(5) [of D] by auto
  have t: "put_ticket (th t) = None" "take_ticket (th t) = None" by (simp_all add: pc put_ticket_def take_ticket_def)
  have new: "take_ticket (Deq_Read p :: 'a pc) = Some D" "put_ticket (Deq_Read p :: 'a pc) = put_ticket (th t)"
    by (simp_all add: p pc put_ticket_def take_ticket_def)
  have hold: "holders take_ticket (th(t := Deq_Read p)) = insert D (holders take_ticket th)"
    by (rule holders_add) (simp_all add: t new)
  have D: "dat (D mod n) = Some x" using V(5) [OF order_refl claim(1,2)] q by simp
  have later: "items b ! (y - D) = xs ! (y - (D + 1))" if less: "D < y" for y
  proof -
    obtain k where "y = Suc (D + k)" using less_imp_Suc_add [OF less] by blast
    then show ?thesis using q by simp
  qed
  have W: "D < y" if "y \<in> holders put_ticket th" for y using C(4) [OF that] claim(2) that by (cases "y = D") auto
  let ?b = "b\<lparr>items := xs, taking := (taking b)(t := Some x)\<rparr>"
  have "view_inv n E (D + 1) sq dat (th(t := Deq_Read p)) ?b"
    unfolding view_inv_def hold holders_keep [of put_ticket _ th t, OF new(2)]
  proof (intro conjI allI impI)
    fix y assume y: "D + 1 \<le> y" "y < E" "y \<notin> holders put_ticket th"
    show "dat (y mod n) = Some (items ?b ! (y - (D + 1)))" using V(5) [of y] y later [of y] by simp
  next
    fix u
    show "local_ok n E (D + 1) sq dat ?b u ((th(t := Deq_Read p)) u)"
    proof (cases "u = t")
      case True
      then show ?thesis using V(6) [of t] p D new t by (simp add: local_ok_def)
    next
      case False
      have put: "items b ! (y - D) = xs ! (y - (D + 1))" if "put_ticket (th u) = Some y" for y
        using later [OF W [OF holdersI [of put_ticket th u, OF that]]] .
      then show ?thesis using False V(6) [of u] by (cases "th u") (auto simp: local_ok_def put_ticket_def)
    qed
  qed (use V(2-4) claim(3) new q unique_add [OF V(3) new(1) R] in simp_all)
  with q show ?thesis using that by blast
qed

lemma view_take_publish:
  fixes th :: "nat \<Rightarrow> 'a pc"
  assumes inv: "view_inv n E D sq dat th b" and pc: "th t = Deq_Publish p x"
  shows "x \<noteq> None \<and> taking b t = x"
    and "view_inv n E D (sq(unat p mod n := unat p + n)) dat (th(t := Deq_Return x)) (b\<lparr>taking := (taking b)(t := None)\<rparr>)"
proof -
  note V = view_invD [OF inv] note C = cells_okD [OF V(1)]
  show "x \<noteq> None \<and> taking b t = x" using V(6) [of t] by (auto simp: local_ok_def pc take_ticket_def)
  have R: "unat p \<in> holders take_ticket th" by (rule holdersI [of _ _ t]) (simp add: pc take_ticket_def)
  have cell: "sq (unat p mod n) = unat p + 1" by (rule take_cell [OF V(1) R])
  have new: "take_ticket (Deq_Return x :: 'a pc) = None" "put_ticket (Deq_Return x :: 'a pc) = put_ticket (th t)"
    by (simp_all add: pc put_ticket_def take_ticket_def)
  have hold: "holders take_ticket (th(t := Deq_Return x)) = holders take_ticket th - {unat p}"
    by (rule holders_del [OF V(3)]) (simp_all add: pc take_ticket_def)
  show "view_inv n E D (sq(unat p mod n := unat p + n)) dat (th(t := Deq_Return x)) (b\<lparr>taking := (taking b)(t := None)\<rparr>)"
    unfolding view_inv_def hold holders_keep [of put_ticket _ th t, OF new(2)]
  proof (intro conjI allI impI)
    fix u
    show "local_ok n E D (sq(unat p mod n := unat p + n)) dat (b\<lparr>taking := (taking b)(t := None)\<rparr>) u ((th(t := Deq_Return x)) u)"
    proof (cases "u = t")
      case True
      then show ?thesis using V(6) [of t] new by (simp add: local_ok_def)
    next
      case False
      have "sq (D mod n) = D + 1 \<Longrightarrow> unat p mod n \<noteq> D mod n" using cell C(5) [OF R] by auto
      moreover have "unat p mod n \<noteq> E mod n" if "sq (E mod n) = E"
      proof
        assume eq: "unat p mod n = E mod n"
        then have "E = Suc (unat p)" using cell that unfolding eq by simp
        then show False using eq next_cell [OF C(1), of "unat p"] by simp
      qed
      ultimately show ?thesis using False V(6) [of u] by (cases "th u") (auto simp: local_ok_def)
    qed
  qed (use V(2,4,5) new take_publish [OF V(1) R] unique_del [OF V(3), of "Deq_Return x" t] in simp_all)
qed

section \<open>Simulation\<close>

definition seqs :: "'a mpmc \<Rightarrow> nat \<Rightarrow> nat" where
  "seqs q i = unat (c_sequence (q_buffer q ! i))"

definition data_at :: "'a mpmc \<Rightarrow> nat \<Rightarrow> 'a option" where
  "data_at q i = c_data (q_buffer q ! i)"

text \<open>After at most \<open>k\<close> steps.\<close>

definition mem_inv :: "u64 \<Rightarrow> nat \<Rightarrow> 'a mpmc \<Rightarrow> (nat \<Rightarrow> 'a pc) \<Rightarrow> 'a bag \<Rightarrow> bool" where
  "mem_inv B k q th b \<longleftrightarrow>
     length (q_buffer q) = unat B \<and> unat (q_enqueue_pos q) \<le> k
   \<and> view_inv (unat B) (unat (q_enqueue_pos q)) (unat (q_dequeue_pos q)) (seqs q) (data_at q) th b"

lemma seqs_set_cell [simp]:
  "i < length (q_buffer q) \<Longrightarrow> seqs (set_cell i f q) = (seqs q)(i := unat (c_sequence (f (q_buffer q ! i))))"
proof (rule ext)
  show "i < length (q_buffer q) \<Longrightarrow> seqs (set_cell i f q) j = ((seqs q)(i := unat (c_sequence (f (q_buffer q ! i))))) j" for j
    by (cases "j = i") (simp_all add: seqs_def set_cell_def)
qed

lemma data_set_cell [simp]:
  "i < length (q_buffer q) \<Longrightarrow> data_at (set_cell i f q) = (data_at q)(i := c_data (f (q_buffer q ! i)))"
proof (rule ext)
  show "i < length (q_buffer q) \<Longrightarrow> data_at (set_cell i f q) j = ((data_at q)(i := c_data (f (q_buffer q ! i)))) j" for j
    by (cases "j = i") (simp_all add: data_at_def set_cell_def)
qed

lemma set_cell_rest [simp]:
  "length (q_buffer (set_cell i f q)) = length (q_buffer q)"
  "q_enqueue_pos (set_cell i f q) = q_enqueue_pos q" "q_dequeue_pos (set_cell i f q) = q_dequeue_pos q"
  by (simp_all add: set_cell_def)

lemma seqs_pos [simp]:
  "seqs (q\<lparr>q_enqueue_pos := e\<rparr>) = seqs q" "data_at (q\<lparr>q_enqueue_pos := e\<rparr>) = data_at q"
  "seqs (q\<lparr>q_dequeue_pos := d\<rparr>) = seqs q" "data_at (q\<lparr>q_dequeue_pos := d\<rparr>) = data_at q"
  by (simp_all add: fun_eq_iff seqs_def data_at_def)

lemma seq_bound:
  assumes ok: "cells_ok n E D W R sq" and "i < n"
  shows "sq i \<le> E + n"
proof -
  note C = cells_okD [OF ok]
  obtain p where p: "D \<le> p" "p < D + n" "p mod n = i mod n" using window_ticket [of n D i] assms(2) by auto
  have "sq i = expected n E W R p" using C(6) [OF p(1,2)] p(3) assms(2) by simp
  also have "\<dots> \<le> D + n" using p C(3) by (auto simp: expected_def)
  finally show ?thesis using C(2) by simp
qed

lemma mem_invD:
  assumes "mem_inv B k q th b" and "mpmc_size_ok B"
  shows "length (q_buffer q) = unat B" and "unat (q_enqueue_pos q) \<le> k"
    and "view_inv (unat B) (unat (q_enqueue_pos q)) (unat (q_dequeue_pos q)) (seqs q) (data_at q) th b"
    and "unat (q_dequeue_pos q) \<le> unat (q_enqueue_pos q)"
    and "\<And>pos. cell_at B pos < length (q_buffer q)"
    and "\<And>pos. unat (c_sequence (q_buffer q ! cell_at B pos)) = seqs q (unat pos mod unat B)"
    and "\<And>pos. seqs q (unat pos mod unat B) \<le> k + unat B"
proof -
  show 1: "length (q_buffer q) = unat B" "unat (q_enqueue_pos q) \<le> k" and
    V: "view_inv (unat B) (unat (q_enqueue_pos q)) (unat (q_dequeue_pos q)) (seqs q) (data_at q) th b"
    using assms(1) by (simp_all add: mem_inv_def)
  note C = view_invD(1) [OF V]
  show "unat (q_dequeue_pos q) \<le> unat (q_enqueue_pos q)" using cells_okD(2) [OF C] .
  have B: "0 < unat B" using cells_okD(1) [OF C] by simp
  show "cell_at B pos < length (q_buffer q)" for pos using B by (simp add: 1 cell_at_mod [OF assms(2)])
  show "unat (c_sequence (q_buffer q ! cell_at B pos)) = seqs q (unat pos mod unat B)" for pos
    by (simp add: seqs_def cell_at_mod [OF assms(2)])
  show "seqs q (unat pos mod unat B) \<le> k + unat B" for pos
    using seq_bound [OF C, of "unat pos mod unat B"] B 1(2) by simp
qed

lemma mem_move:
  assumes inv: "mem_inv B k q th b"
    and "put_ticket p = put_ticket (th t)" and "take_ticket p = take_ticket (th t)"
    and "local_ok (unat B) (unat (q_enqueue_pos q)) (unat (q_dequeue_pos q)) (seqs q) (data_at q) b t p"
  shows "mem_inv B (Suc k) q (th(t := p)) b"
  using assms view_move [of _ _ _ _ _ th b p t] by (auto simp: mem_inv_def)

lemma upd_same [simp]:
  "(seqs q)(i := unat (c_sequence (q_buffer q ! i))) = seqs q" "(data_at q)(i := c_data (q_buffer q ! i)) = data_at q"
  by (simp_all add: fun_eq_iff seqs_def data_at_def)

definition simulated :: "u64 \<Rightarrow> nat \<Rightarrow> (nat \<Rightarrow> 'a pc) \<Rightarrow> 'a bag \<Rightarrow> nat \<Rightarrow> 'a act \<times> 'a pc \<times> 'a mpmc \<Rightarrow> bool" where
  "simulated B k th b t = (\<lambda>(a, p, q). \<exists>b'. bag_step (unat B) a b = Some b' \<and> mem_inv B (Suc k) q (th(t := p)) b')"

text \<open>What a comparison of the two signed numbers says about the cell.\<close>

lemma dif_at:
  assumes "mem_inv B k q th b" and "mpmc_size_ok B" and "k + 1 + unat B < 2 ^ 63" and "unat x < 2 ^ 63"
  shows "pos_dif (c_sequence (q_buffer q ! cell_at B pos)) x = int (seqs q (unat pos mod unat B)) - int (unat x)"
proof -
  note M = mem_invD [OF assms(1,2)]
  have "unat (c_sequence (q_buffer q ! cell_at B pos)) < 2 ^ 63"
    unfolding M(6) using M(7) [of pos] assms(3) by linarith
  then show ?thesis using assms(4) by (simp only: pos_dif_small M(6))
qed

lemma enq_load_sim:
  assumes inv: "mem_inv B k q th b" and size: "mpmc_size_ok B" and pc: "th t = Enq_Load d"
  shows "simulated B k th b t (enqueue_step B t c (th t) q)"
  using view_invD(6) [OF mem_invD(3) [OF inv size], of t]
  by (simp add: pc simulated_def) (rule mem_move [OF inv]; simp add: pc put_ticket_def take_ticket_def local_ok_def)

lemma enq_seq_sim:
  assumes inv: "mem_inv B k q th b" and size: "mpmc_size_ok B" and bound: "k + 1 + unat B < 2 ^ 63"
    and pc: "th t = Enq_Seq d pos"
  shows "simulated B k th b t (enqueue_step B t c (th t) q)"
proof -
  note M = mem_invD [OF inv size] note V = view_invD [OF M(3)]
  have L: "unat pos \<le> unat (q_enqueue_pos q)" "t \<notin> putting b" "taking b t = None"
    using V(6) [of t] by (auto simp: local_ok_def pc put_ticket_def take_ticket_def)
  have "unat pos < 2 ^ 63" using L(1) M(2) bound by linarith
  note dif = dif_at [OF inv size bound this, of pos]
  let ?s = "seqs q (unat pos mod unat B)"
  have move: "mem_inv B (Suc k) q (th(t := p)) b"
    if "put_ticket p = None" "take_ticket p = None"
      "local_ok (unat B) (unat (q_enqueue_pos q)) (unat (q_dequeue_pos q)) (seqs q) (data_at q) b t p" for p
    using that by (intro mem_move [OF inv]) (simp_all add: pc put_ticket_def take_ticket_def)
  consider "?s = unat pos" | "?s < unat pos" | "unat pos < ?s" by linarith
  then show ?thesis
  proof cases
    case 1
    then have "mem_inv B (Suc k) q (th(t := Enq_Cas d pos)) b"
      using L by (intro move) (auto simp: put_ticket_def take_ticket_def local_ok_def)
    moreover have "pos_dif (c_sequence (q_buffer q ! cell_at B pos)) pos = 0" using 1 dif by linarith
    ultimately show ?thesis by (simp add: simulated_def pc)
  next
    case 2
    have "mem_inv B (Suc k) q (th(t := Enq_Return False)) b"
      using L by (intro move) (auto simp: put_ticket_def take_ticket_def local_ok_def)
    moreover have "length (items b) = unat B \<or> (\<exists>t'. taking b t' \<noteq> None)"
    proof -
      consider "unat (q_enqueue_pos q) = unat (q_dequeue_pos q) + unat B" | "holders take_ticket th \<noteq> {}"
        using put_refused [OF V(1) L(1) 2] by blast
      then show ?thesis
      proof cases
        case 2
        then obtain t' where "take_ticket (th t') \<noteq> None" by (auto simp: holders_def)
        then have "taking b t' \<noteq> None" using V(6) [of t'] by (simp add: local_ok_def)
        then show ?thesis by blast
      qed (simp add: V(4))
    qed
    moreover have "pos_dif (c_sequence (q_buffer q ! cell_at B pos)) pos < 0" using 2 dif by linarith
    ultimately show ?thesis by (auto simp: simulated_def pc)
  next
    case 3
    have "mem_inv B (Suc k) q (th(t := Enq_Load d)) b"
      using L by (intro move) (auto simp: put_ticket_def take_ticket_def local_ok_def)
    moreover have "0 < pos_dif (c_sequence (q_buffer q ! cell_at B pos)) pos" using 3 dif by linarith
    ultimately show ?thesis by (simp add: simulated_def pc)
  qed
qed

lemma enq_cas_sim:
  assumes inv: "mem_inv B k q th b" and size: "mpmc_size_ok B" and bound: "k + 1 + unat B < 2 ^ 63"
    and pc: "th t = Enq_Cas d pos"
  shows "simulated B k th b t (enqueue_step B t c (th t) q)"
proof -
  note M = mem_invD [OF inv size] note V = view_invD [OF M(3)]
  show ?thesis
  proof (cases "q_enqueue_pos q = pos \<and> c \<noteq> Fail_spuriously")
    case True
    have "unat pos < 2 ^ 63" using conjunct1 [OF True] M(2) bound by (metis add_leD1 le_less_trans trans_le_add1)
    then have "unat (pos + 1) = unat pos + 1" by (rule unat_next)
    moreover have "unat pos = unat (q_enqueue_pos q)" using True by simp
    note view_put_claim [OF M(3) pc this]
    ultimately show ?thesis using True M(1,2) by (simp add: simulated_def pc mem_inv_def)
  next
    case False
    have "mem_inv B (Suc k) q (th(t := Enq_Seq d (q_enqueue_pos q))) b"
      using V(6) [of t] by (intro mem_move [OF inv]) (auto simp: pc put_ticket_def take_ticket_def local_ok_def)
    then show ?thesis using False by (auto simp: simulated_def pc)
  qed
qed

lemma enq_write_sim:
  assumes inv: "mem_inv B k q th b" and size: "mpmc_size_ok B" and pc: "th t = Enq_Write d pos"
  shows "simulated B k th b t (enqueue_step B t c (th t) q)"
  using mem_invD [OF inv size] view_put_write [OF mem_invD(3) [OF inv size] pc]
  by (simp add: simulated_def pc mem_inv_def cell_at_mod [OF size])

lemma enq_publish_sim:
  assumes inv: "mem_inv B k q th b" and size: "mpmc_size_ok B" and bound: "k + 1 + unat B < 2 ^ 63"
    and pc: "th t = Enq_Publish pos"
  shows "simulated B k th b t (enqueue_step B t c (th t) q)"
proof -
  note M = mem_invD [OF inv size] note V = view_invD [OF M(3)]
  have "unat pos \<in> holders put_ticket th" by (rule holdersI [of _ _ t]) (simp add: pc put_ticket_def)
  then have "unat pos \<le> k" using cells_okD(4) [OF V(1)] M(2) by fastforce
  then have "unat pos < 2 ^ 63" using bound by linarith
  then have "unat (pos + 1) = unat pos + 1" by (rule unat_next)
  then show ?thesis using view_put_publish [OF M(3) pc] M(1,2) M(5) [of pos]
    by (simp add: simulated_def pc mem_inv_def cell_at_mod [OF size])
qed

lemma deq_load_sim:
  assumes inv: "mem_inv B k q th b" and size: "mpmc_size_ok B" and pc: "th t = Deq_Load"
  shows "simulated B k th b t (dequeue_step B t c (th t) q)"
  using view_invD(6) [OF mem_invD(3) [OF inv size], of t]
  by (simp add: pc simulated_def) (rule mem_move [OF inv]; simp add: pc put_ticket_def take_ticket_def local_ok_def)

lemma deq_seq_sim:
  assumes inv: "mem_inv B k q th b" and size: "mpmc_size_ok B" and bound: "k + 1 + unat B < 2 ^ 63"
    and pc: "th t = Deq_Seq pos"
  shows "simulated B k th b t (dequeue_step B t c (th t) q)"
proof -
  note M = mem_invD [OF inv size] note V = view_invD [OF M(3)]
  have L: "unat pos \<le> unat (q_dequeue_pos q)" "t \<notin> putting b" "taking b t = None"
    using V(6) [of t] by (auto simp: local_ok_def pc put_ticket_def take_ticket_def)
  have pos: "unat pos + 1 < 2 ^ 63" using L(1) M(2,4) bound by linarith
  then have nxt: "unat (pos + 1) = unat pos + 1" by (intro unat_next) simp
  then have "unat (pos + 1) < 2 ^ 63" using pos by simp
  note dif = dif_at [OF inv size bound this, of pos, unfolded nxt]
  let ?s = "seqs q (unat pos mod unat B)"
  have move: "mem_inv B (Suc k) q (th(t := p)) b"
    if "put_ticket p = None" "take_ticket p = None"
      "local_ok (unat B) (unat (q_enqueue_pos q)) (unat (q_dequeue_pos q)) (seqs q) (data_at q) b t p" for p
    using that by (intro mem_move [OF inv]) (simp_all add: pc put_ticket_def take_ticket_def)
  consider "?s = unat pos + 1" | "?s \<le> unat pos" | "unat pos + 1 < ?s" by linarith
  then show ?thesis
  proof cases
    case 1
    then have "mem_inv B (Suc k) q (th(t := Deq_Cas pos)) b"
      using L by (intro move) (auto simp: put_ticket_def take_ticket_def local_ok_def)
    moreover have "pos_dif (c_sequence (q_buffer q ! cell_at B pos)) (pos + 1) = 0" using 1 dif by linarith
    ultimately show ?thesis by (simp add: simulated_def pc)
  next
    case 2
    have "mem_inv B (Suc k) q (th(t := Deq_Return None)) b"
      using L by (intro move) (auto simp: put_ticket_def take_ticket_def local_ok_def)
    moreover have "items b = [] \<or> putting b \<noteq> {}"
    proof -
      consider "unat (q_dequeue_pos q) = unat (q_enqueue_pos q)" | "holders put_ticket th \<noteq> {}"
        using take_refused [OF V(1) L(1) 2] by blast
      then show ?thesis
      proof cases
        case 2
        then obtain t' where "put_ticket (th t') \<noteq> None" by (auto simp: holders_def)
        then have "t' \<in> putting b" using V(6) [of t'] by (simp add: local_ok_def)
        then show ?thesis by blast
      qed (use V(4) in simp)
    qed
    moreover have "pos_dif (c_sequence (q_buffer q ! cell_at B pos)) (pos + 1) < 0" using 2 dif by linarith
    ultimately show ?thesis by (auto simp: simulated_def pc)
  next
    case 3
    have "mem_inv B (Suc k) q (th(t := Deq_Load)) b"
      using L by (intro move) (auto simp: put_ticket_def take_ticket_def local_ok_def)
    moreover have "0 < pos_dif (c_sequence (q_buffer q ! cell_at B pos)) (pos + 1)" using 3 dif by linarith
    ultimately show ?thesis by (simp add: simulated_def pc)
  qed
qed

lemma deq_cas_sim:
  assumes inv: "mem_inv B k q th b" and size: "mpmc_size_ok B" and bound: "k + 1 + unat B < 2 ^ 63"
    and pc: "th t = Deq_Cas pos"
  shows "simulated B k th b t (dequeue_step B t c (th t) q)"
proof -
  note M = mem_invD [OF inv size] note V = view_invD [OF M(3)]
  show ?thesis
  proof (cases "q_dequeue_pos q = pos \<and> c \<noteq> Fail_spuriously")
    case True
    then have eq: "unat pos = unat (q_dequeue_pos q)" by simp
    have "unat pos < 2 ^ 63" using eq M(2,4) bound by linarith
    then have nxt: "unat (pos + 1) = unat pos + 1" by (rule unat_next)
    obtain x xs where "items b = x # xs" and
      "view_inv (unat B) (unat (q_enqueue_pos q)) (unat (q_dequeue_pos q) + 1) (seqs q) (data_at q)
         (th(t := Deq_Read pos)) (b\<lparr>items := xs, taking := (taking b)(t := Some x)\<rparr>)"
      by (rule view_take_claim [OF M(3) pc eq])
    then show ?thesis using True M(1,2) nxt by (simp add: simulated_def pc mem_inv_def)
  next
    case False
    have "mem_inv B (Suc k) q (th(t := Deq_Seq (q_dequeue_pos q))) b"
      using V(6) [of t] by (intro mem_move [OF inv]) (auto simp: pc put_ticket_def take_ticket_def local_ok_def)
    then show ?thesis using False by (auto simp: simulated_def pc)
  qed
qed

lemma deq_read_sim:
  assumes inv: "mem_inv B k q th b" and size: "mpmc_size_ok B" and pc: "th t = Deq_Read pos"
  shows "simulated B k th b t (dequeue_step B t c (th t) q)"
proof -
  note M = mem_invD [OF inv size] note V = view_invD [OF M(3)]
  have "mem_inv B (Suc k) q (th(t := Deq_Publish pos (c_data (q_buffer q ! cell_at B pos)))) b"
    using V(6) [of t] by (intro mem_move [OF inv])
      (simp_all add: pc put_ticket_def take_ticket_def local_ok_def cell_at_mod [OF size] data_at_def)
  then show ?thesis by (simp add: simulated_def pc)
qed

lemma deq_publish_sim:
  assumes inv: "mem_inv B k q th b" and size: "mpmc_size_ok B" and bound: "k + 1 + unat B < 2 ^ 63"
    and pc: "th t = Deq_Publish pos x"
  shows "simulated B k th b t (dequeue_step B t c (th t) q)"
proof -
  note M = mem_invD [OF inv size] note V = view_invD [OF M(3)]
  have "unat pos \<in> holders take_ticket th" by (rule holdersI [of _ _ t]) (simp add: pc take_ticket_def)
  then have "unat pos < unat (q_dequeue_pos q)" using cells_okD(5) [OF V(1)] by blast
  then have "unat pos + unat B < 2 ^ 63" using M(2,4) bound by linarith
  note unat_round [OF size this]
  then show ?thesis using view_take_publish [OF M(3) pc] M(1,2) M(5) [of pos]
    by (simp add: simulated_def pc mem_inv_def cell_at_mod [OF size])
qed

lemma mpmc_step_sim:
  assumes size: "mpmc_size_ok B" and bound: "k + 1 + unat B < 2 ^ 63" and inv: "mem_inv B k (mem s) (thread s) b"
    and step: "mpmc_step B (t, c) s = (a, s')"
  shows "\<exists>b'. bag_step (unat B) a b = Some b' \<and> mem_inv B (Suc k) (mem s') (thread s') b'"
proof (cases "at_rest (thread s t)")
  case True
  define p where "p = (case c of Call_enqueue d \<Rightarrow> Enq_Load d | Call_dequeue \<Rightarrow> Deq_Load | _ \<Rightarrow> thread s t)"
  have none: "put_ticket (thread s t) = None" "take_ticket (thread s t) = None"
    using True by (simp_all add: at_rest_def put_ticket_def take_ticket_def split: pc.splits)
  have "mem_inv B (Suc k) (mem s) ((thread s)(t := p)) b"
    using view_invD(6) [OF mem_invD(3) [OF inv size], of t] none
    by (intro mem_move [OF inv]) (auto simp: p_def put_ticket_def take_ticket_def local_ok_def split: choice.split)
  then show ?thesis using True step by (auto simp: mpmc_step_def p_def)
next
  case False
  let ?r = "if in_enqueue (thread s t) then enqueue_step B t c (thread s t) (mem s)
            else dequeue_step B t c (thread s t) (mem s)"
  have "simulated B k (thread s) b t ?r"
    using False enq_load_sim [OF inv size] enq_seq_sim [OF inv size bound] enq_cas_sim [OF inv size bound]
      enq_write_sim [OF inv size] enq_publish_sim [OF inv size bound]
      deq_load_sim [OF inv size] deq_seq_sim [OF inv size bound] deq_cas_sim [OF inv size bound]
      deq_read_sim [OF inv size] deq_publish_sim [OF inv size bound]
    by (cases "thread s t") (simp_all only: at_rest_def in_enqueue_def pc.case if_True if_False simp_thms)
  then show ?thesis using False step by (auto simp: mpmc_step_def simulated_def Let_def split: prod.splits)
qed

lemma mpmc_start_inv:
  assumes "mpmc_size_ok B"
  shows "mem_inv B 0 (mem (mpmc_start B)) (thread (mpmc_start B :: 'a system)) (bag_start :: 'a bag)"
proof -
  have none: "holders put_ticket (\<lambda>_. Idle :: 'a pc) = {}" "holders take_ticket (\<lambda>_. Idle :: 'a pc) = {}"
    by (simp_all add: holders_def put_ticket_def take_ticket_def)
  have two: "2 \<le> unat B" using assms by (simp add: mpmc_size_ok_def word_le_nat_alt)
  have "unat (of_nat p :: u64) = p" if "p < unat B" for p
    using that unsigned_less [of B, where 'a = nat] by (simp add: unat_of_nat)
  then have "cells_ok (unat B) 0 0 {} {} (seqs (mpmc_new B :: 'a mpmc))"
    using two by (simp add: cells_ok_def expected_def seqs_def mpmc_new_def)
  then show ?thesis
    by (simp add: mem_inv_def mpmc_start_def mpmc_new_def view_inv_def none bag_start_def local_ok_def unique_def
        put_ticket_def take_ticket_def)
qed

lemma session_sim:
  assumes "mpmc_size_ok B" and "mem_inv B k (mem s) (thread s) b" and "k + length xs + unat B < 2 ^ 63"
  shows "\<exists>b'. bag_run (unat B) (fst (session (mpmc_step B) xs s)) b = Some b'
          \<and> mem_inv B (k + length xs) (mem (snd (session (mpmc_step B) xs s))) (thread (snd (session (mpmc_step B) xs s))) b'"
  using assms(2,3)
proof (induction xs arbitrary: k s b)
  case (Cons x xs)
  obtain t c where x: "x = (t, c)" by (cases x)
  obtain a s1 where s1: "mpmc_step B (t, c) s = (a, s1)" by (cases "mpmc_step B (t, c) s")
  obtain b1 where b1: "bag_step (unat B) a b = Some b1" "mem_inv B (Suc k) (mem s1) (thread s1) b1"
    using mpmc_step_sim [OF assms(1) _ Cons.prems(1) s1] Cons.prems(2) by auto
  from Cons.IH [OF b1(2)] Cons.prems(2) b1(1) show ?case by (simp add: x s1 Let_def split_beta)
qed simp

section \<open>Progress\<close>

lemma fresh_put:
  assumes ok: "cells_ok n E D W R sq"
  shows "sq (E mod n) \<le> E"
proof -
  note C = cells_okD [OF ok]
  show ?thesis
  proof (cases "E < D + n")
    case True
    then show ?thesis using C(6) [OF C(2) True] C(1) by (auto simp: expected_def)
  next
    case False
    then have "E = D + n" using C(3) by simp
    then show ?thesis using C(6) [of D] C(1) by (auto simp: expected_def)
  qed
qed

lemma fresh_take:
  assumes ok: "cells_ok n E D W R sq"
  shows "sq (D mod n) \<le> D + 1"
  using cells_okD(6) [OF ok, of D] cells_okD(1) [OF ok] by (auto simp: expected_def)

text \<open>A bound on the steps a thread needs when no other thread runs.\<close>

definition rank :: "'a mpmc \<Rightarrow> 'a pc \<Rightarrow> nat" where
  "rank q p =
     (case p of
        Enq_Load _ \<Rightarrow> 5 | Enq_Seq _ pos \<Rightarrow> if pos = q_enqueue_pos q then 4 else 6
      | Enq_Cas _ pos \<Rightarrow> if pos = q_enqueue_pos q then 3 else 5 | Enq_Write _ _ \<Rightarrow> 2 | Enq_Publish _ \<Rightarrow> 1
      | Deq_Load \<Rightarrow> 5 | Deq_Seq pos \<Rightarrow> if pos = q_dequeue_pos q then 4 else 6
      | Deq_Cas pos \<Rightarrow> if pos = q_dequeue_pos q then 3 else 5 | Deq_Read _ \<Rightarrow> 2 | Deq_Publish _ _ \<Rightarrow> 1
      | _ \<Rightarrow> 0)"

lemma rank_0: "rank q p = 0 \<longleftrightarrow> at_rest p"
  by (cases p) (auto simp: rank_def at_rest_def)

lemma rank_le: "rank q p \<le> 6"
  by (cases p) (auto simp: rank_def)

lemma rank_step:
  assumes size: "mpmc_size_ok B" and bound: "k + 1 + unat B < 2 ^ 63" and inv: "mem_inv B k (mem s) (thread s) b"
    and step: "mpmc_step B (t, Run) s = (a, s')" and busy: "\<not> at_rest (thread s t)"
  shows "rank (mem s') (thread s' t) < rank (mem s) (thread s t)"
proof -
  define q where "q = mem s"
  note M = mem_invD [OF inv size, folded q_def] note V = view_invD [OF M(3)]
  have enq: "pos_dif (c_sequence (q_buffer q ! cell_at B (q_enqueue_pos q))) (q_enqueue_pos q) \<le> 0"
  proof -
    have "unat (q_enqueue_pos q) < 2 ^ 63" using M(2) bound by linarith
    from dif_at [OF inv size bound this, of "q_enqueue_pos q", folded q_def] fresh_put [OF V(1)] show ?thesis by linarith
  qed
  have deq: "pos_dif (c_sequence (q_buffer q ! cell_at B (q_dequeue_pos q))) (q_dequeue_pos q + 1) \<le> 0"
  proof -
    have less: "unat (q_dequeue_pos q) + 1 < 2 ^ 63" using M(2,4) bound by linarith
    then have nxt: "unat (q_dequeue_pos q + 1) = unat (q_dequeue_pos q) + 1" by (intro unat_next) simp
    have "unat (q_dequeue_pos q + 1) < 2 ^ 63" using nxt less by simp
    from dif_at [OF inv size bound this, of "q_dequeue_pos q", folded q_def] fresh_take [OF V(1)] nxt show ?thesis by linarith
  qed
  show ?thesis
    using step busy enq deq
    by (cases "thread s t")
       (auto simp: mpmc_step_def at_rest_def in_enqueue_def rank_def q_def Let_def set_cell_def split: if_splits)
qed

lemma rest_stays: "at_rest (thread s t) \<Longrightarrow> at_rest (thread (snd (mpmc_step B (t, Run) s)) t)"
  by (simp add: mpmc_step_def)

lemma solo_run:
  assumes "mpmc_size_ok B" and "mem_inv B k (mem s) (thread s) b" and "k + m + unat B < 2 ^ 63"
    and "rank (mem s) (thread s t) \<le> m"
  shows "at_rest (thread (snd (session (mpmc_step B) (replicate m (t, Run)) s)) t)"
  using assms(2-)
proof (induction m arbitrary: k s b)
  case 0
  then show ?case by (simp add: rank_0)
next
  case (Suc m)
  obtain a s1 where s1: "mpmc_step B (t, Run) s = (a, s1)" by (cases "mpmc_step B (t, Run) s")
  have bound: "k + 1 + unat B < 2 ^ 63" using Suc.prems(2) by simp
  obtain b1 where b1: "mem_inv B (Suc k) (mem s1) (thread s1) b1"
    using mpmc_step_sim [OF assms(1) bound Suc.prems(1) s1] by blast
  have "rank (mem s1) (thread s1 t) \<le> m"
    using rank_step [OF assms(1) bound Suc.prems(1) s1] Suc.prems(3) rest_stays [of s t B] s1 rank_0 [of "mem s1" "thread s1 t"]
    by (cases "at_rest (thread s t)") auto
  then show ?case using Suc.IH [OF b1] Suc.prems(2) s1 by (simp add: Let_def split_beta)
qed

section \<open>Properties\<close>

text \<open>
  Two producers and a consumer on a queue of two cells: the second producer takes the first
  cell, the first producer loses its compare-and-exchange and then fails once spuriously, and
  the consumer comes while the second producer has not published yet.
\<close>

definition race :: "(nat \<times> nat choice) list" where
  "race = [(0, Call_enqueue 7), (1, Call_enqueue 8), (0, Run), (1, Run), (0, Run), (1, Run), (1, Run), (0, Run),
     (0, Run), (0, Fail_spuriously), (0, Run), (0, Run), (0, Run), (0, Run), (2, Call_dequeue), (2, Run), (2, Run),
     (1, Run), (1, Run), (2, Call_dequeue), (2, Run), (2, Run), (2, Run), (2, Run), (2, Run)]"

lemmas mpmc_run_defs = race_def mpmc_step_def at_rest_def in_enqueue_def mpmc_start_def mpmc_new_def
  pos_dif_def cell_at_def buffer_mask_def set_cell_def Let_def

lemma size_2: "mpmc_size_ok 2"
  by (simp add: mpmc_size_ok_def)

lemma race_acts:
  "filter (\<lambda>a. a \<noteq> Internal) (fst (session (mpmc_step 2) race (mpmc_start 2)))
     = [Claimed_put 1 8, Claimed_put 0 7, Finished_put 0, Refused_take 2, Finished_put 1, Claimed_take 2, Finished_take 2 (Some 8)]"
  by (simp add: mpmc_run_defs upt_rec)

text \<open>
  C13: the queue is first-in first-out under every interleaving.  For any schedule of any threads,
  short of 2^63 steps, the actions of the threads are those of a list of at most \<open>size\<close> items: the
  items are taken in the order in which they were put, each once, a consumer returns the very
  item its compare-and-exchange won, \<open>enqueue\<close> fails only if the list is full or a consumer is
  still busy with a cell, and \<open>dequeue\<close> fails only if the list is empty or a producer is.
\<close>

theorem mpmc_fifo:
  assumes "mpmc_size_ok B" and "length xs + unat B < 2 ^ 63"
  shows "\<exists>b. bag_run (unat B) (fst (session (mpmc_step B) xs (mpmc_start B))) bag_start = Some b
           \<and> length (items b) = unat (q_enqueue_pos (mem (snd (session (mpmc_step B) xs (mpmc_start B)))))
                                - unat (q_dequeue_pos (mem (snd (session (mpmc_step B) xs (mpmc_start B)))))"
proof -
  obtain b where "bag_run (unat B) (fst (session (mpmc_step B) xs (mpmc_start B))) bag_start = Some b"
    and inv: "mem_inv B (length xs) (mem (snd (session (mpmc_step B) xs (mpmc_start B))))
           (thread (snd (session (mpmc_step B) xs (mpmc_start B)))) b"
    using session_sim [OF assms(1) mpmc_start_inv [OF assms(1)], of xs] assms(2) by auto
  then show ?thesis using view_invD(4) [OF mem_invD(3) [OF inv assms(1)]] by blast
qed

theorem mpmc_fifo_witness:
  "(\<exists>b. bag_run 2 (fst (session (mpmc_step 2) race (mpmc_start 2))) bag_start = Some b)
   \<and> filter (\<lambda>a. a \<noteq> Internal) (fst (session (mpmc_step 2) race (mpmc_start 2)))
     = [Claimed_put 1 8, Claimed_put 0 7, Finished_put 0, Refused_take 2, Finished_put 1, Claimed_take 2, Finished_take 2 (Some 8)]"
  using mpmc_fifo [OF size_2, of race] race_acts by (auto simp: race_def)

definition held_cell :: "u64 \<Rightarrow> 'a pc \<Rightarrow> nat option" where
  "held_cell B p =
     (case p of Enq_Write _ pos \<Rightarrow> Some (cell_at B pos) | Enq_Publish pos \<Rightarrow> Some (cell_at B pos)
              | Deq_Read pos \<Rightarrow> Some (cell_at B pos) | Deq_Publish pos _ \<Rightarrow> Some (cell_at B pos) | _ \<Rightarrow> None)"

lemma held_ticket:
  assumes "mpmc_size_ok B"
  shows "held_cell B p = Some i \<longleftrightarrow>
     (\<exists>x. (put_ticket p = Some x \<or> take_ticket p = Some x) \<and> i = x mod unat B)"
  by (cases p) (auto simp: held_cell_def put_ticket_def take_ticket_def cell_at_mod [OF assms])

lemma held_apart:
  assumes size: "mpmc_size_ok B" and inv: "mem_inv B k q th b"
    and t: "held_cell B (th t) = Some i" and u: "held_cell B (th u) = Some i"
  shows "t = u"
proof -
  note V = view_invD [OF mem_invD(3) [OF inv size]] note apart = tickets_apart [OF V(1)]
  obtain x where x: "put_ticket (th t) = Some x \<or> take_ticket (th t) = Some x" "i = x mod unat B"
    using t held_ticket [OF size] by blast
  obtain y where y: "put_ticket (th u) = Some y \<or> take_ticket (th u) = Some y" "i = y mod unat B"
    using u held_ticket [OF size] by blast
  have eq: "x mod unat B = y mod unat B" using x y by simp
  have "(put_ticket (th t) = Some x \<and> put_ticket (th u) = Some y \<and> x = y)
      \<or> (take_ticket (th t) = Some x \<and> take_ticket (th u) = Some y \<and> x = y)"
    using x(1) y(1) apart(1,3) [OF _ _ eq] apart(2) [of x y] apart(2) [of y x] eq holdersI by metis
  then show ?thesis using V(2,3) by (auto simp: unique_def)
qed

text \<open>
  C32: no two threads are ever at work on the same cell.  Between the compare-and-exchange that
  won a cell and the store that publishes it, no other thread holds that cell, neither a producer
  nor a consumer, so that the plain accesses to its data never race; and every cell a thread
  works on is inside the buffer.
\<close>

theorem mpmc_exclusive:
  assumes "mpmc_size_ok B" and "length xs + unat B < 2 ^ 63"
    and "held_cell B (thread (snd (session (mpmc_step B) xs (mpmc_start B))) t) = Some i"
  shows "i < length (q_buffer (mem (snd (session (mpmc_step B) xs (mpmc_start B)))))
       \<and> (\<forall>u. held_cell B (thread (snd (session (mpmc_step B) xs (mpmc_start B))) u) = Some i \<longrightarrow> u = t)"
proof -
  obtain b where inv: "mem_inv B (length xs) (mem (snd (session (mpmc_step B) xs (mpmc_start B))))
           (thread (snd (session (mpmc_step B) xs (mpmc_start B)))) b"
    using session_sim [OF assms(1) mpmc_start_inv [OF assms(1)], of xs] assms(2) by auto
  have "i < length (q_buffer (mem (snd (session (mpmc_step B) xs (mpmc_start B)))))"
    using assms(3) mem_invD(5) [OF inv assms(1)] by (auto simp: held_cell_def split: pc.splits)
  then show ?thesis using held_apart [OF assms(1) inv _ assms(3)] by blast
qed

theorem mpmc_exclusive_witness:
  "held_cell 2 (thread (snd (session (mpmc_step 2) (take 13 race) (mpmc_start 2))) 1) = Some 0
   \<and> held_cell 2 (thread (snd (session (mpmc_step 2) (take 13 race) (mpmc_start 2))) 0) \<noteq> Some 0"
proof -
  have h: "held_cell 2 (thread (snd (session (mpmc_step 2) (take 13 race) (mpmc_start 2))) 1) = Some 0"
    by (simp add: mpmc_run_defs upt_rec held_cell_def)
  have "length (take 13 race) + unat (2::u64) < 2 ^ 63" by (simp add: race_def)
  from mpmc_exclusive [OF size_2 this h] h show ?thesis by (metis zero_neq_one)
qed

text \<open>
  C33: no operation depends on another thread to finish.  From any state, however the other threads
  were stopped, a thread inside \<open>enqueue\<close> or \<open>dequeue\<close> returns after at most six steps of its own
  if nobody else runs and its compare-and-exchange does not fail spuriously.
\<close>

theorem mpmc_solo_terminates:
  assumes "mpmc_size_ok B" and "length xs + 6 + unat B < 2 ^ 63"
  shows "at_rest (thread (snd (session (mpmc_step B) (xs @ replicate 6 (t, Run)) (mpmc_start B))) t)"
proof -
  obtain b where inv: "mem_inv B (length xs) (mem (snd (session (mpmc_step B) xs (mpmc_start B))))
           (thread (snd (session (mpmc_step B) xs (mpmc_start B)))) b"
    using session_sim [OF assms(1) mpmc_start_inv [OF assms(1)], of xs] assms(2) by auto
  show ?thesis using solo_run [OF assms(1) inv _ rank_le] assms(2)
    by (simp add: session_append Let_def split_beta)
qed

theorem mpmc_solo_terminates_witness:
  "\<not> at_rest (thread (snd (session (mpmc_step 2) (take 8 race) (mpmc_start 2))) 0)
   \<and> at_rest (thread (snd (session (mpmc_step 2) (take 8 race @ replicate 6 (0, Run)) (mpmc_start 2))) 0)"
proof -
  have "\<not> at_rest (thread (snd (session (mpmc_step 2) (take 8 race) (mpmc_start 2))) 0)"
    by (simp add: mpmc_run_defs upt_rec)
  moreover have "length (take 8 race) + 6 + unat (2::u64) < 2 ^ 63" by (simp add: race_def)
  ultimately show ?thesis using mpmc_solo_terminates [OF size_2, of "take 8 race" 0] by blast
qed

end
