(* ===== verification/Mpsc_Queue.thy ===== *)
theory Mpsc_Queue
  imports Threads
begin

text \<open>
  \<open>mpsc_queue\<close> of \<open>include/ten/mpsc_queue.hh\<close>: a linked queue that any number of threads fill and
  one thread drains, without a lock.

  A thread is a program point of \<open>push\<close> or \<open>pop\<close> with its local variables; one step is one access
  to the shared memory, and a schedule interleaves the steps in any way.  Only thread 0 calls \<open>pop\<close>.
  The steps are sequentially consistent.  The memory is a map from addresses to nodes: \<open>new\<close> takes any address that is
  not in use, one that was freed before included, and \<open>delete\<close> takes the node out of the map, so that
  a use of a node after its \<open>delete\<close>, and a \<open>delete\<close> of the stub, which is a member of the queue, is
  the action \<open>Fault\<close>.

  The specification is an automaton on a list.  A push takes effect with its exchange of the head.  A pop
  may fail when the list is empty, and also when at some moment of the pop a thread was between its exchange and the store that links its
  node; the specification has the former as \<open>f_linking\<close> and the latter as \<open>f_disturbed\<close>.
\<close>

section \<open>Model\<close>

record 'a node =
  n_next :: "nat option"
  n_value :: "'a option"

record 'a mpsc =
  m_heap :: "nat \<rightharpoonup> 'a node"
  m_head :: nat
  m_tail :: nat

text \<open>The address of \<open>_stub\<close>.\<close>

definition stub :: nat where
  "stub = 0"

definition mpsc_new :: "'a mpsc" where
  "mpsc_new = \<lparr>m_heap = [stub \<mapsto> \<lparr>n_next = None, n_value = None\<rparr>], m_head = stub, m_tail = stub\<rparr>"

text \<open>
  The points of \<open>push\<close> and \<open>pop\<close>, each named after the access the thread makes next.
\<close>

datatype 'a mpc =
    Resting
  | Push_Init 'a nat | Push_Exchange 'a nat | Push_Link nat nat
  | Pop_Next | Pop_Next2 nat | Pop_Head nat | Pop_Init nat | Pop_Exchange nat | Pop_Link nat nat | Pop_Next3 nat
  | Pop_Take nat nat | Pop_Return "'a option"

datatype 'a mact =
    Quiet | Fault
  | Pushed nat 'a | Linked nat | Pop_begun | Popped "'a option" | Pop_failed

definition load_next :: "nat \<Rightarrow> 'a mpsc \<Rightarrow> nat option option" where
  "load_next a q = map_option n_next (m_heap q a)"

definition store_next :: "nat \<Rightarrow> nat option \<Rightarrow> 'a mpsc \<Rightarrow> 'a mpsc option" where
  "store_next a x q = map_option (\<lambda>n. q\<lparr>m_heap := (m_heap q)(a \<mapsto> n\<lparr>n_next := x\<rparr>)\<rparr>) (m_heap q a)"

definition alloc_node :: "'a \<Rightarrow> nat \<Rightarrow> 'a mpsc \<Rightarrow> 'a mpsc" where
  "alloc_node v a q = q\<lparr>m_heap := (m_heap q)(a \<mapsto> \<lparr>n_next = None, n_value = Some v\<rparr>)\<rparr>"

fun push_step :: "nat \<Rightarrow> 'a mpc \<Rightarrow> 'a mpsc \<Rightarrow> 'a mact \<times> 'a mpc \<times> 'a mpsc" where
  "push_step t (Push_Init v n) q =
     (case store_next n None q of None \<Rightarrow> (Fault, Resting, q) | Some q' \<Rightarrow> (Quiet, Push_Exchange v n, q'))"
| "push_step t (Push_Exchange v n) q = (Pushed t v, Push_Link (m_head q) n, q\<lparr>m_head := n\<rparr>)"
| "push_step t (Push_Link prv n) q =
     (case store_next prv (Some n) q of None \<Rightarrow> (Fault, Resting, q) | Some q' \<Rightarrow> (Linked t, Resting, q'))"
| "push_step t p q = (Quiet, p, q)"

text \<open>The test of \<open>next\<close> that follows the first two loads.\<close>

fun pop_next :: "nat \<Rightarrow> nat option option \<Rightarrow> 'a mpsc \<Rightarrow> 'a mact \<times> 'a mpc \<times> 'a mpsc" where
  "pop_next tail None q = (Fault, Resting, q)"
| "pop_next tail (Some None) q = (Quiet, Pop_Head tail, q)"
| "pop_next tail (Some (Some n)) q = (Quiet, Pop_Take tail n, q)"

fun pop_step :: "'a mpc \<Rightarrow> 'a mpsc \<Rightarrow> 'a mact \<times> 'a mpc \<times> 'a mpsc" where
  "pop_step Pop_Next q =
     (if m_tail q = stub
      then (case load_next stub q of
              None \<Rightarrow> (Fault, Resting, q)
            | Some None \<Rightarrow> (Pop_failed, Pop_Return None, q)
            | Some (Some n) \<Rightarrow> (Quiet, Pop_Next2 n, q\<lparr>m_tail := n\<rparr>))
      else pop_next (m_tail q) (load_next (m_tail q) q) q)"
| "pop_step (Pop_Next2 tail) q = pop_next tail (load_next tail q) q"
| "pop_step (Pop_Head tail) q =
     (if tail \<noteq> m_head q then (Pop_failed, Pop_Return None, q) else (Quiet, Pop_Init tail, q))"
| "pop_step (Pop_Init tail) q =
     (case store_next stub None q of None \<Rightarrow> (Fault, Resting, q) | Some q' \<Rightarrow> (Quiet, Pop_Exchange tail, q'))"
| "pop_step (Pop_Exchange tail) q = (Quiet, Pop_Link tail (m_head q), q\<lparr>m_head := stub\<rparr>)"
| "pop_step (Pop_Link tail prv) q =
     (case store_next prv (Some stub) q of None \<Rightarrow> (Fault, Resting, q) | Some q' \<Rightarrow> (Quiet, Pop_Next3 tail, q'))"
| "pop_step (Pop_Next3 tail) q =
     (case load_next tail q of
        None \<Rightarrow> (Fault, Resting, q)
      | Some None \<Rightarrow> (Pop_failed, Pop_Return None, q)
      | Some (Some n) \<Rightarrow> (Quiet, Pop_Take tail n, q))"
| "pop_step (Pop_Take tail n) q =
     (case m_heap q tail of
        None \<Rightarrow> (Fault, Resting, q)
      | Some nd \<Rightarrow>
          if tail = stub then (Fault, Resting, q)
          else (Popped (n_value nd), Pop_Return (n_value nd), q\<lparr>m_tail := n, m_heap := (m_heap q)(tail := None)\<rparr>))"
| "pop_step p q = (Quiet, p, q)"

definition resting :: "'a mpc \<Rightarrow> bool" where
  "resting p \<longleftrightarrow> (case p of Resting \<Rightarrow> True | Pop_Return _ \<Rightarrow> True | _ \<Rightarrow> False)"

definition pushing :: "'a mpc \<Rightarrow> bool" where
  "pushing p \<longleftrightarrow> (case p of Push_Init _ _ \<Rightarrow> True | Push_Exchange _ _ \<Rightarrow> True | Push_Link _ _ \<Rightarrow> True | _ \<Rightarrow> False)"

text \<open>A resting thread starts the operation the schedule chooses; \<open>new\<close> returns the address it chooses.\<close>

datatype 'a mchoice = Call_push 'a nat | Call_pop | Go

record 'a msystem =
  m_mem :: "'a mpsc"
  m_thread :: "nat \<Rightarrow> 'a mpc"

fun mpsc_call :: "nat \<Rightarrow> 'a mchoice \<Rightarrow> 'a msystem \<Rightarrow> 'a mact \<times> 'a msystem" where
  "mpsc_call t (Call_push v a) s =
     (if m_heap (m_mem s) a = None
      then (Quiet, \<lparr>m_mem = alloc_node v a (m_mem s), m_thread = (m_thread s)(t := Push_Init v a)\<rparr>)
      else (Quiet, s))"
| "mpsc_call t Call_pop s =
     (if t = 0 then (Pop_begun, s\<lparr>m_thread := (m_thread s)(t := Pop_Next)\<rparr>) else (Quiet, s))"
| "mpsc_call t Go s = (Quiet, s)"

definition mpsc_step :: "nat \<times> 'a mchoice \<Rightarrow> 'a msystem \<Rightarrow> 'a mact \<times> 'a msystem" where
  "mpsc_step = (\<lambda>(t, c) s.
     if resting (m_thread s t) then mpsc_call t c s
     else let (a, p, q) = (if pushing (m_thread s t) then push_step t (m_thread s t) (m_mem s)
                           else pop_step (m_thread s t) (m_mem s))
          in (a, \<lparr>m_mem = q, m_thread = (m_thread s)(t := p)\<rparr>))"

definition mpsc_start :: "'a msystem" where
  "mpsc_start = \<lparr>m_mem = mpsc_new, m_thread = (\<lambda>_. Resting)\<rparr>"

section \<open>Specification\<close>

record 'a feed =
  f_items :: "'a list"
  f_linking :: "nat set"
  f_disturbed :: bool

definition feed_start :: "'a feed" where
  "feed_start = \<lparr>f_items = [], f_linking = {}, f_disturbed = False\<rparr>"

fun feed_step :: "'a mact \<Rightarrow> 'a feed \<Rightarrow> 'a feed option" where
  "feed_step Quiet b = Some b"
| "feed_step Fault b = None"
| "feed_step (Pushed t v) b =
     Some (b\<lparr>f_items := f_items b @ [v], f_linking := insert t (f_linking b), f_disturbed := True\<rparr>)"
| "feed_step (Linked t) b = (if t \<in> f_linking b then Some (b\<lparr>f_linking := f_linking b - {t}\<rparr>) else None)"
| "feed_step Pop_begun b = Some (b\<lparr>f_disturbed := (f_linking b \<noteq> {})\<rparr>)"
| "feed_step (Popped x) b =
     (case f_items b of [] \<Rightarrow> None | y # ys \<Rightarrow> if x = Some y then Some (b\<lparr>f_items := ys\<rparr>) else None)"
| "feed_step Pop_failed b = (if f_items b = [] \<or> f_disturbed b then Some b else None)"

fun feed_run :: "'a mact list \<Rightarrow> 'a feed \<Rightarrow> 'a feed option" where
  "feed_run [] b = Some b"
| "feed_run (a # as) b = (case feed_step a b of None \<Rightarrow> None | Some b' \<Rightarrow> feed_run as b')"

section \<open>Chains of nodes\<close>

text \<open>
  The nodes in the order of their exchanges: each points to the next, unless its link is among the pending ones \<open>P\<close>.
\<close>

fun chain :: "(nat \<Rightarrow> nat option) \<Rightarrow> (nat \<times> nat) set \<Rightarrow> nat list \<Rightarrow> bool" where
  "chain nx P [] \<longleftrightarrow> False"
| "chain nx P [a] \<longleftrightarrow> nx a = None \<and> (\<forall>b'. (a, b') \<notin> P)"
| "chain nx P (a # b # L) \<longleftrightarrow>
     (nx a = Some b \<and> (\<forall>b'. (a, b') \<notin> P) \<or> nx a = None \<and> (a, b) \<in> P \<and> (\<forall>b'. (a, b') \<in> P \<longrightarrow> b' = b)) \<and> chain nx P (b # L)"

lemma chain_not_Nil: "chain nx P L \<Longrightarrow> L \<noteq> []"
  by auto

lemma chain_cong: "(\<And>a. a \<in> set L \<Longrightarrow> nx a = nx' a) \<Longrightarrow> chain nx P L \<longleftrightarrow> chain nx' P L"
  by (induction nx P L rule: chain.induct) auto

lemma chain_other_link: "a \<notin> set L \<Longrightarrow> chain nx (insert (a, b) P) L \<longleftrightarrow> chain nx P L"
  by (induction nx P L rule: chain.induct) auto

lemma chain_snoc:
  assumes "chain nx P L" and "distinct L" and "n \<notin> set L" and "\<And>b. (n, b) \<notin> P" and "nx n = None"
  shows "chain nx (insert (last L, n) P) (L @ [n])"
  using assms
proof (induction nx P L rule: chain.induct)
  case (2 nx P a)
  then show ?case by force
next
  case (3 nx P a b L)
  then have "last (b # L) \<noteq> a" by (metis distinct.simps(2) last_in_set list.distinct(1))
  with 3 show ?case by (auto simp del: last.simps simp add: last_ConsR)
qed simp

lemma chain_link:
  assumes "chain nx P L" and "distinct L" and "(a, b) \<in> P" and "nx' a = Some b" and "\<And>c. c \<noteq> a \<Longrightarrow> nx' c = nx c"
  shows "chain nx' (P - {(a, b)}) L"
  using assms
proof (induction nx P L rule: chain.induct)
  case (2 nx P c)
  then show ?case by (cases "c = a") auto
next
  case (3 nx P c d L)
  have rest: "chain nx' (P - {(a, b)}) (d # L)" by (rule 3(1)) (use 3(2-6) in simp_all)
  show ?case
  proof (cases "c = a")
    case True
    then have d: "\<forall>b'. (c, b') \<in> P \<longrightarrow> b' = d" using 3(2,4) by auto
    with True 3(4) have "d = b" by blast
    with True rest d 3(5) show ?thesis by auto
  next
    case False
    with rest 3(2) 3(6) [OF False] show ?thesis by auto
  qed
qed simp

lemma chain_pending: "chain nx P L \<Longrightarrow> (a, b) \<in> P \<Longrightarrow> a \<in> set L \<Longrightarrow> nx a = None \<and> b \<in> set L"
  by (induction nx P L rule: chain.induct) (auto simp: image_iff)

lemma chain_last: "chain nx P L \<Longrightarrow> nx (last L) = None"
  by (induction nx P L rule: chain.induct) auto

lemma chain_hd_Some:
  "chain nx P (a # L) \<Longrightarrow> nx a = Some b \<Longrightarrow> \<exists>L'. L = b # L' \<and> chain nx P L \<and> (\<forall>b'. (a, b') \<notin> P)"
  by (cases L) auto

lemma chain_hd_None: "chain nx P (a # L) \<Longrightarrow> nx a = None \<Longrightarrow> L = [] \<or> (\<exists>b. (a, b) \<in> P)"
  by (cases L) auto

section \<open>Shape of the list\<close>

definition nxt :: "'a mpsc \<Rightarrow> nat \<Rightarrow> nat option" where
  "nxt q a = (case m_heap q a of None \<Rightarrow> None | Some n \<Rightarrow> n_next n)"

definition val :: "'a mpsc \<Rightarrow> nat \<Rightarrow> 'a option" where
  "val q a = (case m_heap q a of None \<Rightarrow> None | Some n \<Rightarrow> n_value n)"

text \<open>
  \<open>L\<close> has the nodes from the tail to the head in the order of the exchanges, \<open>P\<close> the links that are
  still to be stored, \<open>F\<close> the nodes that are allocated and not yet in the list; the memory has no other nodes but the stub.
\<close>

definition shape :: "'a mpsc \<Rightarrow> (nat \<times> nat) set \<Rightarrow> nat set \<Rightarrow> nat list \<Rightarrow> 'a list \<Rightarrow> bool" where
  "shape q P F L xs \<longleftrightarrow>
     chain (nxt q) P L \<and> distinct L \<and> hd L = m_tail q \<and> last L = m_head q \<and> (\<forall>a b. (a, b) \<in> P \<longrightarrow> a \<in> set L)
   \<and> F \<inter> insert stub (set L) = {} \<and> dom (m_heap q) = insert stub (set L \<union> F)
   \<and> map (val q) (filter (\<lambda>a. a \<noteq> stub) L) = map Some xs"

lemma shapeD:
  assumes "shape q P F L xs"
  shows "chain (nxt q) P L" and "distinct L" and "hd L = m_tail q" and "last L = m_head q" and "(a, b) \<in> P \<Longrightarrow> a \<in> set L"
    and "F \<inter> insert stub (set L) = {}" and "dom (m_heap q) = insert stub (set L \<union> F)"
    and "map (val q) (filter (\<lambda>a. a \<noteq> stub) L) = map Some xs" and "L \<noteq> []"
  using assms chain_not_Nil by (auto simp: shape_def)

lemma val_cong:
  "(\<And>a. a \<in> set L \<Longrightarrow> val q' a = val q a) \<Longrightarrow>
     map (val q') (filter (\<lambda>a. a \<noteq> stub) L) = map (val q) (filter (\<lambda>a. a \<noteq> stub) L)"
  by simp

lemma nxt_simps [simp]:
  "nxt (q\<lparr>m_head := h\<rparr>) = nxt q" "nxt (q\<lparr>m_tail := h\<rparr>) = nxt q"
  "val (q\<lparr>m_head := h\<rparr>) = val q" "val (q\<lparr>m_tail := h\<rparr>) = val q"
  by (simp_all add: fun_eq_iff nxt_def val_def)

lemma store_next_live:
  assumes "a \<in> dom (m_heap q)"
  obtains q' where "store_next a x q = Some q'" and "nxt q' = (nxt q)(a := x)" and "val q' = val q"
    and "dom (m_heap q') = dom (m_heap q)" and "m_head q' = m_head q" and "m_tail q' = m_tail q"
proof -
  obtain n where n: "m_heap q a = Some n" using assms by blast
  define q' where "q' = q\<lparr>m_heap := (m_heap q)(a \<mapsto> n\<lparr>n_next := x\<rparr>)\<rparr>"
  show ?thesis
    by (rule that [of q']) (use n in \<open>auto simp: q'_def store_next_def nxt_def val_def fun_eq_iff\<close>)
qed

lemma load_next_live: "a \<in> dom (m_heap q) \<Longrightarrow> load_next a q = Some (nxt q a)"
  by (auto simp: load_next_def nxt_def)

lemma shape_live:
  assumes "shape q P F L xs"
  shows "stub \<in> dom (m_heap q)" and "m_tail q \<in> dom (m_heap q)" and "a \<in> F \<Longrightarrow> a \<in> dom (m_heap q)"
    and "(a, b) \<in> P \<Longrightarrow> a \<in> dom (m_heap q)"
  using shapeD(3,5,7,9) [OF assms] hd_in_set [of L] by (auto simp: image_iff)

lemma shape_alloc:
  assumes "shape q P F L xs" and "m_heap q a = None"
  shows "shape (alloc_node v a q) P (insert a F) L xs"
    and "nxt (alloc_node v a q) = (nxt q)(a := None)" and "val (alloc_node v a q) = (val q)(a := Some v)"
proof -
  note S = shapeD [OF assms(1)]
  have a: "a \<notin> insert stub (set L)" using S(7) assms(2) by auto
  show n: "nxt (alloc_node v a q) = (nxt q)(a := None)" "val (alloc_node v a q) = (val q)(a := Some v)"
    by (simp_all add: fun_eq_iff nxt_def val_def alloc_node_def)
  have "chain (nxt (alloc_node v a q)) P L" unfolding n using S(1) a by (subst chain_cong [of L _ "nxt q"]) auto
  moreover have "map (val (alloc_node v a q)) (filter (\<lambda>a. a \<noteq> stub) L) = map Some xs"
    using a S(8) by (subst val_cong [of L _ q]) (auto simp: n)
  ultimately show "shape (alloc_node v a q) P (insert a F) L xs"
    using S(2-7) a unfolding shape_def by (auto simp: alloc_node_def)
qed

lemma shape_store_outside:
  assumes "shape q P F L xs" and "a \<in> F \<or> a = stub \<and> stub \<notin> set L"
    and "nxt q' = (nxt q)(a := x)" and "val q' = val q" and "dom (m_heap q') = dom (m_heap q)"
    and "m_head q' = m_head q" and "m_tail q' = m_tail q"
  shows "shape q' P F L xs"
proof -
  note S = shapeD [OF assms(1)]
  have "a \<notin> set L" using S(6) assms(2) by auto
  then have "chain (nxt q') P L" unfolding assms(3) using S(1) by (subst chain_cong [of L _ "nxt q"]) auto
  then show ?thesis using S(2-8) assms(4-7) unfolding shape_def by simp
qed

lemma shape_link:
  assumes "shape q P F L xs" and "(a, b) \<in> P"
    and "nxt q' = (nxt q)(a := Some b)" and "val q' = val q" and "dom (m_heap q') = dom (m_heap q)"
    and "m_head q' = m_head q" and "m_tail q' = m_tail q"
  shows "shape q' (P - {(a, b)}) F L xs"
proof -
  note S = shapeD [OF assms(1)]
  have "chain (nxt q') (P - {(a, b)}) L" by (rule chain_link [OF S(1,2) assms(2)]) (simp_all add: assms(3))
  then show ?thesis using S(2-8) assms(4-7) unfolding shape_def by auto
qed

lemma shape_push:
  assumes "shape q P F L xs" and "n \<in> F" and "nxt q n = None" and "val q n = Some v"
  shows "shape (q\<lparr>m_head := n\<rparr>) (insert (m_head q, n) P) (F - {n}) (L @ [n]) (xs @ [v])"
proof -
  note S = shapeD [OF assms(1)]
  have n: "n \<notin> set L" "n \<noteq> stub" using S(6) assms(2) by auto
  have "chain (nxt q) (insert (last L, n) P) (L @ [n])" using S(1,2,5) n assms(3) by (intro chain_snoc) auto
  then show ?thesis using S n assms(2,4) last_in_set [OF S(9)] unfolding shape_def by (auto simp: hd_append)
qed

lemma shape_push_stub:
  assumes "shape q P F L xs" and "stub \<notin> set L" and "nxt q stub = None"
  shows "shape (q\<lparr>m_head := stub\<rparr>) (insert (m_head q, stub) P) F (L @ [stub]) xs"
proof -
  note S = shapeD [OF assms(1)]
  have "chain (nxt q) (insert (last L, stub) P) (L @ [stub])" using S(1,2,5) assms(2,3) by (intro chain_snoc) auto
  then show ?thesis using S assms(2) last_in_set [OF S(9)] unfolding shape_def by (auto simp: hd_append)
qed

lemma shape_tail:
  assumes "shape q P F L xs" and "nxt q (m_tail q) = Some n"
  obtains L' where "L = m_tail q # L'" and "chain (nxt q) P L'" and "hd L' = n" and "n \<in> set L'"
    and "last L' = m_head q" and "\<And>a b. (a, b) \<in> P \<Longrightarrow> a \<in> set L'" and "n \<noteq> m_tail q"
proof -
  note S = shapeD [OF assms(1)]
  obtain L' where L: "L = m_tail q # L'" using S(3,9) by (metis list.collapse)
  have "\<exists>L''. L' = n # L'' \<and> chain (nxt q) P L' \<and> (\<forall>b. (m_tail q, b) \<notin> P)"
    using chain_hd_Some [of "nxt q" P "m_tail q" L' n] S(1) assms(2) unfolding L by blast
  then obtain L'' where L': "L' = n # L''" "chain (nxt q) P L'" "\<forall>b. (m_tail q, b) \<notin> P" by blast
  show ?thesis
  proof (rule that [OF L L'(2)])
    show "a \<in> set L'" if "(a, b) \<in> P" for a b using S(5) [OF that] L L'(3) that by auto
    show "last L' = m_head q" using S(4) L L'(1) by simp
    show "n \<noteq> m_tail q" using S(2) L L'(1) by auto
  qed (simp_all add: L'(1))
qed

lemma shape_skip_stub:
  assumes "shape q P F L xs" and "m_tail q = stub" and "nxt q stub = Some n"
  shows "\<exists>L'. shape (q\<lparr>m_tail := n\<rparr>) P F L' xs \<and> n \<noteq> stub \<and> L = stub # L'"
proof -
  obtain L' where "L = stub # L'" "chain (nxt q) P L'" "hd L' = n" "last L' = m_head q" "\<And>a b. (a, b) \<in> P \<Longrightarrow> a \<in> set L'" "n \<noteq> stub"
    using shape_tail [OF assms(1), of n] assms(2,3) by metis
  with shapeD [OF assms(1)] show ?thesis unfolding shape_def by (intro exI [of _ L']) auto
qed

lemma shape_take:
  assumes "shape q P F L xs" and "m_tail q \<noteq> stub" and "nxt q (m_tail q) = Some n"
  shows "\<exists>L' y ys. xs = y # ys \<and> val q (m_tail q) = Some y
           \<and> shape (q\<lparr>m_tail := n, m_heap := (m_heap q)(m_tail q := None)\<rparr>) P F L' ys \<and> L = m_tail q # L'"
proof -
  note S = shapeD [OF assms(1)]
  define q' where "q' = q\<lparr>m_tail := n, m_heap := (m_heap q)(m_tail q := None)\<rparr>"
  obtain L' where L: "L = m_tail q # L'" "chain (nxt q) P L'" "hd L' = n" "last L' = m_head q" "\<And>a b. (a, b) \<in> P \<Longrightarrow> a \<in> set L'"
    using shape_tail [OF assms(1,3)] by metis
  have t: "m_tail q \<notin> set L'" "m_tail q \<notin> F" using S(2,6) L(1) by auto
  obtain y ys where xs: "xs = y # ys" "val q (m_tail q) = Some y"
      "map (val q) (filter (\<lambda>a. a \<noteq> stub) L') = map Some ys"
    using S(8) assms(2) L(1) by auto
  have same: "nxt q' a = nxt q a" "val q' a = val q a" if "a \<in> set L'" for a
    using that t by (auto simp: q'_def nxt_def val_def)
  have "chain (nxt q') P L'" using L(2) chain_cong [of L' "nxt q" "nxt q'" P] same(1) by simp
  moreover have "map (val q') (filter (\<lambda>a. a \<noteq> stub) L') = map Some ys"
    using val_cong [of L' q' q] same(2) xs(3) by simp
  moreover have "dom (m_heap q') = insert stub (set L' \<union> F)" using S(7) L(1) t assms(2) by (auto simp: q'_def)
  ultimately have "shape q' P F L' ys" using S(2,6) L unfolding shape_def by (auto simp: q'_def)
  with xs(1,2) L(1) show ?thesis unfolding q'_def by blast
qed

section \<open>Invariant\<close>

definition fresh_node :: "'a mpc \<Rightarrow> nat option" where
  "fresh_node p = (case p of Push_Init _ n \<Rightarrow> Some n | Push_Exchange _ n \<Rightarrow> Some n | _ \<Rightarrow> None)"

definition pending :: "'a mpc \<Rightarrow> (nat \<times> nat) option" where
  "pending p = (case p of Push_Link a b \<Rightarrow> Some (a, b) | Pop_Link _ a \<Rightarrow> Some (a, stub) | _ \<Rightarrow> None)"

definition linking :: "'a mpc \<Rightarrow> bool" where
  "linking p \<longleftrightarrow> (case p of Push_Link _ _ \<Rightarrow> True | _ \<Rightarrow> False)"

definition popping :: "'a mpc \<Rightarrow> bool" where
  "popping p \<longleftrightarrow> \<not> resting p \<and> \<not> pushing p"

lemmas point_defs = fresh_node_def pending_def linking_def popping_def resting_def pushing_def

definition push_ok :: "'a mpsc \<Rightarrow> 'a mpc \<Rightarrow> bool" where
  "push_ok q p =
     (case p of
        Push_Init v n \<Rightarrow> val q n = Some v
      | Push_Exchange v n \<Rightarrow> val q n = Some v \<and> nxt q n = None
      | _ \<Rightarrow> True)"

definition pop_ok :: "'a mpsc \<Rightarrow> nat list \<Rightarrow> bool \<Rightarrow> 'a mpc \<Rightarrow> bool" where
  "pop_ok q L d p =
     (case p of
        Pop_Next2 x \<Rightarrow> x = m_tail q \<and> x \<noteq> stub
      | Pop_Head x \<Rightarrow> x = m_tail q \<and> x \<noteq> stub \<and> (L = [x] \<or> d)
      | Pop_Init x \<Rightarrow> x = m_tail q \<and> x \<noteq> stub \<and> stub \<notin> set L
      | Pop_Exchange x \<Rightarrow> x = m_tail q \<and> x \<noteq> stub \<and> stub \<notin> set L \<and> nxt q stub = None
      | Pop_Link x _ \<Rightarrow> x = m_tail q \<and> x \<noteq> stub
      | Pop_Next3 x \<Rightarrow> x = m_tail q \<and> x \<noteq> stub \<and> (nxt q x = None \<longrightarrow> d)
      | Pop_Take x n \<Rightarrow> x = m_tail q \<and> x \<noteq> stub \<and> nxt q x = Some n
      | _ \<Rightarrow> True)"

definition threads_ok :: "'a mpsc \<Rightarrow> nat list \<Rightarrow> 'a feed \<Rightarrow> (nat \<Rightarrow> 'a mpc) \<Rightarrow> bool" where
  "threads_ok q L b th \<longleftrightarrow>
     unique pending th \<and> unique fresh_node th \<and> (\<forall>t. push_ok q (th t)) \<and> (\<forall>t. popping (th t) \<longrightarrow> t = 0)
   \<and> pop_ok q L (f_disturbed b) (th 0) \<and> f_linking b = {t. linking (th t)}
   \<and> (popping (th 0) \<and> f_linking b \<noteq> {} \<longrightarrow> f_disturbed b)"

definition mpsc_inv :: "'a mpsc \<Rightarrow> (nat \<Rightarrow> 'a mpc) \<Rightarrow> 'a feed \<Rightarrow> bool" where
  "mpsc_inv q th b \<longleftrightarrow>
     (\<exists>L. shape q (holders pending th) (holders fresh_node th) L (f_items b) \<and> threads_ok q L b th)"

lemma mpsc_invI:
  "shape q (holders pending th) (holders fresh_node th) L (f_items b) \<Longrightarrow> threads_ok q L b th \<Longrightarrow> mpsc_inv q th b"
  by (auto simp: mpsc_inv_def)

lemma threads_okD:
  assumes "threads_ok q L b th"
  shows "unique pending th" and "unique fresh_node th" and "push_ok q (th t)" and "popping (th t) \<Longrightarrow> t = 0"
    and "pop_ok q L (f_disturbed b) (th 0)" and "f_linking b = {t. linking (th t)}"
    and "popping (th 0) \<Longrightarrow> f_linking b \<noteq> {} \<Longrightarrow> f_disturbed b"
  using assms by (auto simp: threads_ok_def)

lemma pop_ok_mono:
  assumes "pop_ok q L d p" and "m_tail q' = m_tail q"
    and "\<And>n. nxt q (m_tail q) = Some n \<Longrightarrow> nxt q' (m_tail q) = Some n"
    and "stub \<notin> set L \<Longrightarrow> nxt q' stub = nxt q stub \<and> stub \<notin> set L'" and "L' = L \<and> (d \<longrightarrow> d') \<or> d'"
  shows "pop_ok q' L' d' p"
  using assms by (cases p) (auto simp: pop_ok_def)

lemma pop_ok_push: "\<not> popping p \<Longrightarrow> pop_ok q L d p"
  by (cases p) (auto simp: pop_ok_def popping_def resting_def pushing_def)

lemma push_ok_mono:
  "push_ok q p \<Longrightarrow> (\<And>n. fresh_node p = Some n \<Longrightarrow> nxt q' n = nxt q n \<and> val q' n = val q n) \<Longrightarrow> push_ok q' p"
  by (cases p) (auto simp: push_ok_def fresh_node_def)

text \<open>A step of thread \<open>t\<close> in \<open>push\<close>, and one of thread 0 in \<open>pop\<close>, keep what the other threads rely on.\<close>

lemma threads_push:
  assumes "threads_ok q L b th"
    and "\<And>u n. u \<noteq> t \<Longrightarrow> fresh_node (th u) = Some n \<Longrightarrow> nxt q' n = nxt q n \<and> val q' n = val q n"
    and "push_ok q' p" and "\<not> popping p"
    and "unique pending (th(t := p))" and "unique fresh_node (th(t := p))"
    and "t \<noteq> 0 \<Longrightarrow> pop_ok q' L' (f_disturbed b') (th 0)"
    and "f_linking b' = (if linking p then insert t (f_linking b) else f_linking b - {t})"
    and "f_disturbed b' = (f_disturbed b \<or> linking p)"
  shows "threads_ok q' L' b' (th(t := p))"
proof -
  note T = threads_okD [OF assms(1)]
  have "push_ok q' ((th(t := p)) u)" for u using push_ok_mono [OF T(3) [of u]] assms(2) [of u] assms(3) by simp
  moreover have "pop_ok q' L' (f_disturbed b') ((th(t := p)) 0)" using pop_ok_push [OF assms(4)] assms(7) by simp
  moreover have "f_linking b' = {u. linking ((th(t := p)) u)}" using assms(8) T(6) by auto
  moreover have "f_disturbed b'" if "popping ((th(t := p)) 0)" "f_linking b' \<noteq> {}"
    using that assms(4,8,9) T(7) by (auto split: if_splits)
  ultimately show ?thesis unfolding threads_ok_def using assms(4-6) T(4) by auto
qed

lemma threads_pop:
  assumes "threads_ok q L b th" and "popping (th 0)"
    and "\<And>u n. fresh_node (th u) = Some n \<Longrightarrow> nxt q' n = nxt q n \<and> val q' n = val q n"
    and "popping p \<or> resting p" and "unique pending (th(0 := p))"
    and "pop_ok q' L' (f_disturbed b) p" and "f_linking b' = f_linking b" and "f_disturbed b' = f_disturbed b"
  shows "threads_ok q' L' b' (th(0 := p))"
proof -
  note T = threads_okD [OF assms(1)]
  have p: "fresh_node p = None" "fresh_node (th 0) = None" "\<not> linking p" "\<not> linking (th 0)" "push_ok q' p"
    using assms(2,4) by (cases p; cases "th 0"; simp add: point_defs push_ok_def)+
  have "push_ok q' ((th(0 := p)) u)" for u using push_ok_mono [OF T(3) [of u]] assms(3) [of u] p(5) by simp
  moreover have "f_linking b' = {u. linking ((th(0 := p)) u)}" using assms(7) T(6) p(3,4) by auto
  moreover have "unique fresh_node (th(0 := p))" using T(2) p(1,2) by simp
  ultimately show ?thesis unfolding threads_ok_def using assms(2,5-8) T(4,7) by auto
qed

text \<open>A step that answers \<open>a\<close> and leaves thread \<open>t\<close> at \<open>p\<close> is one the specification takes.\<close>

definition followed :: "(nat \<Rightarrow> 'a mpc) \<Rightarrow> 'a feed \<Rightarrow> nat \<Rightarrow> 'a mact \<times> 'a mpc \<times> 'a mpsc \<Rightarrow> bool" where
  "followed th b t = (\<lambda>(a, p, q). \<exists>b'. feed_step a b = Some b' \<and> mpsc_inv q (th(t := p)) b')"

section \<open>Steps of a push\<close>

lemma push_init_sim:
  assumes "mpsc_inv q th b" and t: "th t = Push_Init v n"
  shows "followed th b t (push_step t (th t) q)"
proof -
  obtain L where S: "shape q (holders pending th) (holders fresh_node th) L (f_items b)" and T: "threads_ok q L b th"
    using assms(1) by (auto simp: mpsc_inv_def)
  note TD = threads_okD [OF T]
  have n: "fresh_node (th t) = Some n" "n \<in> holders fresh_node th" "n \<noteq> stub" "n \<notin> set L"
    using shapeD(6) [OF S] holdersI [of fresh_node th t n] by (auto simp: t fresh_node_def)
  obtain q' where q': "store_next n None q = Some q'" "nxt q' = (nxt q)(n := None)" "val q' = val q"
    "dom (m_heap q') = dom (m_heap q)" "m_head q' = m_head q" "m_tail q' = m_tail q"
    using store_next_live [OF shape_live(3) [OF S n(2)]] by blast
  have "m_tail q \<noteq> n" using hd_in_set [OF shapeD(9) [OF S]] shapeD(3) [OF S] n(4) by auto
  have "shape q' (holders pending th) (holders fresh_node th) L (f_items b)"
    by (rule shape_store_outside [OF S _ q'(2-6)]) (use n in simp)
  moreover have "threads_ok q' L b (th(t := Push_Exchange v n))"
  proof (rule threads_push [OF T])
    show "pop_ok q' L (f_disturbed b) (th 0)"
      using pop_ok_mono [OF TD(5), of q' L "f_disturbed b"] q' n \<open>m_tail q \<noteq> n\<close> by simp
    show "nxt q' m = nxt q m \<and> val q' m = val q m" if "u \<noteq> t" "fresh_node (th u) = Some m" for u m
      using that n(1) uniqueD [OF TD(2), of u m t] q'(2,3) by auto
    show "f_linking b = (if linking (Push_Exchange v n) then insert t (f_linking b) else f_linking b - {t})"
      using TD(6) by (simp add: linking_def t)
  qed (use TD(1,2) TD(3) [of t] q'(2,3) in \<open>simp_all add: point_defs t push_ok_def\<close>)
  ultimately show ?thesis using q'(1)
    by (auto simp: followed_def t point_defs intro!: mpsc_invI)
qed

lemma push_exchange_sim:
  assumes "mpsc_inv q th b" and t: "th t = Push_Exchange v n"
  shows "followed th b t (push_step t (th t) q)"
proof -
  obtain L where S: "shape q (holders pending th) (holders fresh_node th) L (f_items b)" and T: "threads_ok q L b th"
    using assms(1) by (auto simp: mpsc_inv_def)
  note TD = threads_okD [OF T]
  define p where "p = (Push_Link (m_head q) n :: 'a mpc)"
  define b' where "b' = b\<lparr>f_items := f_items b @ [v], f_linking := insert t (f_linking b), f_disturbed := True\<rparr>"
  have n: "fresh_node (th t) = Some n" "n \<in> holders fresh_node th" "n \<noteq> stub" "val q n = Some v" "nxt q n = None"
    using shapeD(6) [OF S] holdersI [of fresh_node th t n] TD(3) [of t] by (auto simp: t fresh_node_def push_ok_def)
  have p: "pending (th t) = None" "pending p = Some (m_head q, n)" "fresh_node p = None" "\<not> popping p" "linking p"
    by (simp_all add: p_def t point_defs)
  have new: "(m_head q, n) \<notin> holders pending th"
    using chain_pending [OF shapeD(1) [OF S]] shapeD(5) [OF S] shapeD(6) [OF S] n(2) by fastforce
  have "shape (q\<lparr>m_head := n\<rparr>) (holders pending (th(t := p))) (holders fresh_node (th(t := p))) (L @ [n]) (f_items b')"
    using shape_push [OF S n(2,5,4)] holders_add [of pending th t p, OF p(1,2)] holders_del [OF TD(2) n(1) p(3)]
    by (simp add: b'_def)
  moreover have "threads_ok (q\<lparr>m_head := n\<rparr>) (L @ [n]) b' (th(t := p))"
  proof (rule threads_push [OF T])
    show "pop_ok (q\<lparr>m_head := n\<rparr>) (L @ [n]) (f_disturbed b') (th 0)"
      using pop_ok_mono [OF TD(5), of "q\<lparr>m_head := n\<rparr>" "L @ [n]" True] n(3) by (simp add: b'_def)
    show "unique pending (th(t := p))" using unique_add [OF TD(1) p(2) new] .
    show "unique fresh_node (th(t := p))" using unique_del [of fresh_node, OF TD(2) p(3)] .
  qed (use p in \<open>simp_all add: b'_def p_def push_ok_def\<close>)
  ultimately have "mpsc_inv (q\<lparr>m_head := n\<rparr>) (th(t := p)) b'" by (rule mpsc_invI)
  then show ?thesis by (auto simp: followed_def t p_def b'_def)
qed

lemma push_link_sim:
  assumes "mpsc_inv q th b" and t: "th t = Push_Link a n"
  shows "followed th b t (push_step t (th t) q)"
proof -
  obtain L where S: "shape q (holders pending th) (holders fresh_node th) L (f_items b)" and T: "threads_ok q L b th"
    using assms(1) by (auto simp: mpsc_inv_def)
  note TD = threads_okD [OF T]
  define b' where "b' = b\<lparr>f_linking := f_linking b - {t}\<rparr>"
  have n: "pending (th t) = Some (a, n)" "(a, n) \<in> holders pending th" "fresh_node (th t) = None" "linking (th t)"
    using holdersI [of pending th t "(a, n)"] by (auto simp: t point_defs)
  have none: "nxt q a = None" and a: "a \<in> set L"
    using chain_pending [OF shapeD(1) [OF S] n(2)] shapeD(5) [OF S n(2)] by simp_all
  obtain q' where q': "store_next a (Some n) q = Some q'" "nxt q' = (nxt q)(a := Some n)" "val q' = val q"
    "dom (m_heap q') = dom (m_heap q)" "m_head q' = m_head q" "m_tail q' = m_tail q"
    using store_next_live [OF shape_live(4) [OF S n(2)]] by blast
  have r: "pending (Resting :: 'a mpc) = None" "fresh_node (Resting :: 'a mpc) = None" by (simp_all add: point_defs)
  have "shape q' (holders pending (th(t := Resting))) (holders fresh_node (th(t := Resting))) L (f_items b')"
    using shape_link [OF S n(2) q'(2-6)] holders_del [OF TD(1) n(1) r(1)] n(3) r(2) by (simp add: b'_def)
  moreover have "threads_ok q' L b' (th(t := Resting))"
  proof (rule threads_push [OF T])
    show "pop_ok q' L (f_disturbed b') (th 0)"
      by (rule pop_ok_mono [OF TD(5)]) (use q' none a in \<open>auto simp: b'_def\<close>)
    show "nxt q' m = nxt q m \<and> val q' m = val q m" if "u \<noteq> t" "fresh_node (th u) = Some m" for u m
      using shapeD(6) [OF S] holdersI [of fresh_node th u m] that(2) a q'(2,3) by auto
    show "unique pending (th(t := Resting))" using unique_del [of pending, OF TD(1) r(1)] .
    show "unique fresh_node (th(t := Resting))" using unique_del [of fresh_node, OF TD(2) r(2)] .
  qed (simp_all add: b'_def push_ok_def point_defs)
  ultimately have "mpsc_inv q' (th(t := Resting)) b'" by (rule mpsc_invI)
  moreover have "t \<in> f_linking b" using TD(6) n(4) by simp
  ultimately show ?thesis using q'(1) by (auto simp: followed_def t b'_def)
qed

section \<open>Steps of a pop\<close>

text \<open>A step of \<open>pop\<close> that changes the memory at no node of a producer, and neither claims nor stores a link.\<close>

lemma pop_plain:
  assumes S: "shape q (holders pending th) (holders fresh_node th) L (f_items b)" and T: "threads_ok q L b th"
    and pt: "popping (th 0)" "pending (th 0) = None" and p: "popping p \<or> resting p" "pending p = None"
    and b': "feed_step a b = Some b'" "f_linking b' = f_linking b" "f_disturbed b' = f_disturbed b"
    and S': "shape q' (holders pending th) (holders fresh_node th) L' (f_items b')"
    and same: "\<And>n. n \<in> holders fresh_node th \<Longrightarrow> nxt q' n = nxt q n \<and> val q' n = val q n"
    and ok: "pop_ok q' L' (f_disturbed b) p"
  shows "followed th b 0 (a, p, q')"
proof -
  have f: "fresh_node (th 0) = None" "fresh_node p = None"
    using pt(1) p(1) by (cases "th 0"; cases p; simp add: point_defs)+
  have "threads_ok q' L' b' (th(0 := p))"
    by (rule threads_pop [OF T pt(1) _ p(1)]) (use same holdersI threads_okD(1) [OF T] pt(2) p(2) ok b' in \<open>fastforce+\<close>)
  with S' f pt(2) p(2) have "mpsc_inv q' (th(0 := p)) b'" by (intro mpsc_invI [of _ _ L']) simp_all
  with b'(1) show ?thesis by (auto simp: followed_def)
qed

lemma pending_disturbed:
  assumes "threads_ok q L b th" and "popping (th 0)" and "pending (th u) = Some x" and "u \<noteq> 0"
  shows "f_disturbed b"
proof -
  note T = threads_okD [OF assms(1)]
  have "linking (th u)" using assms(3,4) T(4) [of u] by (cases "th u") (simp_all add: point_defs)
  then show ?thesis using T(6,7) assms(2) by blast
qed

lemma last_or_disturbed:
  assumes S: "shape q (holders pending th) F L xs" and T: "threads_ok q L b th" and "popping (th 0)"
    and "nxt q (m_tail q) = None" and "\<And>x. pending (th 0) = Some x \<Longrightarrow> fst x \<noteq> m_tail q"
  shows "L = [m_tail q] \<or> f_disturbed b"
proof -
  obtain L' where L: "L = m_tail q # L'" using shapeD(3,9) [OF S] by (metis list.collapse)
  then have "L' = [] \<or> (\<exists>n. (m_tail q, n) \<in> holders pending th)"
    using chain_hd_None [of "nxt q" _ "m_tail q" L'] shapeD(1) [OF S] assms(4) by blast
  moreover have "f_disturbed b" if n: "(m_tail q, n) \<in> holders pending th" for n
  proof -
    obtain u where u: "pending (th u) = Some (m_tail q, n)" using n by (auto simp: holders_def)
    then have "u \<noteq> 0" using assms(5) by fastforce
    with u show ?thesis using pending_disturbed [OF T assms(3)] by blast
  qed
  ultimately show ?thesis using L by blast
qed

lemma pop_next_sim:
  assumes S: "shape q (holders pending th) (holders fresh_node th) L (f_items b)" and T: "threads_ok q L b th"
    and pt: "popping (th 0)" "pending (th 0) = None" and tail: "m_tail q \<noteq> stub"
  shows "followed th b 0 (pop_next (m_tail q) (load_next (m_tail q) q) q)"
proof (cases "nxt q (m_tail q)")
  case None
  have "followed th b 0 (Quiet, Pop_Head (m_tail q), q)"
    by (rule pop_plain [OF S T pt _ _ _ _ _ S])
       (use tail last_or_disturbed [OF S T pt(1) None] pt(2) in \<open>auto simp: point_defs pop_ok_def\<close>)
  then show ?thesis using load_next_live [OF shape_live(2) [OF S]] None by simp
next
  case (Some n)
  have "followed th b 0 (Quiet, Pop_Take (m_tail q) n, q)"
    by (rule pop_plain [OF S T pt _ _ _ _ _ S]) (use tail Some in \<open>auto simp: point_defs pop_ok_def\<close>)
  then show ?thesis using load_next_live [OF shape_live(2) [OF S]] Some by simp
qed

lemma pop_first_sim:
  assumes "mpsc_inv q th b" and t: "th 0 = Pop_Next"
  shows "followed th b 0 (pop_step (th 0) q)"
proof -
  obtain L where S: "shape q (holders pending th) (holders fresh_node th) L (f_items b)" and T: "threads_ok q L b th"
    using assms(1) by (auto simp: mpsc_inv_def)
  have pt: "popping (th 0)" "pending (th 0) = None" by (simp_all add: t point_defs)
  note load = load_next_live [OF shape_live(1) [OF S]]
  show ?thesis
  proof (cases "m_tail q = stub")
    case False
    then show ?thesis using pop_next_sim [OF S T pt] by (simp add: t)
  next
    case tail: True
    show ?thesis
    proof (cases "nxt q stub")
      case None
      have "L = [stub] \<or> f_disturbed b" using last_or_disturbed [OF S T pt(1)] None tail pt(2) by simp
      then have "f_items b = [] \<or> f_disturbed b" using shapeD(8) [OF S] by auto
      then have "followed th b 0 (Pop_failed, Pop_Return None, q)"
        by (intro pop_plain [OF S T pt _ _ _ _ _ S]) (auto simp: point_defs pop_ok_def)
      then show ?thesis using None tail load by (simp add: t)
    next
      case (Some n)
      obtain L' where L': "shape (q\<lparr>m_tail := n\<rparr>) (holders pending th) (holders fresh_node th) L' (f_items b)" "n \<noteq> stub"
        using shape_skip_stub [OF S tail Some] by blast
      have "followed th b 0 (Quiet, Pop_Next2 n, q\<lparr>m_tail := n\<rparr>)"
        by (rule pop_plain [OF S T pt _ _ _ _ _ L'(1)]) (use L'(2) in \<open>auto simp: point_defs pop_ok_def\<close>)
      then show ?thesis using Some tail load by (simp add: t)
    qed
  qed
qed

lemma pop_head_sim:
  assumes "mpsc_inv q th b" and t: "th 0 = Pop_Head x"
  shows "followed th b 0 (pop_step (th 0) q)"
proof -
  obtain L where S: "shape q (holders pending th) (holders fresh_node th) L (f_items b)" and T: "threads_ok q L b th"
    using assms(1) by (auto simp: mpsc_inv_def)
  have pt: "popping (th 0)" "pending (th 0) = None" by (simp_all add: t point_defs)
  have x: "x = m_tail q" "x \<noteq> stub" "L = [x] \<or> f_disturbed b"
    using threads_okD(5) [OF T] by (auto simp: t pop_ok_def)
  show ?thesis
  proof (cases "x = m_head q")
    case False
    then have "f_disturbed b" using x(3) shapeD(4) [OF S] by auto
    then have "followed th b 0 (Pop_failed, Pop_Return None, q)"
      by (intro pop_plain [OF S T pt _ _ _ _ _ S]) (auto simp: point_defs pop_ok_def)
    with False show ?thesis by (simp add: t)
  next
    case True
    then have "hd L = last L" using shapeD(3,4) [OF S] x(1) by simp
    then have "L = [x]" using shapeD(2,3,9) [OF S] x(1) by (cases L) (auto split: if_splits)
    then have "followed th b 0 (Quiet, Pop_Init x, q)"
      by (intro pop_plain [OF S T pt _ _ _ _ _ S]) (use x in \<open>auto simp: point_defs pop_ok_def\<close>)
    with True show ?thesis by (simp add: t)
  qed
qed

lemma pop_init_sim:
  assumes "mpsc_inv q th b" and t: "th 0 = Pop_Init x"
  shows "followed th b 0 (pop_step (th 0) q)"
proof -
  obtain L where S: "shape q (holders pending th) (holders fresh_node th) L (f_items b)" and T: "threads_ok q L b th"
    using assms(1) by (auto simp: mpsc_inv_def)
  have pt: "popping (th 0)" "pending (th 0) = None" by (simp_all add: t point_defs)
  have x: "x = m_tail q" "x \<noteq> stub" "stub \<notin> set L" using threads_okD(5) [OF T] by (simp_all add: t pop_ok_def)
  obtain q' where q': "store_next stub None q = Some q'" "nxt q' = (nxt q)(stub := None)" "val q' = val q"
    "dom (m_heap q') = dom (m_heap q)" "m_head q' = m_head q" "m_tail q' = m_tail q"
    using store_next_live [OF shape_live(1) [OF S]] by blast
  have S': "shape q' (holders pending th) (holders fresh_node th) L (f_items b)"
    by (rule shape_store_outside [OF S _ q'(2-6)]) (use x(3) in simp)
  have "followed th b 0 (Quiet, Pop_Exchange x, q')"
    by (rule pop_plain [OF S T pt _ _ _ _ _ S'])
       (use x q' shapeD(6) [OF S] in \<open>auto simp: point_defs pop_ok_def\<close>)
  with q'(1) show ?thesis by (simp add: t)
qed

lemma pop_exchange_sim:
  assumes "mpsc_inv q th b" and t: "th 0 = Pop_Exchange x"
  shows "followed th b 0 (pop_step (th 0) q)"
proof -
  obtain L where S: "shape q (holders pending th) (holders fresh_node th) L (f_items b)" and T: "threads_ok q L b th"
    using assms(1) by (auto simp: mpsc_inv_def)
  define p where "p = (Pop_Link x (m_head q) :: 'a mpc)"
  have pt: "popping (th 0)" "pending (th 0) = None" "fresh_node (th 0) = None" by (simp_all add: t point_defs)
  have p: "popping p" "pending p = Some (m_head q, stub)" "fresh_node p = None" by (simp_all add: p_def point_defs)
  have x: "x = m_tail q" "x \<noteq> stub" "stub \<notin> set L" "nxt q stub = None"
    using threads_okD(5) [OF T] by (simp_all add: t pop_ok_def)
  have new: "(m_head q, stub) \<notin> holders pending th"
    using chain_pending [OF shapeD(1) [OF S]] shapeD(5) [OF S] x(3) by blast
  have "shape (q\<lparr>m_head := stub\<rparr>) (holders pending (th(0 := p))) (holders fresh_node (th(0 := p))) (L @ [stub]) (f_items b)"
    using shape_push_stub [OF S x(3,4)] holders_add [of pending th 0 p, OF pt(2) p(2)] pt(3) p(3) by simp
  moreover have "threads_ok (q\<lparr>m_head := stub\<rparr>) (L @ [stub]) b (th(0 := p))"
    by (rule threads_pop [OF T pt(1)])
       (use p(1) x unique_add [OF threads_okD(1) [OF T] p(2) new] in \<open>auto simp: pop_ok_def p_def\<close>)
  ultimately have "mpsc_inv (q\<lparr>m_head := stub\<rparr>) (th(0 := p)) b" by (rule mpsc_invI)
  then show ?thesis by (simp add: followed_def t p_def)
qed

lemma pop_link_sim:
  assumes "mpsc_inv q th b" and t: "th 0 = Pop_Link x a"
  shows "followed th b 0 (pop_step (th 0) q)"
proof -
  obtain L where S: "shape q (holders pending th) (holders fresh_node th) L (f_items b)" and T: "threads_ok q L b th"
    using assms(1) by (auto simp: mpsc_inv_def)
  define p where "p = (Pop_Next3 x :: 'a mpc)"
  have pt: "popping (th 0)" "pending (th 0) = Some (a, stub)" "fresh_node (th 0) = None" by (simp_all add: t point_defs)
  have p: "popping p" "pending p = None" "fresh_node p = None" by (simp_all add: p_def point_defs)
  have x: "x = m_tail q" "x \<noteq> stub" using threads_okD(5) [OF T] by (simp_all add: t pop_ok_def)
  have mem: "(a, stub) \<in> holders pending th" using holdersI [of pending th 0] pt(2) by blast
  have a: "a \<in> set L" "stub \<in> set L" using chain_pending [OF shapeD(1) [OF S] mem] shapeD(5) [OF S mem] by simp_all
  obtain q' where q': "store_next a (Some stub) q = Some q'" "nxt q' = (nxt q)(a := Some stub)" "val q' = val q"
    "dom (m_heap q') = dom (m_heap q)" "m_head q' = m_head q" "m_tail q' = m_tail q"
    using store_next_live [OF shape_live(4) [OF S mem]] by blast
  have "f_disturbed b" if "nxt q' x = None"
  proof -
    have "x \<noteq> a" "nxt q x = None" using that q'(2) by (auto split: if_splits)
    then have "L = [x] \<or> f_disturbed b" using last_or_disturbed [OF S T pt(1)] pt(2) x(1) by simp
    then show ?thesis using a(2) x(2) by auto
  qed
  then have ok: "pop_ok q' L (f_disturbed b) p" using x q'(6) by (simp add: p_def pop_ok_def)
  have "shape q' (holders pending (th(0 := p))) (holders fresh_node (th(0 := p))) L (f_items b)"
    using shape_link [OF S mem q'(2-6)] holders_del [OF threads_okD(1) [OF T] pt(2) p(2)] pt(3) p(3) by simp
  moreover have "threads_ok q' L b (th(0 := p))"
  proof (rule threads_pop [OF T pt(1)])
    show "nxt q' m = nxt q m \<and> val q' m = val q m" if "fresh_node (th u) = Some m" for u m
      using shapeD(6) [OF S] holdersI [of fresh_node th u m] that a q'(2,3) by auto
    show "unique pending (th(0 := p))" using unique_del [of pending, OF threads_okD(1) [OF T] p(2)] .
  qed (use p(1) ok in simp_all)
  ultimately have "mpsc_inv q' (th(0 := p)) b" by (rule mpsc_invI)
  then show ?thesis using q'(1) by (simp add: followed_def t p_def)
qed

lemma pop_third_sim:
  assumes "mpsc_inv q th b" and t: "th 0 = Pop_Next3 x"
  shows "followed th b 0 (pop_step (th 0) q)"
proof -
  obtain L where S: "shape q (holders pending th) (holders fresh_node th) L (f_items b)" and T: "threads_ok q L b th"
    using assms(1) by (auto simp: mpsc_inv_def)
  have pt: "popping (th 0)" "pending (th 0) = None" by (simp_all add: t point_defs)
  have x: "x = m_tail q" "x \<noteq> stub" "nxt q x = None \<Longrightarrow> f_disturbed b"
    using threads_okD(5) [OF T] by (simp_all add: t pop_ok_def)
  have load: "load_next x q = Some (nxt q x)" using load_next_live [OF shape_live(2) [OF S]] x(1) by simp
  show ?thesis
  proof (cases "nxt q x")
    case None
    then have "followed th b 0 (Pop_failed, Pop_Return None, q)"
      by (intro pop_plain [OF S T pt _ _ _ _ _ S]) (use x(3) in \<open>auto simp: point_defs pop_ok_def\<close>)
    with None load show ?thesis by (simp add: t)
  next
    case (Some n)
    then have "followed th b 0 (Quiet, Pop_Take x n, q)"
      by (intro pop_plain [OF S T pt _ _ _ _ _ S]) (use x in \<open>auto simp: point_defs pop_ok_def\<close>)
    with Some load show ?thesis by (simp add: t)
  qed
qed

lemma pop_take_sim:
  assumes "mpsc_inv q th b" and t: "th 0 = Pop_Take x n"
  shows "followed th b 0 (pop_step (th 0) q)"
proof -
  obtain L where S: "shape q (holders pending th) (holders fresh_node th) L (f_items b)" and T: "threads_ok q L b th"
    using assms(1) by (auto simp: mpsc_inv_def)
  have pt: "popping (th 0)" "pending (th 0) = None" by (simp_all add: t point_defs)
  have x: "x = m_tail q" "x \<noteq> stub" "nxt q x = Some n" using threads_okD(5) [OF T] by (auto simp: t pop_ok_def)
  define q' where "q' = q\<lparr>m_tail := n, m_heap := (m_heap q)(x := None)\<rparr>"
  obtain L' y ys where L': "f_items b = y # ys" "val q x = Some y"
      "shape q' (holders pending th) (holders fresh_node th) L' ys" "L = x # L'"
    using shape_take [OF S] x unfolding q'_def by metis
  have "followed th b 0 (Popped (Some y), Pop_Return (Some y), q')"
  proof (rule pop_plain [OF S T pt, where b' = "b\<lparr>f_items := ys\<rparr>"])
    show "nxt q' m = nxt q m \<and> val q' m = val q m" if "m \<in> holders fresh_node th" for m
      using shapeD(6) [OF S] that L'(4) by (auto simp: q'_def nxt_def val_def)
    show "shape q' (holders pending th) (holders fresh_node th) L' (f_items (b\<lparr>f_items := ys\<rparr>))" using L'(3) by simp
  qed (use L'(1) in \<open>simp_all add: point_defs pop_ok_def\<close>)
  moreover obtain nd where "m_heap q x = Some nd" using shape_live(2) [OF S] x(1) by blast
  ultimately show ?thesis using L'(2) x(2) by (simp add: t val_def q'_def)
qed

section \<open>Schedules\<close>

lemma call_push_sim:
  assumes "mpsc_inv q th b" and t: "resting (th t)" and a: "m_heap q a = None"
  shows "mpsc_inv (alloc_node v a q) (th(t := Push_Init v a)) b"
proof -
  obtain L where S: "shape q (holders pending th) (holders fresh_node th) L (f_items b)" and T: "threads_ok q L b th"
    using assms(1) by (auto simp: mpsc_inv_def)
  note TD = threads_okD [OF T] note A = shape_alloc [OF S a, of v]
  define p where "p = Push_Init v a"
  have pt: "pending (th t) = None" "fresh_node (th t) = None" "\<not> linking (th t)"
    using t by (cases "th t"; simp add: point_defs)+
  have p: "pending p = None" "fresh_node p = Some a" by (simp_all add: p_def point_defs)
  have new: "a \<notin> dom (m_heap q)" using a by blast
  then have new': "a \<notin> holders fresh_node th" "a \<noteq> stub" "a \<noteq> m_tail q" using shape_live [OF S] by auto
  have "shape (alloc_node v a q) (holders pending (th(t := p))) (holders fresh_node (th(t := p))) L (f_items b)"
    using A(1) pt(1) p(1) holders_add [of fresh_node th t p, OF pt(2) p(2)] by simp
  moreover have "threads_ok (alloc_node v a q) L b (th(t := p))"
  proof (rule threads_push [OF T])
    show "nxt (alloc_node v a q) m = nxt q m \<and> val (alloc_node v a q) m = val q m"
      if "u \<noteq> t" "fresh_node (th u) = Some m" for u m
      using new'(1) holdersI [of fresh_node th u m] that(2) A(2,3) by auto
    show "pop_ok (alloc_node v a q) L (f_disturbed b) (th 0)"
      by (rule pop_ok_mono [OF TD(5)]) (use A(2) new' in \<open>auto simp: alloc_node_def\<close>)
    show "unique fresh_node (th(t := p))" using unique_add [OF TD(2) p(2) new'(1)] .
    show "f_linking b = (if linking p then insert t (f_linking b) else f_linking b - {t})"
      using TD(6) pt(3) by (simp add: p_def linking_def)
  qed (use TD(1) pt p A(3) in \<open>simp_all add: p_def push_ok_def point_defs\<close>)
  ultimately show ?thesis unfolding p_def by (rule mpsc_invI)
qed

lemma call_pop_sim:
  assumes "mpsc_inv q th b" and t: "resting (th 0)"
  shows "mpsc_inv q (th(0 := Pop_Next)) (b\<lparr>f_disturbed := (f_linking b \<noteq> {})\<rparr>)"
proof -
  obtain L where S: "shape q (holders pending th) (holders fresh_node th) L (f_items b)" and T: "threads_ok q L b th"
    using assms(1) by (auto simp: mpsc_inv_def)
  have pt: "pending (th 0) = None" "fresh_node (th 0) = None" "\<not> linking (th 0)"
    using t by (cases "th 0"; simp add: point_defs)+
  have "threads_ok q L (b\<lparr>f_disturbed := (f_linking b \<noteq> {})\<rparr>) (th(0 := Pop_Next))"
    using threads_okD [OF T] pt unfolding threads_ok_def
    by (auto simp: push_ok_def pop_ok_def pending_def fresh_node_def linking_def)
  then show ?thesis using S pt by (intro mpsc_invI [of _ _ L]) (simp_all add: pending_def fresh_node_def)
qed

lemma push_step_sim: "mpsc_inv q th b \<Longrightarrow> pushing (th t) \<Longrightarrow> followed th b t (push_step t (th t) q)"
  using push_init_sim [of q th b t] push_exchange_sim [of q th b t] push_link_sim [of q th b t]
  by (cases "th t") (simp_all add: pushing_def)

lemma pop_second_sim:
  assumes "mpsc_inv q th b" and t: "th 0 = Pop_Next2 x"
  shows "followed th b 0 (pop_step (th 0) q)"
proof -
  obtain L where S: "shape q (holders pending th) (holders fresh_node th) L (f_items b)" and T: "threads_ok q L b th"
    using assms(1) by (auto simp: mpsc_inv_def)
  have pt: "popping (th 0)" "pending (th 0) = None" by (simp_all add: t point_defs)
  have "x = m_tail q" "m_tail q \<noteq> stub" using threads_okD(5) [OF T] by (auto simp: t pop_ok_def)
  then show ?thesis using pop_next_sim [OF S T pt] by (simp add: t)
qed

lemma pop_step_sim: "mpsc_inv q th b \<Longrightarrow> popping (th 0) \<Longrightarrow> followed th b 0 (pop_step (th 0) q)"
  using pop_first_sim [of q th b] pop_second_sim [of q th b] pop_head_sim [of q th b] pop_init_sim [of q th b]
    pop_exchange_sim [of q th b] pop_link_sim [of q th b] pop_third_sim [of q th b] pop_take_sim [of q th b]
  by (cases "th 0") (simp_all add: popping_def resting_def pushing_def)

lemma mpsc_step_sim:
  assumes "mpsc_inv (m_mem s) (m_thread s) b"
  shows "\<exists>b'. feed_step (fst (mpsc_step x s)) b = Some b'
           \<and> mpsc_inv (m_mem (snd (mpsc_step x s))) (m_thread (snd (mpsc_step x s))) b'"
proof -
  obtain t c where x: "x = (t, c)" by (cases x)
  show ?thesis
  proof (cases "resting (m_thread s t)")
    case True
    then show ?thesis using call_push_sim [OF assms True] call_pop_sim [OF assms] assms
      by (cases c) (auto simp: x mpsc_step_def)
  next
    case False
    have "followed (m_thread s) b t (if pushing (m_thread s t) then push_step t (m_thread s t) (m_mem s)
        else pop_step (m_thread s t) (m_mem s))"
    proof (cases "pushing (m_thread s t)")
      case not: False
      then have "popping (m_thread s t)" using False by (simp add: popping_def)
      moreover from this have "t = 0" using assms threads_okD(4) by (auto simp: mpsc_inv_def)
      ultimately show ?thesis using pop_step_sim [OF assms] not by simp
    qed (use push_step_sim [OF assms] in simp)
    then show ?thesis using False by (auto simp: x mpsc_step_def followed_def split_beta)
  qed
qed

lemma mpsc_session_sim:
  "mpsc_inv (m_mem s) (m_thread s) b \<Longrightarrow>
     \<exists>b'. feed_run (fst (session mpsc_step xs s)) b = Some b'
        \<and> mpsc_inv (m_mem (snd (session mpsc_step xs s))) (m_thread (snd (session mpsc_step xs s))) b'"
proof (induction xs arbitrary: s b)
  case (Cons x xs)
  obtain b1 where "feed_step (fst (mpsc_step x s)) b = Some b1"
    "mpsc_inv (m_mem (snd (mpsc_step x s))) (m_thread (snd (mpsc_step x s))) b1"
    using mpsc_step_sim [OF Cons.prems] by blast
  with Cons.IH [of "snd (mpsc_step x s)" b1] show ?case by (simp add: Let_def split_beta)
qed simp

lemma mpsc_start_inv: "mpsc_inv (m_mem mpsc_start) (m_thread mpsc_start) (feed_start :: 'a feed)"
proof (rule mpsc_invI [where L = "[stub]"])
  show "shape (m_mem mpsc_start) (holders pending (m_thread mpsc_start)) (holders fresh_node (m_thread mpsc_start))
      [stub] (f_items (feed_start :: 'a feed))"
    by (auto simp: shape_def mpsc_start_def mpsc_new_def holders_def pending_def fresh_node_def nxt_def feed_start_def)
  show "threads_ok (m_mem mpsc_start) [stub] (feed_start :: 'a feed) (m_thread mpsc_start)"
    by (simp add: threads_ok_def mpsc_start_def unique_def push_ok_def pop_ok_def point_defs feed_start_def)
qed

lemma run_no_fault: "feed_run as b = Some b' \<Longrightarrow> Fault \<notin> set as"
  by (induction as arbitrary: b) (auto split: option.splits)

lemma resting_nodes:
  assumes "mpsc_inv q th b" and "\<And>t. resting (th t)"
  shows "card (dom (m_heap q)) = Suc (length (f_items b))"
proof -
  obtain L where S: "shape q (holders pending th) (holders fresh_node th) L (f_items b)"
    using assms(1) by (auto simp: mpsc_inv_def)
  have "fresh_node (th t) = None" for t using assms(2) [of t] by (cases "th t") (simp_all add: point_defs)
  then have "dom (m_heap q) = insert stub (set (filter (\<lambda>a. a \<noteq> stub) L))" using shapeD(7) [OF S] by (auto simp: holders_def)
  moreover have "card (set (filter (\<lambda>a. a \<noteq> stub) L)) = length (f_items b)"
    using shapeD(2) [OF S] arg_cong [OF shapeD(8) [OF S], of length] by (simp add: distinct_card del: set_filter)
  ultimately show ?thesis by simp
qed

text \<open>
  Both operations are wait-free: each turn of a thread brings it closer to its return, whatever the others do, and eight turns
  are enough.
\<close>

fun turns_left :: "'a mpc \<Rightarrow> nat" where
  "turns_left (Push_Init _ _) = 3"
| "turns_left (Push_Exchange _ _) = 2"
| "turns_left (Push_Link _ _) = 1"
| "turns_left Pop_Next = 8"
| "turns_left (Pop_Next2 _) = 7"
| "turns_left (Pop_Head _) = 6"
| "turns_left (Pop_Init _) = 5"
| "turns_left (Pop_Exchange _) = 4"
| "turns_left (Pop_Link _ _) = 3"
| "turns_left (Pop_Next3 _) = 2"
| "turns_left (Pop_Take _ _) = 1"
| "turns_left _ = 0"

lemma pop_next_turns: "turns_left (fst (snd (pop_next x r q))) < 7"
  by (cases "(x, r, q)" rule: pop_next.cases) simp_all

lemma turn_taken:
  assumes "\<not> resting (m_thread s t)"
  shows "turns_left (m_thread (snd (mpsc_step (t, c) s)) t) < turns_left (m_thread s t)"
  using assms pop_next_turns [of _ _ "m_mem s"]
  by (cases "m_thread s t")
     (auto simp: mpsc_step_def resting_def pushing_def split_beta intro: less_trans split: option.splits)

lemma other_turn: "u \<noteq> t \<Longrightarrow> m_thread (snd (mpsc_step (u, c) s)) t = m_thread s t"
  by (cases c) (auto simp: mpsc_step_def split_beta)

lemma mpsc_wait_free:
  "turns_left (m_thread s t) \<le> length (filter (\<lambda>x. fst x = t) xs) \<Longrightarrow>
     \<exists>ys zs. xs = ys @ zs \<and> resting (m_thread (snd (session mpsc_step ys s)) t)"
proof (induction xs arbitrary: s)
  case Nil
  then show ?case by (cases "m_thread s t") (simp_all add: resting_def)
next
  case (Cons x xs)
  show ?case
  proof (cases "resting (m_thread s t)")
    case True
    then have "x # xs = [] @ (x # xs) \<and> resting (m_thread (snd (session mpsc_step [] s)) t)" by simp
    then show ?thesis by blast
  next
    case False
    obtain u c where x: "x = (u, c)" by (cases x)
    have "turns_left (m_thread (snd (mpsc_step x s)) t) \<le> length (filter (\<lambda>x. fst x = t) xs)"
      using Cons.prems turn_taken [OF False, of c] other_turn [of u t c s] by (cases "u = t") (auto simp: x)
    from Cons.IH [OF this] obtain ys zs where "xs = ys @ zs"
      "resting (m_thread (snd (session mpsc_step ys (snd (mpsc_step x s)))) t)" by blast
    then show ?thesis by (intro exI [of _ "x # ys"] exI [of _ zs]) (simp add: Let_def split_beta)
  qed
qed

section \<open>Properties\<close>

text \<open>
  A schedule of two producers and the consumer: thread 1 is between its exchange and its link when thread 2 completes its push and the consumer
  finds nothing; the address of the first node is used again after it was freed.
\<close>

definition mpsc_race :: "(nat \<times> nat mchoice) list" where
  "mpsc_race =
     [(1, Call_push 7 5), (1, Go), (1, Go), (2, Call_push 8 6), (2, Go), (2, Go), (2, Go), (0, Call_pop), (0, Go), (1, Go),
      (0, Call_pop), (0, Go), (0, Go), (0, Go), (1, Call_push 9 5), (1, Go), (1, Go), (1, Go)]"

lemma mpsc_race_acts:
  "filter (\<lambda>a. a \<noteq> Quiet) (fst (session mpsc_step mpsc_race mpsc_start))
     = [Pushed 1 7, Pushed 2 8, Linked 2, Pop_begun, Pop_failed, Linked 1, Pop_begun, Popped (Some 7), Pushed 1 9, Linked 1]"
  "\<And>t. resting (m_thread (snd (session mpsc_step mpsc_race mpsc_start)) t)"
  by (simp_all add: mpsc_race_def mpsc_step_def mpsc_start_def mpsc_new_def stub_def alloc_node_def store_next_def
      load_next_def resting_def pushing_def)

text \<open>
  C14: the queue is first-in first-out under every interleaving.  For any schedule of any number of producers and one
  consumer the actions are those of a list: items are popped in the order of the
  pushes' exchanges, each once, and \<open>pop\<close> fails only if the list is empty or a producer was between its exchange
  and its link at some moment of the \<open>pop\<close>.  No thread ever touches a node after it was deleted, even if addresses are
  used again, and when all operations have returned the memory has the stub and one node for each item.
\<close>

theorem mpsc_fifo:
  "let (as, s) = session mpsc_step xs mpsc_start in
     Fault \<notin> set as
   \<and> (\<exists>b. feed_run as feed_start = Some b
        \<and> ((\<forall>t. resting (m_thread s t)) \<longrightarrow> card (dom (m_heap (m_mem s))) = Suc (length (f_items b))))"
proof -
  obtain as s where s: "session mpsc_step xs mpsc_start = (as, s)" by fastforce
  obtain b where "feed_run as feed_start = Some b" "mpsc_inv (m_mem s) (m_thread s) b"
    using mpsc_session_sim [OF mpsc_start_inv, of xs] s by auto
  then show ?thesis using run_no_fault [of as] resting_nodes [of "m_mem s" "m_thread s" b] unfolding s by auto
qed

theorem mpsc_fifo_witness:
  "let (as, s) = session mpsc_step mpsc_race mpsc_start in
     Fault \<notin> set as \<and> Pop_failed \<in> set as \<and> Popped (Some 7) \<in> set as
   \<and> (\<exists>b. feed_run as feed_start = Some b \<and> card (dom (m_heap (m_mem s))) = Suc (length (f_items b)))"
proof -
  obtain as s where s: "session mpsc_step mpsc_race mpsc_start = (as, s)" by fastforce
  have "Pop_failed \<in> set (filter (\<lambda>a. a \<noteq> Quiet) as)" "Popped (Some 7) \<in> set (filter (\<lambda>a. a \<noteq> Quiet) as)"
    using mpsc_race_acts(1) unfolding s by simp_all
  moreover have "\<forall>t. resting (m_thread s t)" using mpsc_race_acts(2) unfolding s by simp
  ultimately show ?thesis using mpsc_fifo [of mpsc_race] unfolding s by auto
qed

end
