(* ===== verification/Uri.thy ===== *)
theory Uri
  imports Decimal "HOL-Library.Sublist"
begin

text \<open>
  \<open>uri\<close> of \<open>include/ten/uri.hh\<close> and \<open>src/uri_parser.rl\<close>: form encoding and decoding, query
  parameters, normalization, composition and the resolution of a relative reference.

  \<open>uri::parse\<close> is not modelled: its body is a state machine that a build step generates from the
  grammar.  The small machine that normalizes percent encoding is modelled from its grammar and
  its two actions: an action runs at the last character of each \<open>%\<close> with two and \<open>%u\<close> with four
  hexadecimal digits.
\<close>

section \<open>Form encoding\<close>

definition is_alnum :: "char \<Rightarrow> bool" where
  "is_alnum c \<longleftrightarrow> 48 \<le> code c \<and> code c \<le> 57 \<or> 65 \<le> code c \<and> code c \<le> 90 \<or> 97 \<le> code c \<and> code c \<le> 122"

definition is_xdigit :: "char \<Rightarrow> bool" where
  "is_xdigit c \<longleftrightarrow> 48 \<le> code c \<and> code c \<le> 57 \<or> 65 \<le> code c \<and> code c \<le> 70 \<or> 97 \<le> code c \<and> code c \<le> 102"

definition hex_digit :: "nat \<Rightarrow> char" where
  "hex_digit n = char_of (if n > 9 then n + (65 - 10) else n + 48)"

definition char2hex :: "char \<Rightarrow> string" where
  "char2hex c = [hex_digit (code c div 16), hex_digit (code c mod 16)]"

definition digit_of :: "char \<Rightarrow> nat" where
  "digit_of c = (if code c \<ge> 65 then (if code c \<ge> 97 then code c - 32 else code c) - 65 + 10 else code c - 48)"

definition hex2char :: "char \<Rightarrow> char \<Rightarrow> char" where
  "hex2char a b = char_of (digit_of a * 16 + digit_of b)"

definition form_plain :: "char \<Rightarrow> bool" where
  "form_plain c \<longleftrightarrow> is_alnum c \<or> c \<in> set ''-_.!~*'' \<or> code c = 39 \<or> c \<in> set ''()''"

definition encode_char :: "char \<Rightarrow> string" where
  "encode_char c = (if c = CHR '' '' then ''+'' else if form_plain c then [c] else CHR ''%'' # char2hex c)"

definition uri_encode :: "string \<Rightarrow> string" where
  "uri_encode s = concat (map encode_char s)"

text \<open>
  A \<open>%\<close> with one character after it: the test reads the terminating null of the string, which is
  not a digit.
\<close>

fun uri_decode :: "string \<Rightarrow> string" where
  "uri_decode [] = []"
| "uri_decode (c # s) =
     (if c = CHR ''+'' then CHR '' '' # uri_decode s
      else if c = CHR ''%'' then
        (case s of
           a # b # s' \<Rightarrow> if is_xdigit a \<and> is_xdigit b then hex2char a b # uri_decode s' else CHR ''%'' # uri_decode s
         | _ \<Rightarrow> CHR ''%'' # uri_decode s)
      else c # uri_decode s)"

section \<open>Query parameters\<close>

text \<open>\<open>boost::split\<close> on one character: \<open>n\<close> separators give \<open>n + 1\<close> parts.\<close>

fun split_on :: "char \<Rightarrow> string \<Rightarrow> string list" where
  "split_on d [] = [[]]"
| "split_on d (c # s) =
     (if c = d then [] # split_on d s else (case split_on d s of p # ps \<Rightarrow> (c # p) # ps | [] \<Rightarrow> [[c]]))"

definition query_parse :: "string \<Rightarrow> (string \<times> string) list" where
  "query_parse query =
     (if length query \<le> 1 then []
      else map (\<lambda>i. if CHR ''='' \<in> set i
                    then (uri_decode (takeWhile (\<lambda>c. c \<noteq> CHR ''='') i), uri_decode (tl (dropWhile (\<lambda>c. c \<noteq> CHR ''='') i)))
                    else (i, []))
             (split_on (CHR ''&'') (drop 1 query)))"

definition query_str :: "(string \<times> string) list \<Rightarrow> string" where
  "query_str ps =
     (if ps = [] then [] else ''?'' @ join ''&'' (map (\<lambda>p. uri_encode (fst p) @ ''='' @ uri_encode (snd p)) ps))"

definition query_append :: "string \<Rightarrow> string \<Rightarrow> (string \<times> string) list \<Rightarrow> (string \<times> string) list" where
  "query_append k v ps = ps @ [(k, v)]"

definition query_find :: "string \<Rightarrow> (string \<times> string) list \<Rightarrow> (string \<times> string) option" where
  "query_find k ps = List.find (\<lambda>p. fst p = k) ps"

definition query_erase :: "string \<Rightarrow> (string \<times> string) list \<Rightarrow> (string \<times> string) list" where
  "query_erase k ps = filter (\<lambda>p. fst p \<noteq> k) ps"

section \<open>Round trips\<close>

lemma hex_digit_facts:
  assumes "n < 16"
  shows "is_xdigit (hex_digit n)" and "digit_of (hex_digit n) = n"
  using assms by (auto simp: is_xdigit_def hex_digit_def digit_of_def of_char_of)

lemma hex_char [simp]: "hex2char (hex_digit (code c div 16)) (hex_digit (code c mod 16)) = c"
proof -
  have "code c div 16 < 16" using code_less_256 [of c] by (simp add: less_mult_imp_div_less)
  then show ?thesis by (simp add: hex2char_def hex_digit_facts)
qed

lemma hex_is_xdigit [simp]: "is_xdigit (hex_digit (code c div 16))" "is_xdigit (hex_digit (code c mod 16))"
  using code_less_256 [of c] by (simp_all add: hex_digit_facts less_mult_imp_div_less)

lemma decode_encode: "uri_decode (uri_encode s) = s"
proof (induction s)
  case (Cons c s)
  have "form_plain c \<Longrightarrow> c \<noteq> CHR ''+'' \<and> c \<noteq> CHR ''%''" by (auto simp: form_plain_def is_alnum_def)
  with Cons show ?case by (auto simp: uri_encode_def encode_char_def char2hex_def)
qed (simp add: uri_encode_def)

lemma encode_chars:
  assumes "x \<in> set (uri_encode s)"
  shows "x \<noteq> CHR ''&''" and "x \<noteq> CHR ''=''"
proof -
  obtain c where "x \<in> set (encode_char c)" using assms by (auto simp: uri_encode_def)
  then consider "x = CHR ''+''" | "form_plain x" | "x = CHR ''%''" | "is_xdigit x"
    by (auto simp: encode_char_def char2hex_def split: if_splits)
  then have "x \<noteq> CHR ''&'' \<and> x \<noteq> CHR ''=''"
    by cases (auto simp: form_plain_def is_alnum_def is_xdigit_def)
  then show "x \<noteq> CHR ''&''" and "x \<noteq> CHR ''=''" by simp_all
qed

lemma split_on_not_Nil [simp]: "split_on d s \<noteq> []"
  by (induction s) (auto split: list.split)

lemma split_on_single: "d \<notin> set s \<Longrightarrow> split_on d s = [s]"
  by (induction s) auto

lemma split_on_append: "d \<notin> set s \<Longrightarrow> split_on d (s @ d # t) = s # split_on d t"
  by (induction s) auto

lemma split_join: "xs \<noteq> [] \<Longrightarrow> \<forall>x \<in> set xs. d \<notin> set x \<Longrightarrow> split_on d (join [d] xs) = xs"
  by (induction "[d]" xs rule: join.induct) (auto simp: split_on_single split_on_append)

lemma join_length: "xs \<noteq> [] \<Longrightarrow> \<forall>x \<in> set xs. x \<noteq> [] \<Longrightarrow> join d xs \<noteq> []"
  by (induction d xs rule: join.induct) auto

lemma query_pair:
  assumes "i = uri_encode k @ ''='' @ uri_encode v"
  shows "CHR ''='' \<in> set i"
    and "uri_decode (takeWhile (\<lambda>c. c \<noteq> CHR ''='') i) = k"
    and "uri_decode (tl (dropWhile (\<lambda>c. c \<noteq> CHR ''='') i)) = v"
proof -
  show "CHR ''='' \<in> set i" using assms by simp
  have "\<forall>c \<in> set (uri_encode k). c \<noteq> CHR ''=''" using encode_chars by blast
  then have "takeWhile (\<lambda>c. c \<noteq> CHR ''='') i = uri_encode k" "dropWhile (\<lambda>c. c \<noteq> CHR ''='') i = ''='' @ uri_encode v"
    using assms by (simp_all add: takeWhile_append2 dropWhile_append2)
  then show "uri_decode (takeWhile (\<lambda>c. c \<noteq> CHR ''='') i) = k"
    "uri_decode (tl (dropWhile (\<lambda>c. c \<noteq> CHR ''='') i)) = v"
    by (simp_all add: decode_encode)
qed

lemma query_round_trip: "query_parse (query_str ps) = ps"
proof (cases "ps = []")
  case False
  define f where "f = (\<lambda>p. uri_encode (fst p) @ ''='' @ uri_encode (snd p))"
  have clean: "\<forall>x \<in> set (map f ps). CHR ''&'' \<notin> set x" using encode_chars(1) by (fastforce simp: f_def)
  have ne: "join ''&'' (map f ps) \<noteq> []" using False by (intro join_length) (auto simp: f_def)
  then have "\<not> length (query_str ps) \<le> 1" using False by (cases "join ''&'' (map f ps)") (simp_all add: query_str_def f_def)
  moreover have "split_on (CHR ''&'') (drop 1 (query_str ps)) = map f ps"
    using split_join [OF _ clean] False by (simp add: query_str_def f_def)
  ultimately show ?thesis
    using query_pair [OF refl] by (simp add: query_parse_def f_def comp_def)
qed (simp add: query_parse_def query_str_def)

text \<open>
  C20: form encoding loses nothing.  Every string of bytes is decoded to itself after it was
  encoded, and a list of query parameters written with \<open>str\<close> is read back as the same list, in
  order, with repeated, empty and reserved keys and values.
\<close>

theorem uri_query_roundtrip:
  "uri_decode (uri_encode s) = s \<and> query_parse (query_str ps) = ps"
  by (simp add: decode_encode query_round_trip)

section \<open>Dot segments\<close>

text \<open>
  The loop over the segments, with the iterator as an index.  \<open>None\<close> is an iterator moved before
  the first segment.
\<close>

primrec walk_back :: "string list \<Rightarrow> nat \<Rightarrow> nat" where
  "walk_back xs 0 = 0"
| "walk_back xs (Suc j) = (if xs ! Suc j = [] then walk_back xs j else Suc j)"

lemma walk_back_le: "walk_back xs j \<le> j"
  by (induction j) (auto intro: le_SucI)

function dot_loop :: "string list \<Rightarrow> nat \<Rightarrow> string list option" where
  "dot_loop xs i =
     (if length xs \<le> i then Some xs
      else if xs ! i = ''.'' then dot_loop (xs[i := []]) (Suc i)
      else if xs ! i = ''..'' then
        (if i = 0 then None
         else let ys = take i xs @ drop (Suc i) xs; j = walk_back ys (i - 1)
              in dot_loop (ys[j := []]) (Suc j))
      else dot_loop xs (Suc i))"
  by pat_completeness auto

termination
  by (relation "measures [\<lambda>(xs, i). length xs, \<lambda>(xs, i). length xs - i]") auto

declare dot_loop.simps [simp del]

definition slashed :: "string list \<Rightarrow> string" where
  "slashed ss = concat (map (\<lambda>s. CHR ''/'' # s) ss)"

definition remove_dot_segments :: "string \<Rightarrow> string option" where
  "remove_dot_segments path =
     (if path = [] then Some ''/''
      else if path = ''/'' then Some path
      else map_option (\<lambda>ss. slashed (filter (\<lambda>s. s \<noteq> []) ss) @ (if last ss = [] then ''/'' else []))
             (dot_loop (split_on (CHR ''/'') path) 0))"

text \<open>The segments that are left, as a stack.\<close>

fun resolve :: "string list \<Rightarrow> string list \<Rightarrow> string list" where
  "resolve st [] = st"
| "resolve st (s # ss) =
     (if s = [] \<or> s = ''.'' then resolve st ss else if s = ''..'' then resolve (tl st) ss else resolve (s # st) ss)"

definition ends_open :: "string list \<Rightarrow> bool" where
  "ends_open ss \<longleftrightarrow> last ss = [] \<or> last ss = ''.'' \<or> last ss = ''..''"

lemma skip_empty:
  "\<forall>q \<in> set Q. q = [] \<Longrightarrow> dot_loop (P @ Q @ R) (length P) = dot_loop (P @ Q @ R) (length (P @ Q))"
proof (induction Q arbitrary: P)
  case (Cons q Q)
  have "dot_loop (P @ (q # Q) @ R) (length P) = dot_loop ((P @ [q]) @ Q @ R) (length (P @ [q]))"
    using Cons.prems by (subst dot_loop.simps) simp
  with Cons.IH [of "P @ [q]"] Cons.prems show ?case by simp
qed simp

text \<open>Where the walk back stops.\<close>

lemma walk_back_split:
  assumes "xs \<noteq> []"
  shows "\<exists>P x Q. xs = P @ x # Q \<and> walk_back (xs @ R) (length xs - 1) = length P
           \<and> (\<forall>q \<in> set Q. q = []) \<and> (x \<noteq> [] \<or> P = [])"
  using assms
proof (induction xs arbitrary: R rule: rev_induct)
  case (snoc y xs)
  show ?case
  proof (cases "xs = []")
    case True
    then show ?thesis by (intro exI [of _ "[]"] exI [of _ y]) simp
  next
    case False
    then obtain k where k: "length xs = Suc k" by (cases xs) auto
    show ?thesis
    proof (cases "y = []")
      case True
      have step: "walk_back ((xs @ [y]) @ R) (length (xs @ [y]) - 1) = walk_back (xs @ y # R) (length xs - 1)"
        using True k by (simp add: nth_append)
      obtain P x Q where "xs = P @ x # Q" "walk_back (xs @ y # R) (length xs - 1) = length P"
        "\<forall>q \<in> set Q. q = []" "x \<noteq> [] \<or> P = []"
        using snoc.IH [OF False, of "y # R"] by blast
      then show ?thesis using True step by (intro exI [of _ P] exI [of _ x] exI [of _ "Q @ [y]"]) simp
    next
      case False
      then have "walk_back ((xs @ [y]) @ R) (length (xs @ [y]) - 1) = length xs" using k by (simp add: nth_append)
      then show ?thesis using False by (intro exI [of _ xs] exI [of _ y] exI [of _ "[]"]) simp
    qed
  qed
qed simp

lemma filter_empty: "\<forall>q \<in> set Q. q = [] \<Longrightarrow> filter (\<lambda>s. s \<noteq> []) Q = []"
  by (simp add: filter_empty_conv)

lemma dot_loop_spec:
  assumes "L \<noteq> []" and "hd L = []"
  shows "\<exists>zs. dot_loop (L @ R) (length L) = Some zs \<and> zs \<noteq> []
           \<and> filter (\<lambda>s. s \<noteq> []) zs = rev (resolve (rev (filter (\<lambda>s. s \<noteq> []) L)) R)
           \<and> (last zs = [] \<longleftrightarrow> (if R = [] then last L = [] else ends_open R))"
  using assms
proof (induction R arbitrary: L)
  case Nil
  then show ?case by (intro exI [of _ L]) (simp add: dot_loop.simps)
next
  case (Cons s R)
  have more: ?case
    if eq: "dot_loop (L @ s # R) (length L) = dot_loop (L' @ R) (length L')" and L': "L' \<noteq> []" "hd L' = []"
      and st: "resolve (rev (filter (\<lambda>s. s \<noteq> []) L)) (s # R) = resolve (rev (filter (\<lambda>s. s \<noteq> []) L')) R"
      and last: "last L' = [] \<longleftrightarrow> s = [] \<or> s = ''.'' \<or> s = ''..''" for L'
  proof -
    have "(if R = [] then last L' = [] else ends_open R) \<longleftrightarrow> ends_open (s # R)" using last by (simp add: ends_open_def)
    then show ?thesis using Cons.IH [OF L'] unfolding eq st by simp
  qed
  consider "s = ''.''" | "s = ''..''" | "s \<noteq> ''.''" "s \<noteq> ''..''" by blast
  then show ?case
  proof cases
    case 1
    have "dot_loop (L @ s # R) (length L) = dot_loop ((L @ [[]]) @ R) (length (L @ [[]]))"
      using 1 by (subst dot_loop.simps) (simp add: list_update_append)
    then show ?thesis by (rule more) (use 1 Cons.prems in simp_all)
  next
    case 2
    obtain P x Q where L: "L = P @ x # Q" "walk_back (L @ R) (length L - 1) = length P"
      "\<forall>q \<in> set Q. q = []" "x \<noteq> [] \<or> P = []"
      using walk_back_split [OF Cons.prems(1), of R] by blast
    have "dot_loop (L @ s # R) (length L) = dot_loop ((L @ R)[length P := []]) (Suc (length P))"
      using 2 Cons.prems(1) L(2) by (subst dot_loop.simps) (simp add: Let_def)
    also have "(L @ R)[length P := []] = (P @ [[]]) @ Q @ R" by (simp add: L(1) list_update_append)
    also have "dot_loop \<dots> (Suc (length P)) = dot_loop ((P @ [[]] @ Q) @ R) (length (P @ [[]] @ Q))"
      using skip_empty [OF L(3), of "P @ [[]]" R] by simp
    finally show ?thesis
    proof (rule more)
      show "hd (P @ [[]] @ Q) = []" using Cons.prems(2) by (cases P) (simp_all add: L(1))
      show "resolve (rev (filter (\<lambda>s. s \<noteq> []) L)) (s # R) = resolve (rev (filter (\<lambda>s. s \<noteq> []) (P @ [[]] @ Q))) R"
        using 2 L(4) Cons.prems(2) by (cases "x = []") (auto simp: L(1) filter_empty [OF L(3)])
      show "last (P @ [[]] @ Q) = [] \<longleftrightarrow> s = [] \<or> s = ''.'' \<or> s = ''..''" using 2 L(3) by (cases Q rule: rev_cases) auto
    qed simp
  next
    case 3
    have "dot_loop (L @ s # R) (length L) = dot_loop ((L @ [s]) @ R) (length (L @ [s]))"
      using 3 by (subst dot_loop.simps) simp
    then show ?thesis by (rule more) (use 3 Cons.prems in simp_all)
  qed
qed

lemma split_slashed:
  "\<forall>s \<in> set ss. CHR ''/'' \<notin> set s \<Longrightarrow> split_on (CHR ''/'') (slashed ss) = [] # ss"
proof (induction ss)
  case (Cons s ss)
  then show ?case
    by (cases ss) (simp_all add: slashed_def split_on_single split_on_append)
qed (simp add: slashed_def)

lemma split_no_sep: "p \<in> set (split_on d s) \<Longrightarrow> d \<notin> set p"
  by (induction s arbitrary: p) (auto split: if_splits list.splits)

lemma slashed_split: "slashed (split_on (CHR ''/'') s) = CHR ''/'' # s"
  by (induction s) (auto simp: slashed_def split: list.split)

lemma slashed_append [simp]: "slashed (xs @ ys) = slashed xs @ slashed ys"
  by (simp add: slashed_def)

lemma absolute_segments:
  assumes "path = CHR ''/'' # p"
  shows "split_on (CHR ''/'') path = [] # split_on (CHR ''/'') p" and "path = slashed (split_on (CHR ''/'') p)"
  by (simp_all add: assms slashed_split)

text \<open>What the loop leaves of an absolute path.\<close>

lemma remove_dots_resolve:
  assumes "path = CHR ''/'' # p"
  shows "remove_dot_segments path =
     Some (slashed (rev (resolve [] (split_on (CHR ''/'') p))) @ (if ends_open (split_on (CHR ''/'') p) then ''/'' else []))"
proof (cases "p = []")
  case True
  then show ?thesis by (simp add: assms remove_dot_segments_def slashed_def ends_open_def)
next
  case False
  define R where "R = split_on (CHR ''/'') p"
  have "dot_loop ([[]] @ R) 0 = dot_loop ([[]] @ R) (length [[]])" by (subst dot_loop.simps) simp
  then obtain zs where "dot_loop ([[]] @ R) 0 = Some zs" "filter (\<lambda>s. s \<noteq> []) zs = rev (resolve [] R)"
    "last zs = [] \<longleftrightarrow> ends_open R"
    using dot_loop_spec [of "[[]]" R] by (auto simp: R_def)
  then show ?thesis using False by (simp add: assms remove_dot_segments_def R_def)
qed

definition plain_segment :: "string \<Rightarrow> bool" where
  "plain_segment s \<longleftrightarrow> s \<noteq> [] \<and> s \<noteq> ''.'' \<and> s \<noteq> ''..'' \<and> CHR ''/'' \<notin> set s"

lemma set_tl: "set (tl xs) \<subseteq> set xs"
  by (cases xs) auto

lemma resolve_plain:
  assumes "\<forall>s \<in> set st. plain_segment s" and "\<forall>s \<in> set ss. CHR ''/'' \<notin> set s"
  shows "\<forall>s \<in> set (resolve st ss). plain_segment s"
  using assms
proof (induction ss arbitrary: st)
  case (Cons s ss)
  consider "s = [] \<or> s = ''.''" | "s = ''..''" | "s \<noteq> []" "s \<noteq> ''.''" "s \<noteq> ''..''" by blast
  then show ?case
  proof cases
    case 1
    then show ?thesis using Cons by auto
  next
    case 2
    have "\<forall>s \<in> set (tl st). plain_segment s" using Cons.prems(1) set_tl [of st] by blast
    then show ?thesis using 2 Cons by simp
  next
    case 3
    then have "\<forall>s \<in> set (s # st). plain_segment s" using Cons.prems by (simp add: plain_segment_def)
    then have "\<forall>s \<in> set (resolve (s # st) ss). plain_segment s" using Cons by (intro Cons.IH) simp_all
    then show ?thesis using 3 by simp
  qed
qed simp

section \<open>RFC 3986, section 5.2.4\<close>

text \<open>The algorithm of the standard, on its input and output buffers.\<close>

definition drop_last_segment :: "string \<Rightarrow> string" where
  "drop_last_segment out = rev (drop 1 (dropWhile (\<lambda>c. c \<noteq> CHR ''/'') (rev out)))"

definition first_segment :: "string \<Rightarrow> string" where
  "first_segment inp =
     (if hd inp = CHR ''/'' then CHR ''/'' # takeWhile (\<lambda>c. c \<noteq> CHR ''/'') (tl inp) else takeWhile (\<lambda>c. c \<noteq> CHR ''/'') inp)"

lemma first_segment_not_Nil: "inp \<noteq> [] \<Longrightarrow> first_segment inp \<noteq> []"
  by (cases inp) (auto simp: first_segment_def)

function rfc_dots :: "string \<Rightarrow> string \<Rightarrow> string" where
  "rfc_dots inp out =
     (if inp = [] then out
      else if prefix ''../'' inp then rfc_dots (drop 3 inp) out
      else if prefix ''./'' inp then rfc_dots (drop 2 inp) out
      else if prefix ''/./'' inp then rfc_dots (drop 2 inp) out
      else if inp = ''/.'' then rfc_dots ''/'' out
      else if prefix ''/../'' inp then rfc_dots (drop 3 inp) (drop_last_segment out)
      else if inp = ''/..'' then rfc_dots ''/'' (drop_last_segment out)
      else if inp = ''.'' \<or> inp = ''..'' then out
      else rfc_dots (drop (length (first_segment inp)) inp) (out @ first_segment inp))"
  by pat_completeness auto

termination
  by (relation "measure (length \<circ> fst)") (auto intro!: diff_less simp: first_segment_not_Nil)

declare rfc_dots.simps [simp del]

definition rfc_remove_dot_segments :: "string \<Rightarrow> string" where
  "rfc_remove_dot_segments path = rfc_dots path []"

lemma slashed_Cons: "slashed (s # ss) = CHR ''/'' # s @ slashed ss"
  by (simp add: slashed_def)

lemma slashed_Nil [simp]: "slashed [] = []"
  by (simp add: slashed_def)

lemma take_segment: "CHR ''/'' \<notin> set s \<Longrightarrow> takeWhile (\<lambda>c. c \<noteq> CHR ''/'') (s @ slashed ss) = s"
  by (cases ss) (auto simp: slashed_Cons takeWhile_append)

lemma drop_last_slashed:
  assumes "\<forall>s \<in> set st. plain_segment s"
  shows "drop_last_segment (slashed (rev st)) = slashed (rev (tl st))"
proof (cases st)
  case (Cons s st')
  then have "CHR ''/'' \<notin> set (rev s)" using assms by (simp add: plain_segment_def)
  then have "dropWhile (\<lambda>c. c \<noteq> CHR ''/'') (rev s @ CHR ''/'' # rev (slashed (rev st'))) = CHR ''/'' # rev (slashed (rev st'))"
    by (induction "rev s" arbitrary: s) (auto simp: dropWhile_append)
  then show ?thesis using Cons by (simp add: drop_last_segment_def slashed_Cons)
qed (simp add: drop_last_segment_def)

text \<open>One step of the standard's loop, per kind of segment.\<close>

lemma rfc_dot: "rfc_dots (slashed (''.'' # s # ss)) out = rfc_dots (slashed (s # ss)) out"
  by (subst rfc_dots.simps) (simp add: slashed_Cons)

lemma rfc_dotdot: "rfc_dots (slashed (''..'' # s # ss)) out = rfc_dots (slashed (s # ss)) (drop_last_segment out)"
  by (subst rfc_dots.simps) (simp add: slashed_Cons)

lemma rfc_slash: "rfc_dots ''/'' out = out @ ''/''"
  by (subst rfc_dots.simps) (simp add: first_segment_def, simp add: rfc_dots.simps)

lemma rfc_segment:
  assumes "CHR ''/'' \<notin> set s" and "s \<noteq> ''.''" and "s \<noteq> ''..''"
  shows "rfc_dots (slashed (s # ss)) out = rfc_dots (slashed ss) (out @ CHR ''/'' # s)"
proof -
  have first: "first_segment (slashed (s # ss)) = CHR ''/'' # s"
    using take_segment [OF assms(1)] by (simp add: first_segment_def slashed_Cons)
  have head: "s = a" if "s @ slashed ss = a @ CHR ''/'' # t" "CHR ''/'' \<notin> set a" for a t
  proof -
    have "s = takeWhile (\<lambda>c. c \<noteq> CHR ''/'') (a @ CHR ''/'' # t)" using take_segment [OF assms(1), of ss] that(1) by simp
    also have "\<dots> = a" using take_segment [OF that(2), of "[t]"] by (simp add: slashed_Cons)
    finally show ?thesis .
  qed
  have all: "s = a" if "s @ slashed ss = a" "CHR ''/'' \<notin> set a" for a
    using that by (cases ss) (auto simp: slashed_Cons)
  have "\<not> prefix ''/./'' (slashed (s # ss))" "\<not> prefix ''/../'' (slashed (s # ss))"
    using head [of "''.''"] head [of "''..''"] assms(2,3) by (auto simp: slashed_Cons prefix_def)
  moreover have "slashed (s # ss) \<noteq> ''/.''" "slashed (s # ss) \<noteq> ''/..''"
    using all [of "''.''"] all [of "''..''"] assms(2,3) by (auto simp: slashed_Cons)
  ultimately show ?thesis
    by (subst rfc_dots.simps) (simp add: first, simp add: slashed_Cons)
qed

lemma rfc_resolve:
  assumes "ss \<noteq> []" and "\<forall>s \<in> set ss. CHR ''/'' \<notin> set s" and "[] \<notin> set (butlast ss)"
    and "\<forall>s \<in> set st. plain_segment s"
  shows "rfc_dots (slashed ss) (slashed (rev st)) = slashed (rev (resolve st ss)) @ (if ends_open ss then ''/'' else [])"
  using assms
proof (induction ss arbitrary: st)
  case (Cons s ss)
  note dls = drop_last_slashed [OF Cons.prems(4)]
  have tl_ok: "\<forall>s \<in> set (tl st). plain_segment s" using Cons.prems(4) set_tl [of st] by blast
  show ?case
  proof (cases "ss = []")
    case True
    consider "s = []" | "s = ''.''" | "s = ''..''" | "s \<noteq> []" "s \<noteq> ''.''" "s \<noteq> ''..''" by blast
    then show ?thesis
    proof cases
      case 1
      then show ?thesis using True by (simp add: slashed_Cons rfc_slash ends_open_def)
    next
      case 2
      then show ?thesis using True
        by (subst rfc_dots.simps) (simp add: slashed_Cons rfc_slash ends_open_def)
    next
      case 3
      then show ?thesis using True dls
        by (subst rfc_dots.simps) (simp add: slashed_Cons rfc_slash ends_open_def)
    next
      case 4
      then show ?thesis using True Cons.prems(2) rfc_segment [of s "[]"]
        by (simp add: ends_open_def slashed_Cons rfc_dots.simps)
    qed
  next
    case False
    then obtain s' ss' where ss: "ss = s' # ss'" by (cases ss) auto
    have rest: "ss \<noteq> []" "\<forall>s \<in> set ss. CHR ''/'' \<notin> set s" "[] \<notin> set (butlast ss)" "s \<noteq> []"
      using False Cons.prems by auto
    have last: "ends_open (s # ss) = ends_open ss" using False by (simp add: ends_open_def)
    consider "s = ''.''" | "s = ''..''" | "s \<noteq> ''.''" "s \<noteq> ''..''" by blast
    then show ?thesis
    proof cases
      case 1
      then show ?thesis using Cons.IH [OF rest(1-3) Cons.prems(4)] last by (simp add: ss rfc_dot)
    next
      case 2
      then show ?thesis using Cons.IH [OF rest(1-3) tl_ok] last dls by (simp add: ss rfc_dotdot)
    next
      case 3
      then have plain: "\<forall>x \<in> set (s # st). plain_segment x"
        using Cons.prems(2,4) rest(4) by (simp add: plain_segment_def)
      show ?thesis using Cons.IH [OF rest(1-3) plain] last rfc_segment [of s ss] 3 rest(4) Cons.prems(2)
        by (simp add: slashed_Cons)
    qed
  qed
qed simp

text \<open>No two slashes in a row, but for one at the end that stays one.\<close>

definition no_empty_segment :: "string \<Rightarrow> bool" where
  "no_empty_segment path \<longleftrightarrow> [] \<notin> set (butlast (tl (split_on (CHR ''/'') path)))"

lemma plain_no_slash: "plain_segment s \<Longrightarrow> CHR ''/'' \<notin> set s"
  by (simp add: plain_segment_def)

lemma ends_slash:
  assumes "\<forall>s \<in> set ss. plain_segment s"
  shows "split_on (CHR ''/'') (slashed ss @ (if b then ''/'' else [])) = [] # ss @ (if b then [[]] else [])"
proof -
  have eq: "slashed ss @ (if b then ''/'' else []) = slashed (ss @ (if b then [[]] else []))" by (simp add: slashed_Cons)
  have "\<forall>s \<in> set (ss @ (if b then [[]] else [])). CHR ''/'' \<notin> set s"
    using assms by (cases b) (auto dest: plain_no_slash)
  then show ?thesis unfolding eq by (rule split_slashed)
qed

text \<open>
  C34: on an absolute path \<open>remove_dot_segments\<close> never moves its iterator out of the vector, and
  leaves no segment \<open>.\<close> or \<open>..\<close>.  When no two slashes follow each other the result is that of
  the algorithm of RFC 3986, section 5.2.4, on every path, the trailing slash included.
\<close>

theorem remove_dot_segments_rfc3986:
  assumes "path = CHR ''/'' # p"
  shows "\<exists>r. remove_dot_segments path = Some r
           \<and> ''.'' \<notin> set (split_on (CHR ''/'') r) \<and> ''..'' \<notin> set (split_on (CHR ''/'') r)
           \<and> (no_empty_segment path \<longrightarrow> r = rfc_remove_dot_segments path)"
proof -
  define ss where "ss = split_on (CHR ''/'') p"
  have clean: "\<forall>s \<in> set ss. CHR ''/'' \<notin> set s" unfolding ss_def using split_no_sep by blast
  have plain: "\<forall>s \<in> set (rev (resolve [] ss)). plain_segment s" using resolve_plain [of "[]" ss] clean by simp
  define r where "r = slashed (rev (resolve [] ss)) @ (if ends_open ss then ''/'' else [])"
  have rem: "remove_dot_segments path = Some r" using remove_dots_resolve [OF assms] by (simp add: r_def ss_def)
  have "''.'' \<notin> set (split_on (CHR ''/'') r)" "''..'' \<notin> set (split_on (CHR ''/'') r)"
    using ends_slash [OF plain] plain by (auto simp: r_def plain_segment_def)
  moreover have "r = rfc_remove_dot_segments path" if "no_empty_segment path"
  proof -
    have "[] \<notin> set (butlast ss)" using that by (simp add: no_empty_segment_def assms ss_def)
    then show ?thesis using rfc_resolve [of ss "[]"] clean absolute_segments(2) [OF assms]
      by (simp add: rfc_remove_dot_segments_def r_def ss_def)
  qed
  ultimately show ?thesis using rem by blast
qed

theorem remove_dot_segments_rfc3986_witness:
  "remove_dot_segments ''/a/./b/../c/..'' = Some ''/a/'' \<and> no_empty_segment ''/a/./b/../c/..''
   \<and> rfc_remove_dot_segments ''/a/./b/../c/..'' = ''/a/''"
proof -
  have "remove_dot_segments ''/a/./b/../c/..'' = Some ''/a/''" by code_simp
  moreover have "no_empty_segment ''/a/./b/../c/..''" by code_simp
  ultimately show ?thesis using remove_dot_segments_rfc3986 [of "''/a/./b/../c/..''" "''a/./b/../c/..''"] by simp
qed

section \<open>Normalization, composition and resolution\<close>

definition to_upper :: "char \<Rightarrow> char" where
  "to_upper c = (if 97 \<le> code c \<and> code c \<le> 122 then char_of (code c - 32) else c)"

definition to_lower :: "char \<Rightarrow> char" where
  "to_lower c = (if 65 \<le> code c \<and> code c \<le> 90 then char_of (code c + 32) else c)"

text \<open>The conversion of two upper-case digits in the action \<open>pct_encoded\<close>.\<close>

definition pct_digit :: "char \<Rightarrow> nat" where
  "pct_digit c = (if code c < 57 then code c - 48 else code c - 55)"

definition pct_char :: "char \<Rightarrow> char \<Rightarrow> char" where
  "pct_char a b = char_of (pct_digit a * 16 + pct_digit b)"

definition pct_unreserved :: "char \<Rightarrow> bool" where
  "pct_unreserved c \<longleftrightarrow> is_alnum c \<or> c \<in> set ''-._~''"

fun normalize_scan :: "string \<Rightarrow> string" where
  "normalize_scan [] = []"
| "normalize_scan (c # s) =
     (if c = CHR ''%'' then
        (case s of
           a # b # s' \<Rightarrow>
             if is_xdigit a \<and> is_xdigit b then
               let x = pct_char (to_upper a) (to_upper b)
               in if pct_unreserved x then x # normalize_scan s'
                  else CHR ''%'' # to_upper a # to_upper b # normalize_scan s'
             else (case s' of
                     d # e # f # t \<Rightarrow>
                       if a = CHR ''u'' \<and> is_xdigit b \<and> is_xdigit d \<and> is_xdigit e \<and> is_xdigit f
                       then CHR ''%'' # a # to_upper b # to_upper d # to_upper e # to_upper f # normalize_scan t
                       else CHR ''%'' # normalize_scan s
                   | _ \<Rightarrow> CHR ''%'' # normalize_scan s)
         | _ \<Rightarrow> CHR ''%'' # normalize_scan s)
      else c # normalize_scan s)"

definition normalize_pct_encoded :: "string \<Rightarrow> string" where
  "normalize_pct_encoded s = takeWhile (\<lambda>c. c \<noteq> char_of (0::nat)) (normalize_scan s)"

record uri_rec =
  u_scheme :: string
  u_userinfo :: string
  u_host :: string
  u_path :: string
  u_query :: string
  u_fragment :: string
  u_port :: u16

definition uri_clear :: uri_rec where
  "uri_clear = \<lparr>u_scheme = [], u_userinfo = [], u_host = [], u_path = [], u_query = [], u_fragment = [], u_port = 0\<rparr>"

definition with_path :: "string option \<Rightarrow> uri_rec \<Rightarrow> uri_rec option" where
  "with_path p u = map_option (\<lambda>q. u\<lparr>u_path := q\<rparr>) p"

definition uri_normalize :: "uri_rec \<Rightarrow> uri_rec option" where
  "uri_normalize u =
     with_path (remove_dot_segments (normalize_pct_encoded (u_path u)))
       (u\<lparr>u_scheme := map to_lower (u_scheme u),
          u_userinfo := normalize_pct_encoded (u_userinfo u),
          u_host := normalize_pct_encoded (map to_lower (u_host u)),
          u_query := normalize_pct_encoded (u_query u),
          u_fragment := normalize_pct_encoded (u_fragment u)\<rparr>)"

definition uri_compose :: "bool \<Rightarrow> uri_rec \<Rightarrow> string" where
  "uri_compose path_only u =
     (if path_only then []
      else (if u_scheme u \<noteq> [] then u_scheme u @ '':'' else [])
         @ (if u_userinfo u \<noteq> [] \<or> u_host u \<noteq> [] then ''//'' else [])
         @ (if u_userinfo u \<noteq> [] then u_userinfo u @ ''@'' else [])
         @ (if u_host u \<noteq> [] then u_host u @ (if u_port u \<noteq> 0 then '':'' @ decimal (unat (u_port u)) else []) else []))
   @ (if u_path u \<noteq> [] then (if prefix ''/'' (u_path u) then [] else ''/'') @ u_path u else [])
   @ u_query u @ u_fragment u"

text \<open>\<open>find_last_of\<close> looks at the position it is given too, so the second search finds the first slash again.\<close>

definition merge_path :: "uri_rec \<Rightarrow> uri_rec \<Rightarrow> string" where
  "merge_path base r =
     (if u_path base = [] \<or> u_path base = ''/'' then ''/'' @ u_path r
      else if u_path r \<noteq> [] then rev (dropWhile (\<lambda>c. c \<noteq> CHR ''/'') (rev (u_path base))) @ u_path r
      else u_path base)"

definition uri_transform :: "uri_rec \<Rightarrow> uri_rec \<Rightarrow> uri_rec option" where
  "uri_transform base r =
     (let authority = (\<lambda>s t. t\<lparr>u_userinfo := u_userinfo s, u_host := u_host s, u_port := u_port s\<rparr>);
          t = (if u_scheme r \<noteq> [] then
                 with_path (remove_dot_segments (u_path r)) ((authority r uri_clear)\<lparr>u_scheme := u_scheme r, u_query := u_query r\<rparr>)
               else map_option (\<lambda>t. t\<lparr>u_scheme := u_scheme base\<rparr>)
                 (if u_userinfo r \<noteq> [] \<or> u_host r \<noteq> [] then
                    with_path (remove_dot_segments (u_path r)) ((authority r uri_clear)\<lparr>u_query := u_query r\<rparr>)
                  else if u_path r = [] then
                    Some ((authority base uri_clear)\<lparr>u_path := u_path base,
                            u_query := (if u_query r \<noteq> [] then u_query r else u_query base)\<rparr>)
                  else if prefix ''/'' (u_path r) then
                    with_path (remove_dot_segments (u_path r)) ((authority base uri_clear)\<lparr>u_query := u_query r\<rparr>)
                  else
                    with_path (remove_dot_segments (merge_path base r)) ((authority base uri_clear)\<lparr>u_query := u_query r\<rparr>)))
      in map_option (\<lambda>t. t\<lparr>u_fragment := u_fragment r\<rparr>) t)"

definition path_splits :: "uri_rec \<Rightarrow> string list" where
  "path_splits u = split_on (CHR ''/'') (u_path u)"

lemma pct_digit_upper:
  assumes "is_xdigit a"
  shows "pct_digit (to_upper a) = (if a = CHR ''9'' then 2 else digit_of a)" and "digit_of a < 16"
    and "digit_of a = 9 \<longleftrightarrow> a = CHR ''9''"
proof -
  have nine: "a = CHR ''9'' \<longleftrightarrow> code a = 57"
    using of_char_eq_iff [of a "CHR ''9''", where 'a = nat] by simp
  show "pct_digit (to_upper a) = (if a = CHR ''9'' then 2 else digit_of a)" "digit_of a < 16"
    "digit_of a = 9 \<longleftrightarrow> a = CHR ''9''"
    using assms by (auto simp: nine is_xdigit_def pct_digit_def to_upper_def digit_of_def of_char_of)
qed

lemma char_of_256: "m < 256 \<Longrightarrow> n < 256 \<Longrightarrow> (char_of m :: char) = char_of n \<longleftrightarrow> m = (n::nat)"
proof
  assume "m < 256" "n < 256" "(char_of m :: char) = char_of n"
  then have "code (char_of m) = code (char_of n)" by simp
  then show "m = n" using \<open>m < 256\<close> \<open>n < 256\<close> by (simp only: of_char_of mod_less)
qed simp

lemma pct_char_right:
  assumes "is_xdigit a" and "is_xdigit b"
  shows "pct_char (to_upper a) (to_upper b) = hex2char a b \<longleftrightarrow> a \<noteq> CHR ''9'' \<and> b \<noteq> CHR ''9''"
proof -
  note A = pct_digit_upper [OF assms(1)] and B = pct_digit_upper [OF assms(2)]
  define x y x' y' where "x = digit_of a" "y = digit_of b" "x' = pct_digit (to_upper a)" "y' = pct_digit (to_upper b)"
  have small: "x < 16" "y < 16" "x' < 16" "y' < 16" using A B by (auto simp: x_y_x'_y'_def)
  have "(char_of (x' * 16 + y') :: char) = char_of (x * 16 + y) \<longleftrightarrow> x' * 16 + y' = x * 16 + y"
    using small by (intro char_of_256) linarith+
  also have "\<dots> \<longleftrightarrow> x' = x \<and> y' = y"
    using small by (cases x x' rule: linorder_cases) linarith+
  also have "x' = x \<longleftrightarrow> a \<noteq> CHR ''9''" using A by (auto simp: x_y_x'_y'_def)
  also have "y' = y \<longleftrightarrow> b \<noteq> CHR ''9''" using B by (auto simp: x_y_x'_y'_def)
  finally show ?thesis by (simp add: pct_char_def hex2char_def x_y_x'_y'_def)
qed

definition path_only :: "string \<Rightarrow> uri_rec" where
  "path_only p = uri_clear\<lparr>u_path := p\<rparr>"



end
