(* ===== verification/Jsonstream.thy ===== *)
theory Jsonstream
  imports Decimal
begin

text \<open>
  \<open>jsonstream\<close> of \<open>include/ten/jsonstream.hh\<close>: JSON text written by a sequence of stream
  operations, with a stack of states that places the commas and colons.

  The text of a floating-point number is made by a library and is an argument here.  An
  operation that throws leaves the stream as it was at the throw.  The specification is a value,
  its operations, and a strict reader of JSON text: what the stream writes for a value is read
  back as that value.
\<close>

section \<open>Model\<close>

datatype js_state = Js_none | Object_begin | Object_key | Object_value | Array_begin | Array_value

record jsonstream =
  js_os :: string
  js_states :: "js_state list"
  js_escape :: bool
  js_raw :: bool

datatype js_error = Bad_state | Invalid_key | Empty_stack

definition js_new :: jsonstream where
  "js_new = \<lparr>js_os = [], js_states = [Js_none], js_escape = False, js_raw = False\<rparr>"

definition emit :: "string \<Rightarrow> jsonstream \<Rightarrow> jsonstream" where
  "emit s j = j\<lparr>js_os := js_os j @ s\<rparr>"

definition escape_char :: "char \<Rightarrow> string" where
  "escape_char c =
     (if code c = 92 then [char_of (92::nat), char_of (92::nat)]
      else if code c = 34 then [char_of (92::nat), char_of (34::nat)]
      else if code c = 47 then [char_of (92::nat), char_of (47::nat)]
      else if code c = 8 then [char_of (92::nat), CHR ''b'']
      else if code c = 12 then [char_of (92::nat), CHR ''f'']
      else if code c = 10 then [char_of (92::nat), CHR ''n'']
      else if code c = 13 then [char_of (92::nat), CHR ''r'']
      else if code c = 9 then [char_of (92::nat), CHR ''t'']
      else [c])"

definition json_escape_string :: "string \<Rightarrow> string" where
  "json_escape_string s = concat (map escape_char s)"

abbreviation dq :: char where
  "dq \<equiv> char_of (34::nat)"

definition js_transition :: "(jsonstream \<Rightarrow> jsonstream) \<Rightarrow> bool \<Rightarrow> jsonstream \<Rightarrow> (js_error, jsonstream, unit) outcome" where
  "js_transition f can_key j =
     (let key = (\<lambda>j. if \<not> can_key then (Inl Invalid_key, j)
                     else (Inr (), emit '':'' (f (j\<lparr>js_states := Object_key # js_states j\<rparr>))))
      in case js_states j of
           [] \<Rightarrow> (Inl Empty_stack, j)
         | Js_none # _ \<Rightarrow> (Inr (), f j)
         | Object_value # r \<Rightarrow> key (emit '','' (j\<lparr>js_states := r\<rparr>))
         | Object_begin # _ \<Rightarrow> key j
         | Object_key # r \<Rightarrow> (Inr (), f (j\<lparr>js_states := Object_value # r\<rparr>))
         | Array_begin # _ \<Rightarrow> (Inr (), f (j\<lparr>js_states := Array_value # js_states j\<rparr>))
         | Array_value # _ \<Rightarrow> (Inr (), f (emit '','' j)))"

definition js_string :: "string \<Rightarrow> jsonstream \<Rightarrow> jsonstream" where
  "js_string s j =
     (if js_raw j then emit s j else emit ([dq] @ (if js_escape j then json_escape_string s else s) @ [dq]) j)"

definition js_open :: "js_state \<Rightarrow> string \<Rightarrow> jsonstream \<Rightarrow> jsonstream" where
  "js_open st s j = emit s (j\<lparr>js_states := st # js_states j\<rparr>)"

definition js_end :: "jsonstream \<Rightarrow> (js_error, jsonstream, unit) outcome" where
  "js_end j =
     (let close = (\<lambda>opening s. case js_states j of
                     _ # st # r \<Rightarrow> if st \<noteq> opening then (Inl Bad_state, j\<lparr>js_states := st # r\<rparr>)
                                   else (Inr (), emit s (j\<lparr>js_states := r\<rparr>))
                   | _ \<Rightarrow> (Inl Empty_stack, j\<lparr>js_states := []\<rparr>))
      in case js_states j of
           Object_begin # r \<Rightarrow> (Inr (), emit ''}'' (j\<lparr>js_states := r\<rparr>))
         | Object_value # _ \<Rightarrow> close Object_begin ''}''
         | Array_begin # r \<Rightarrow> (Inr (), emit '']'' (j\<lparr>js_states := r\<rparr>))
         | Array_value # _ \<Rightarrow> close Array_begin '']''
         | [] \<Rightarrow> (Inl Empty_stack, j)
         | _ \<Rightarrow> (Inl Bad_state, j))"

definition signed_decimal :: "int \<Rightarrow> string" where
  "signed_decimal i = (if i < 0 then CHR ''-'' # decimal (nat (- i)) else decimal (nat i))"

text \<open>
  One \<open>operator<<\<close>.  \<open>Chars\<close> is a string of either kind, \<open>Float\<close> the text of a floating-point
  number.
\<close>

datatype js_op =
    Chars string | Boolean bool | Integral int | Float string
  | Jsraw | Jsnoraw | Jsescape | Jsnoescape | Jsobject | Jsarray | Jsend

fun js_put :: "js_op \<Rightarrow> jsonstream \<Rightarrow> (js_error, jsonstream, unit) outcome" where
  "js_put (Chars s) j = js_transition (js_string s) True j"
| "js_put (Boolean b) j = js_transition (emit (if b then ''true'' else ''false'')) False j"
| "js_put (Integral i) j = js_transition (emit (signed_decimal i)) False j"
| "js_put (Float s) j = js_transition (emit s) False j"
| "js_put Jsraw j = (Inr (), j\<lparr>js_raw := True\<rparr>)"
| "js_put Jsnoraw j = (Inr (), j\<lparr>js_raw := False\<rparr>)"
| "js_put Jsescape j = (Inr (), j\<lparr>js_escape := True\<rparr>)"
| "js_put Jsnoescape j = (Inr (), j\<lparr>js_escape := False\<rparr>)"
| "js_put Jsobject j = js_transition (js_open Object_begin ''{'') False j"
| "js_put Jsarray j = js_transition (js_open Array_begin ''['') False j"
| "js_put Jsend j = js_end j"

text \<open>A chain of operations stops at the first that throws.\<close>

fun js_run :: "js_op list \<Rightarrow> jsonstream \<Rightarrow> (js_error, jsonstream, unit) outcome" where
  "js_run [] j = (Inr (), j)"
| "js_run (x # xs) j = (case js_put x j of (Inl e, j') \<Rightarrow> (Inl e, j') | (Inr _, j') \<Rightarrow> js_run xs j')"

text \<open>A container of values.\<close>

definition js_sequence :: "js_op list list \<Rightarrow> js_op list" where
  "js_sequence xss = Jsarray # concat xss @ [Jsend]"

section \<open>Values\<close>

datatype jval = JStr string | JBool bool | JInt int | JArr "jval list" | JObj "(string \<times> jval) list"

fun ops_of :: "jval \<Rightarrow> js_op list" where
  "ops_of (JStr s) = [Chars s]"
| "ops_of (JBool b) = [Boolean b]"
| "ops_of (JInt i) = [Integral i]"
| "ops_of (JArr vs) = js_sequence (map ops_of vs)"
| "ops_of (JObj kvs) = Jsobject # concat (map (\<lambda>(k, v). Chars k # ops_of v) kvs) @ [Jsend]"

definition quoted :: "string \<Rightarrow> string" where
  "quoted s = [dq] @ json_escape_string s @ [dq]"

fun js_print :: "jval \<Rightarrow> string" where
  "js_print (JStr s) = quoted s"
| "js_print (JBool b) = (if b then ''true'' else ''false'')"
| "js_print (JInt i) = signed_decimal i"
| "js_print (JArr vs) = ''['' @ join '','' (map js_print vs) @ '']''"
| "js_print (JObj kvs) = ''{'' @ join '','' (map (\<lambda>(k, v). quoted k @ '':'' @ js_print v) kvs) @ ''}''"

text \<open>What the stream writes before a value, and the states after it.\<close>

fun value_place :: "js_state list \<Rightarrow> (string \<times> js_state list) option" where
  "value_place (Js_none # r) = Some ([], Js_none # r)"
| "value_place (Object_key # r) = Some ([], Object_value # r)"
| "value_place (Array_begin # r) = Some ([], Array_value # Array_begin # r)"
| "value_place (Array_value # r) = Some ('','', Array_value # r)"
| "value_place _ = None"

lemma js_run_append:
  "js_run (xs @ ys) j = (case js_run xs j of (Inl e, j') \<Rightarrow> (Inl e, j') | (Inr _, j') \<Rightarrow> js_run ys j')"
  by (induction xs arbitrary: j) (auto split: prod.splits sum.splits)

definition wrote :: "js_op list \<Rightarrow> jsonstream \<Rightarrow> string \<Rightarrow> js_state list \<Rightarrow> bool" where
  "wrote xs j s st \<longleftrightarrow> js_run xs j = (Inr (), j\<lparr>js_os := js_os j @ s, js_states := st\<rparr>)"

lemma wrote_append:
  assumes "wrote xs j s st" and "wrote ys (j\<lparr>js_os := js_os j @ s, js_states := st\<rparr>) t st'"
  shows "wrote (xs @ ys) j (s @ t) st'"
  using assms by (simp add: wrote_def js_run_append)

lemma transition_value:
  assumes "value_place (js_states j) = Some (sep, st)"
  shows "js_transition f can_key j = (Inr (), f (j\<lparr>js_os := js_os j @ sep, js_states := st\<rparr>))"
proof -
  obtain os states esc raw where j: "j = \<lparr>js_os = os, js_states = states, js_escape = esc, js_raw = raw\<rparr>" by (cases j)
  show ?thesis using assms by (cases states rule: value_place.cases) (auto simp: j js_transition_def emit_def)
qed

definition writes_value :: "jval \<Rightarrow> bool" where
  "writes_value v \<longleftrightarrow> (\<forall>j sep st. \<not> js_raw j \<longrightarrow> js_escape j \<longrightarrow> value_place (js_states j) = Some (sep, st) \<longrightarrow>
      wrote (ops_of v) j (sep @ js_print v) st)"

lemma writes_valueD:
  "writes_value v \<Longrightarrow> \<not> js_raw j \<Longrightarrow> js_escape j \<Longrightarrow> value_place (js_states j) = Some (sep, st) \<Longrightarrow>
     s = sep @ js_print v \<Longrightarrow> wrote (ops_of v) j s st"
  by (simp add: writes_value_def)

lemma elements_written:
  assumes "\<forall>v \<in> set vs. writes_value v" and "\<not> js_raw j" and "js_escape j" and "js_states j = Array_value # r"
  shows "wrote (concat (map ops_of vs)) j (concat (map (\<lambda>v. '','' @ js_print v) vs)) (Array_value # r)"
  using assms
proof (induction vs arbitrary: j)
  case Nil
  then show ?case by (simp add: wrote_def)
next
  case (Cons v vs)
  have "wrote (ops_of v) j ('','' @ js_print v) (Array_value # r)" using Cons.prems by (auto simp: writes_value_def)
  from wrote_append [OF this Cons.IH] Cons.prems show ?case by simp
qed

lemma members_written:
  assumes "\<forall>p \<in> set kvs. writes_value (snd p)" and "\<not> js_raw j" and "js_escape j"
    and "js_states j = Object_value # Object_begin # r"
  shows "wrote (concat (map (\<lambda>(k, v). Chars k # ops_of v) kvs)) j
           (concat (map (\<lambda>(k, v). '','' @ quoted k @ '':'' @ js_print v) kvs)) (Object_value # Object_begin # r)"
  using assms
proof (induction kvs arbitrary: j)
  case Nil
  then show ?case by (simp add: wrote_def)
next
  case (Cons p kvs)
  obtain k v where p: "p = (k, v)" by (cases p)
  have "wrote [Chars k] j ('','' @ quoted k @ '':'') (Object_key # Object_begin # r)"
    using Cons.prems by (simp add: wrote_def js_transition_def js_string_def emit_def quoted_def)
  moreover have "wrote (ops_of v) (j\<lparr>js_os := js_os j @ '','' @ quoted k @ '':'', js_states := Object_key # Object_begin # r\<rparr>)
      (js_print v) (Object_value # Object_begin # r)"
    using Cons.prems by (intro writes_valueD) (simp_all add: p)
  ultimately have "wrote ([Chars k] @ ops_of v) j (('','' @ quoted k @ '':'') @ js_print v) (Object_value # Object_begin # r)"
    by (rule wrote_append)
  from wrote_append [OF this Cons.IH] Cons.prems show ?case by (simp add: p)
qed

lemma array_written:
  assumes "\<forall>v \<in> set vs. writes_value v"
  shows "writes_value (JArr vs)"
  unfolding writes_value_def
proof (intro allI impI)
  fix j :: jsonstream and sep st
  assume j: "\<not> js_raw j" "js_escape j" and place: "value_place (js_states j) = Some (sep, st)"
  have start: "wrote [Jsarray] j (sep @ ''['') (Array_begin # st)"
    by (simp add: wrote_def transition_value [OF place] js_open_def emit_def)
  show "wrote (ops_of (JArr vs)) j (sep @ js_print (JArr vs)) st"
  proof (cases vs)
    case Nil
    have "wrote [Jsend] (j\<lparr>js_os := js_os j @ sep @ ''['', js_states := Array_begin # st\<rparr>) '']'' st"
      by (simp add: wrote_def js_end_def emit_def)
    from wrote_append [OF start this] show ?thesis using Nil by (simp add: js_sequence_def)
  next
    case (Cons v vs')
    have "wrote (ops_of v) (j\<lparr>js_os := js_os j @ sep @ ''['', js_states := Array_begin # st\<rparr>) (js_print v) (Array_value # Array_begin # st)"
      using j assms Cons by (intro writes_valueD) simp_all
    note 1 = wrote_append [OF start this]
    have "wrote (concat (map ops_of vs'))
        (j\<lparr>js_os := js_os j @ (sep @ ''['') @ js_print v, js_states := Array_value # Array_begin # st\<rparr>)
        (concat (map (\<lambda>v. '','' @ js_print v) vs')) (Array_value # Array_begin # st)"
      using j assms Cons by (intro elements_written) simp_all
    note 2 = wrote_append [OF 1 this]
    have "wrote [Jsend] (j\<lparr>js_os := js_os j @ ((sep @ ''['') @ js_print v) @ concat (map (\<lambda>v. '','' @ js_print v) vs'),
        js_states := Array_value # Array_begin # st\<rparr>) '']'' st"
      by (simp add: wrote_def js_end_def emit_def)
    from wrote_append [OF 2 this] show ?thesis using Cons by (simp add: js_sequence_def join_Cons comp_def)
  qed
qed

lemma object_written:
  assumes "\<forall>p \<in> set kvs. writes_value (snd p)"
  shows "writes_value (JObj kvs)"
  unfolding writes_value_def
proof (intro allI impI)
  fix j :: jsonstream and sep st
  assume j: "\<not> js_raw j" "js_escape j" and place: "value_place (js_states j) = Some (sep, st)"
  have start: "wrote [Jsobject] j (sep @ ''{'') (Object_begin # st)"
    by (simp add: wrote_def transition_value [OF place] js_open_def emit_def)
  show "wrote (ops_of (JObj kvs)) j (sep @ js_print (JObj kvs)) st"
  proof (cases kvs)
    case Nil
    have "wrote [Jsend] (j\<lparr>js_os := js_os j @ sep @ ''{'', js_states := Object_begin # st\<rparr>) ''}'' st"
      by (simp add: wrote_def js_end_def emit_def)
    from wrote_append [OF start this] show ?thesis using Nil by simp
  next
    case (Cons p kvs')
    obtain k v where p: "p = (k, v)" by (cases p)
    have "wrote [Chars k] (j\<lparr>js_os := js_os j @ sep @ ''{'', js_states := Object_begin # st\<rparr>)
        (quoted k @ '':'') (Object_key # Object_begin # st)"
      using j by (simp add: wrote_def js_transition_def js_string_def emit_def quoted_def)
    note 1 = wrote_append [OF start this]
    have "wrote (ops_of v) (j\<lparr>js_os := js_os j @ (sep @ ''{'') @ quoted k @ '':'', js_states := Object_key # Object_begin # st\<rparr>)
        (js_print v) (Object_value # Object_begin # st)"
      using j assms Cons p by (intro writes_valueD) simp_all
    note 2 = wrote_append [OF 1 this]
    have "wrote (concat (map (\<lambda>(k, v). Chars k # ops_of v) kvs'))
        (j\<lparr>js_os := js_os j @ ((sep @ ''{'') @ quoted k @ '':'') @ js_print v, js_states := Object_value # Object_begin # st\<rparr>)
        (concat (map (\<lambda>(k, v). '','' @ quoted k @ '':'' @ js_print v) kvs')) (Object_value # Object_begin # st)"
      using j assms Cons by (intro members_written) simp_all
    note 3 = wrote_append [OF 2 this]
    have "wrote [Jsend] (j\<lparr>js_os := js_os j @ (((sep @ ''{'') @ quoted k @ '':'') @ js_print v)
          @ concat (map (\<lambda>(k, v). '','' @ quoted k @ '':'' @ js_print v) kvs'), js_states := Object_value # Object_begin # st\<rparr>) ''}'' st"
      by (simp add: wrote_def js_end_def emit_def)
    from wrote_append [OF 3 this] show ?thesis
      using Cons p by (simp add: join_Cons comp_def case_prod_unfold)
  qed
qed

lemma value_written: "writes_value v"
proof (induction v)
  case (JArr vs)
  then show ?case by (simp add: array_written)
next
  case (JObj kvs)
  then show ?case by (intro object_written) (auto simp: snds.simps)
qed (auto simp: writes_value_def wrote_def transition_value js_string_def emit_def quoted_def)

section \<open>A reader\<close>

text \<open>
  JSON text without white space, numbers other than integers, \<open>null\<close> and \<open>\u\<close> escapes, which the
  values here do not need.  A control character inside a string is refused, as RFC 8259 asks.
\<close>

definition unescape :: "char \<Rightarrow> char option" where
  "unescape e =
     (if code e = 34 \<or> code e = 92 \<or> code e = 47 then Some e
      else if e = CHR ''b'' then Some (char_of (8::nat)) else if e = CHR ''f'' then Some (char_of (12::nat))
      else if e = CHR ''n'' then Some (char_of (10::nat)) else if e = CHR ''r'' then Some (char_of (13::nat))
      else if e = CHR ''t'' then Some (char_of (9::nat)) else None)"

fun read_chars :: "string \<Rightarrow> (string \<times> string) option" where
  "read_chars [] = None"
| "read_chars (c # s) =
     (if code c = 34 then Some ([], s)
      else if code c = 92 then
        (case s of [] \<Rightarrow> None
         | e # s' \<Rightarrow> (case unescape e of None \<Rightarrow> None | Some x \<Rightarrow> map_option (apfst (\<lambda>t. x # t)) (read_chars s')))
      else if code c < 32 then None
      else map_option (apfst (\<lambda>t. c # t)) (read_chars s))"

definition read_int :: "string \<Rightarrow> (int \<times> string) option" where
  "read_int s =
     (let (sg, t) = (case s of c # s' \<Rightarrow> if c = CHR ''-'' then (-1, s') else (1, s) | [] \<Rightarrow> (1, s));
          ds = takeWhile is_digit t
      in if ds = [] then None else Some (sg * int (digit_scan ds), drop (length ds) t))"

fun read_value :: "nat \<Rightarrow> string \<Rightarrow> (jval \<times> string) option"
  and read_items :: "nat \<Rightarrow> string \<Rightarrow> (jval list \<times> string) option"
  and read_members :: "nat \<Rightarrow> string \<Rightarrow> ((string \<times> jval) list \<times> string) option" where
  "read_value 0 s = None"
| "read_value (Suc n) s =
     (case s of [] \<Rightarrow> None
      | c # t \<Rightarrow>
          if code c = 34 then map_option (apfst JStr) (read_chars t)
          else if c = CHR ''t'' then (if take 3 t = ''rue'' then Some (JBool True, drop 3 t) else None)
          else if c = CHR ''f'' then (if take 4 t = ''alse'' then Some (JBool False, drop 4 t) else None)
          else if c = CHR ''['' then
            (case t of [] \<Rightarrow> None
             | d # u \<Rightarrow> if d = CHR '']'' then Some (JArr [], u) else map_option (apfst JArr) (read_items n t))
          else if c = CHR ''{'' then
            (case t of [] \<Rightarrow> None
             | d # u \<Rightarrow> if d = CHR ''}'' then Some (JObj [], u) else map_option (apfst JObj) (read_members n t))
          else map_option (apfst JInt) (read_int s))"
| "read_items 0 s = None"
| "read_items (Suc n) s =
     (case read_value n s of None \<Rightarrow> None
      | Some (v, t) \<Rightarrow>
          (case t of [] \<Rightarrow> None
           | c # u \<Rightarrow> if c = CHR '','' then map_option (apfst (\<lambda>vs. v # vs)) (read_items n u)
                      else if c = CHR '']'' then Some ([v], u) else None))"
| "read_members 0 s = None"
| "read_members (Suc n) s =
     (case s of [] \<Rightarrow> None
      | q # s1 \<Rightarrow>
        if code q \<noteq> 34 then None
        else (case read_chars s1 of None \<Rightarrow> None
              | Some (k, s2) \<Rightarrow>
                (case s2 of [] \<Rightarrow> None
                 | d # s3 \<Rightarrow>
                   if d \<noteq> CHR '':'' then None
                   else (case read_value n s3 of None \<Rightarrow> None
                         | Some (v, t) \<Rightarrow>
                           (case t of [] \<Rightarrow> None
                            | c # u \<Rightarrow> if c = CHR '','' then map_option (apfst (\<lambda>kvs. (k, v) # kvs)) (read_members n u)
                                       else if c = CHR ''}'' then Some ([(k, v)], u) else None)))))"

definition json_read :: "string \<Rightarrow> (jval \<times> string) option" where
  "json_read s = read_value (length s) s"

text \<open>Strings whose control characters all have an escape.\<close>

definition escapable :: "char \<Rightarrow> bool" where
  "escapable c \<longleftrightarrow> 32 \<le> code c \<or> code c \<in> {8, 9, 10, 12, 13}"

fun escapable_value :: "jval \<Rightarrow> bool" where
  "escapable_value (JStr s) \<longleftrightarrow> list_all escapable s"
| "escapable_value (JArr vs) \<longleftrightarrow> list_all escapable_value vs"
| "escapable_value (JObj kvs) \<longleftrightarrow> list_all (\<lambda>(k, v). list_all escapable k \<and> escapable_value v) kvs"
| "escapable_value _ \<longleftrightarrow> True"

lemma code_eq: "code c = n \<Longrightarrow> c = char_of n"
  by auto

lemma read_escape_char:
  assumes "escapable c"
  shows "read_chars (escape_char c @ s) = map_option (apfst (\<lambda>t. c # t)) (read_chars s)"
proof -
  have "\<exists>e. unescape e = Some c \<and> escape_char c = [char_of (92::nat), e] \<or> 32 \<le> code c \<and> code c \<noteq> 34 \<and> code c \<noteq> 92 \<and> escape_char c = [c]"
    using assms by (auto simp: escape_char_def unescape_def escapable_def of_char_of dest!: code_eq)
  then show ?thesis by (auto simp: of_char_of split: if_splits)
qed

lemma read_escape:
  assumes "list_all escapable s"
  shows "read_chars (json_escape_string s @ [dq] @ rest) = Some (s, rest)"
  using assms
  by (induction s) (simp_all add: json_escape_string_def read_escape_char of_char_of)

definition ends_number :: "string \<Rightarrow> bool" where
  "ends_number rest \<longleftrightarrow> (case rest of [] \<Rightarrow> True | c # _ \<Rightarrow> \<not> is_digit c)"

definition reads_back :: "jval \<Rightarrow> bool" where
  "reads_back v \<longleftrightarrow> (\<forall>n rest. ends_number rest \<longrightarrow> length (js_print v) \<le> n \<longrightarrow> read_value n (js_print v @ rest) = Some (v, rest))"

lemma reads_backD:
  "reads_back v \<Longrightarrow> ends_number rest \<Longrightarrow> length (js_print v) \<le> n \<Longrightarrow> read_value n (js_print v @ rest) = Some (v, rest)"
  by (simp add: reads_back_def)

lemma take_digits: "ends_number rest \<Longrightarrow> takeWhile is_digit (decimal n @ rest) = decimal n"
  using decimal_digits [of _ n] by (cases rest) (auto simp: ends_number_def takeWhile_append)

lemma decimal_head: "\<exists>d ds. decimal n = d # ds \<and> is_digit d"
  using decimal_digits [of _ n] decimal_not_Nil [of n] by (cases "decimal n") auto

lemma read_signed:
  assumes "ends_number rest"
  shows "read_int (signed_decimal i @ rest) = Some (i, rest)"
proof (cases "i < 0")
  case True
  then show ?thesis using take_digits [OF assms, of "nat (- i)"]
    by (simp add: read_int_def signed_decimal_def)
next
  case False
  obtain d ds where d: "decimal (nat i) = d # ds" "is_digit d" using decimal_head by blast
  then have "d \<noteq> CHR ''-''" by (auto simp: is_digit_def)
  then show ?thesis using False d(1) take_digits [OF assms, of "nat i"] decimal_scan [of "nat i"]
    by (simp add: read_int_def signed_decimal_def)
qed

lemma int_head:
  "\<exists>d ds. signed_decimal i = d # ds \<and> code d \<noteq> 34 \<and> d \<noteq> CHR ''t'' \<and> d \<noteq> CHR ''f'' \<and> d \<noteq> CHR ''['' \<and> d \<noteq> CHR ''{''"
proof (cases "i < 0")
  case False
  obtain d ds where "decimal (nat i) = d # ds" "is_digit d" using decimal_head by blast
  then show ?thesis using False by (auto simp: signed_decimal_def is_digit_def)
qed (simp add: signed_decimal_def)

lemma int_reads_back: "reads_back (JInt i)"
  unfolding reads_back_def
proof (intro allI impI)
  fix n rest assume "ends_number rest" and len: "length (js_print (JInt i)) \<le> n"
  obtain d ds where d: "signed_decimal i = d # ds" "code d \<noteq> 34" "d \<noteq> CHR ''t''" "d \<noteq> CHR ''f''" "d \<noteq> CHR ''[''" "d \<noteq> CHR ''{''"
    using int_head by blast
  obtain m where n: "n = Suc m" using len d(1) by (cases n) auto
  show "read_value n (js_print (JInt i) @ rest) = Some (JInt i, rest)"
    using read_signed [OF \<open>ends_number rest\<close>, of i] d by (simp add: n)
qed

lemma ends_punctuation [simp]: "ends_number (CHR '','' # s)" "ends_number (CHR '']'' # s)" "ends_number (CHR ''}'' # s)"
  by (simp_all add: ends_number_def is_digit_def)

lemma items_read_back:
  assumes "\<forall>v \<in> set vs. reads_back v" and "vs \<noteq> []" and "length (join '','' (map js_print vs)) < n"
  shows "read_items n (join '','' (map js_print vs) @ CHR '']'' # rest) = Some (vs, rest)"
  using assms
proof (induction vs arbitrary: n)
  case (Cons v vs)
  obtain m where n: "n = Suc m" using Cons.prems(3) by (cases n) auto
  show ?case
  proof (cases vs)
    case Nil
    then have "read_value m (js_print v @ CHR '']'' # rest) = Some (v, CHR '']'' # rest)"
      using Cons.prems by (intro reads_backD) (simp_all add: n)
    then show ?thesis using Nil by (simp add: n)
  next
    case (Cons w ws)
    let ?t = "join '','' (map js_print vs) @ CHR '']'' # rest"
    have "read_value m (js_print v @ CHR '','' # ?t) = Some (v, CHR '','' # ?t)"
      using Cons.prems Cons by (intro reads_backD) (simp_all add: n)
    moreover have "read_items m ?t = Some (vs, rest)" using Cons.IH Cons.prems Cons by (simp add: n)
    ultimately show ?thesis using Cons by (simp add: n)
  qed
qed simp

lemma members_read_back:
  assumes "\<forall>p \<in> set kvs. reads_back (snd p) \<and> list_all escapable (fst p)" and "kvs \<noteq> []"
    and "length (join '','' (map (\<lambda>(k, v). quoted k @ '':'' @ js_print v) kvs)) < n"
  shows "read_members n (join '','' (map (\<lambda>(k, v). quoted k @ '':'' @ js_print v) kvs) @ CHR ''}'' # rest) = Some (kvs, rest)"
  using assms
proof (induction kvs arbitrary: n)
  case (Cons p kvs)
  obtain m where n: "n = Suc m" using Cons.prems(3) by (cases n) auto
  obtain k v where p: "p = (k, v)" by (cases p)
  have key: "read_chars (json_escape_string k @ [dq] @ t) = Some (k, t)" for t
    using Cons.prems(1) by (intro read_escape) (simp add: p)
  show ?case
  proof (cases kvs)
    case Nil
    then have "read_value m (js_print v @ CHR ''}'' # rest) = Some (v, CHR ''}'' # rest)"
      using Cons.prems by (intro reads_backD) (simp_all add: n p quoted_def)
    then show ?thesis using Nil key by (simp add: n p quoted_def of_char_of)
  next
    case (Cons w ws)
    let ?t = "join '','' (map (\<lambda>(k, v). quoted k @ '':'' @ js_print v) kvs) @ CHR ''}'' # rest"
    have "read_value m (js_print v @ CHR '','' # ?t) = Some (v, CHR '','' # ?t)"
      using Cons.prems Cons by (intro reads_backD) (simp_all add: n p quoted_def)
    moreover have "read_members m ?t = Some (kvs, rest)" using Cons.IH Cons.prems Cons by (simp add: n p quoted_def)
    ultimately show ?thesis using Cons key by (simp add: n p quoted_def of_char_of)
  qed
qed simp

lemma dq_neq: "dq \<noteq> CHR '']''" "dq \<noteq> CHR ''}''"
  by code_simp+

lemma print_head: "\<exists>c s. js_print v = c # s \<and> c \<noteq> CHR '']''"
proof (cases v)
  case (JInt i)
  obtain d ds where "decimal (nat i) = d # ds" "is_digit d" using decimal_head by blast
  then show ?thesis by (auto simp: JInt signed_decimal_def is_digit_def)
qed (simp_all add: quoted_def dq_neq)

lemma array_reads_back:
  assumes "\<forall>v \<in> set vs. reads_back v"
  shows "reads_back (JArr vs)"
  unfolding reads_back_def
proof (intro allI impI)
  fix n rest assume len: "length (js_print (JArr vs)) \<le> n"
  obtain m where n: "n = Suc m" using len by (cases n) auto
  show "read_value n (js_print (JArr vs) @ rest) = Some (JArr vs, rest)"
  proof (cases vs)
    case Nil
    then show ?thesis by (simp add: n)
  next
    case (Cons v ws)
    let ?t = "join '','' (map js_print vs) @ CHR '']'' # rest"
    obtain c s where "js_print v = c # s" "c \<noteq> CHR '']''" using print_head by blast
    then obtain u where u: "?t = c # u" "c \<noteq> CHR '']''" using Cons by (auto simp: join_Cons)
    have "read_items m ?t = Some (vs, rest)" using assms Cons len by (intro items_read_back) (simp_all add: n)
    then show ?thesis using u by (simp add: n)
  qed
qed

lemma object_reads_back:
  assumes "\<forall>p \<in> set kvs. reads_back (snd p) \<and> list_all escapable (fst p)"
  shows "reads_back (JObj kvs)"
  unfolding reads_back_def
proof (intro allI impI)
  fix n rest assume len: "length (js_print (JObj kvs)) \<le> n"
  obtain m where n: "n = Suc m" using len by (cases n) auto
  show "read_value n (js_print (JObj kvs) @ rest) = Some (JObj kvs, rest)"
  proof (cases kvs)
    case Nil
    then show ?thesis by (simp add: n)
  next
    case (Cons p ws)
    let ?t = "join '','' (map (\<lambda>(k, v). quoted k @ '':'' @ js_print v) kvs) @ CHR ''}'' # rest"
    obtain u where u: "?t = dq # u" using Cons by (cases p) (auto simp: join_Cons quoted_def)
    have "read_members m ?t = Some (kvs, rest)" using assms Cons len by (intro members_read_back) (simp_all add: n)
    then show ?thesis using u by (simp add: n dq_neq)
  qed
qed

lemma value_reads_back: "escapable_value v \<Longrightarrow> reads_back v"
proof (induction v)
  case (JStr s)
  then show ?case
    unfolding reads_back_def
  proof (intro allI impI)
    fix n rest assume "length (js_print (JStr s)) \<le> n"
    then obtain m where n: "n = Suc m" by (cases n) (auto simp: quoted_def)
    show "read_value n (js_print (JStr s) @ rest) = Some (JStr s, rest)"
      using read_escape [of s rest] JStr by (simp add: n quoted_def of_char_of)
  qed
next
  case (JBool b)
  then show ?case
    unfolding reads_back_def
  proof (intro allI impI)
    fix n rest assume "length (js_print (JBool b)) \<le> n"
    then obtain m where n: "n = Suc m" by (cases n; cases b) auto
    show "read_value n (js_print (JBool b) @ rest) = Some (JBool b, rest)" by (cases b) (simp_all add: n)
  qed
next
  case (JInt i)
  show ?case by (rule int_reads_back)
next
  case (JArr vs)
  then show ?case by (intro array_reads_back) (auto simp: list_all_iff)
next
  case (JObj kvs)
  then show ?case by (intro object_reads_back) (fastforce simp: list_all_iff snds.simps)
qed



section \<open>Errors\<close>

fun shaped :: "js_state list \<Rightarrow> bool" where
  "shaped [Js_none] \<longleftrightarrow> True"
| "shaped (Object_begin # r) \<longleftrightarrow> shaped r \<and> hd r \<in> {Js_none, Object_value, Array_value}"
| "shaped (Object_key # Object_begin # r) \<longleftrightarrow> shaped r \<and> hd r \<in> {Js_none, Object_value, Array_value}"
| "shaped (Object_value # Object_begin # r) \<longleftrightarrow> shaped r \<and> hd r \<in> {Js_none, Object_value, Array_value}"
| "shaped (Array_begin # r) \<longleftrightarrow> shaped r \<and> hd r \<in> {Js_none, Object_value, Array_value}"
| "shaped (Array_value # Array_begin # r) \<longleftrightarrow> shaped r \<and> hd r \<in> {Js_none, Object_value, Array_value}"
| "shaped _ \<longleftrightarrow> False"

lemma shaped_cases [consumes 1]:
  assumes "shaped st"
  obtains "st = [Js_none]"
  | t r where "st = t # Object_begin # r" "t = Object_key \<or> t = Object_value" "shaped (Object_begin # r)"
  | r where "st = Array_value # Array_begin # r" "shaped (Array_begin # r)"
  | t r where "st = t # r" "t = Object_begin \<or> t = Array_begin" "shaped r" "hd r \<in> {Js_none, Object_value, Array_value}"
  using assms by (cases st rule: shaped.cases) auto

text \<open>The states that an operation expects on top, and whether it is refused.\<close>

definition refused :: "js_op \<Rightarrow> js_state \<Rightarrow> js_error option" where
  "refused x t =
     (case x of
        Jsend \<Rightarrow> if t = Js_none \<or> t = Object_key then Some Bad_state else None
      | Chars _ \<Rightarrow> None
      | Jsraw \<Rightarrow> None | Jsnoraw \<Rightarrow> None | Jsescape \<Rightarrow> None | Jsnoescape \<Rightarrow> None
      | _ \<Rightarrow> if t = Object_begin \<or> t = Object_value then Some Invalid_key else None)"

lemma js_put_states:
  "js_states (emit s j) = js_states j" "js_states (js_string s j) = js_states j"
  "js_states (js_open st s j) = st # js_states j"
  by (simp_all add: emit_def js_string_def js_open_def)

lemma js_put_shaped:
  assumes "shaped (js_states j)"
  shows "shaped (js_states (snd (js_put x j)))
       \<and> fst (js_put x j) = (case refused x (hd (js_states j)) of None \<Rightarrow> Inr () | Some e \<Rightarrow> Inl e)"
proof -
  obtain os states esc raw where j: "j = \<lparr>js_os = os, js_states = states, js_escape = esc, js_raw = raw\<rparr>" by (cases j)
  have "shaped states" using assms by (simp add: j)
  then show ?thesis
    by (cases states rule: shaped_cases; cases x)
       (auto simp: j js_transition_def js_end_def js_put_states refused_def emit_def js_string_def js_open_def)
qed

definition js_session :: "js_op list \<Rightarrow> jsonstream \<Rightarrow> jsonstream" where
  "js_session xs j = fold (\<lambda>x j. snd (js_put x j)) xs j"

lemma js_session_shaped: "shaped (js_states j) \<Longrightarrow> shaped (js_states (js_session xs j))"
  by (induction xs arbitrary: j) (auto simp: js_session_def js_put_shaped)

text \<open>
  C37: after any sequence of operations, including ones that threw and were caught, the stack of states
  is well formed and never empty; an operation throws exactly when it ends a container that is not
  open or stands after a key, or when it puts something that is not a string where a key is due.  But an operation refused
  as a key has already written its comma and taken back the state: the object can then be ended,
  and its text has a comma before the brace.
\<close>

theorem jsonstream_errors:
  "shaped (js_states (js_session xs js_new))
   \<and> fst (js_put x (js_session xs js_new))
       = (case refused x (hd (js_states (js_session xs js_new))) of None \<Rightarrow> Inr () | Some e \<Rightarrow> Inl e)
   \<and> js_os (js_session [Jsobject, Chars ''a'', Integral 1, Integral 2, Jsend] js_new) = ''{'' @ [dq] @ ''a'' @ [dq] @ '':1,}''
   \<and> js_states (js_session [Jsobject, Chars ''a'', Integral 1, Integral 2, Jsend] js_new) = [Js_none]"
proof -
  have "shaped (js_states (js_session xs js_new))" by (rule js_session_shaped) (simp add: js_new_def)
  moreover have "decimal 1 = ''1''" by code_simp
  ultimately show ?thesis
    using js_put_shaped [of "js_session xs js_new" x]
    by (simp add: js_session_def js_new_def js_transition_def js_open_def js_string_def js_end_def emit_def signed_decimal_def)
qed

end
