(* ===== verification/Shared_Pool.thy ===== *)
theory Shared_Pool
  imports Rendez
begin

text \<open>
  \<open>shared_pool\<close> and \<open>scoped_resource\<close> of \<open>include/ten/shared_pool.hh\<close>.

  As in the channel, a method is a sequence of sections under the qutex \<open>mut\<close>: \<open>acquire\<close> runs its
  test, and then returns, sleeps, or releases the qutex to create a resource and takes it again
  to put the resource into the set.  The steps of the system below are these sections, in any
  order of the tasks.  A resource is a number, and the creator returns a new one each time or
  throws.
\<close>

section \<open>State and operations\<close>

record pool =
  p_avail :: "nat list"
  p_set :: "nat set"
  p_max :: "nat option"
  p_not_empty :: rendez

definition pool_new :: "nat option \<Rightarrow> pool" where
  "pool_new mx = \<lparr>p_avail = [], p_set = {}, p_max = mx, p_not_empty = rendez_new\<rparr>"

definition pool_size :: "pool \<Rightarrow> nat" where
  "pool_size p = card (p_set p)"

definition has_avail :: "pool \<Rightarrow> bool" where
  "has_avail p \<longleftrightarrow> p_avail p \<noteq> []"

definition pool_clear :: "pool \<Rightarrow> pool" where
  "pool_clear p = p\<lparr>p_avail := [], p_set := {}\<rparr>"

datatype acquired = Acquired nat | Must_create | Must_sleep

text \<open>One round of the loop in \<open>acquire\<close>, up to the place where it releases the qutex.\<close>

definition acquire_try :: "task_id \<Rightarrow> pool \<Rightarrow> acquired \<times> pool" where
  "acquire_try t p =
     (case p_avail p of
        c # cs \<Rightarrow> (Acquired c, p\<lparr>p_avail := cs\<rparr>)
      | [] \<Rightarrow>
          if (case p_max p of None \<Rightarrow> True | Some m \<Rightarrow> pool_size p < m) then (Must_create, p)
          else (Must_sleep, p\<lparr>p_not_empty := rendez_sleep t (p_not_empty p)\<rparr>))"

text \<open>The end of \<open>new_with_lock\<close>.\<close>

definition pool_insert :: "nat \<Rightarrow> pool \<Rightarrow> pool" where
  "pool_insert c p = p\<lparr>p_set := insert c (p_set p)\<rparr>"

definition pool_discard :: "nat \<Rightarrow> bool \<Rightarrow> pool \<Rightarrow> pool" where
  "pool_discard c can_keep p =
     (let p1 = (if \<not> can_keep then p\<lparr>p_set := p_set p - {c}\<rparr> else p);
          keep = (can_keep \<and> c \<in> p_set p);
          avail = remove1 c (p_avail p1)
      in p1\<lparr>p_avail := (if keep then c # avail else avail),
            p_not_empty := snd (rendez_wakeup (p_not_empty p1))\<rparr>)"

section \<open>The tasks\<close>

text \<open>
  Where a task is: outside, in the creator, asleep in \<open>acquire\<close>, or with a \<open>scoped_resource\<close>, with
  the flag that \<open>done\<close> sets.
\<close>

datatype place = Outside | Creating | Sleeping | Holding nat bool

record pool_sys =
  ps_pool :: pool
  ps_at :: "task_id \<Rightarrow> place"
  ps_next :: nat

datatype pool_step =
    Acquire task_id | Created task_id | Create_throws task_id | Resume task_id | Interrupt task_id
  | Done task_id | Leave task_id | Clear_pool

definition after_try :: "task_id \<Rightarrow> pool_sys \<Rightarrow> pool_sys" where
  "after_try t s =
     (let (r, p) = acquire_try t (ps_pool s)
      in s\<lparr>ps_pool := p,
           ps_at := (ps_at s)(t := (case r of Acquired c \<Rightarrow> Holding c False | Must_create \<Rightarrow> Creating | Must_sleep \<Rightarrow> Sleeping))\<rparr>)"

fun pool_next :: "pool_step \<Rightarrow> pool_sys \<Rightarrow> pool_sys" where
  "pool_next (Acquire t) s = (if ps_at s t = Outside then after_try t s else s)"
| "pool_next (Created t) s =
     (if ps_at s t = Creating
      then s\<lparr>ps_pool := pool_insert (ps_next s) (ps_pool s), ps_at := (ps_at s)(t := Holding (ps_next s) False),
             ps_next := Suc (ps_next s)\<rparr>
      else s)"
| "pool_next (Create_throws t) s = (if ps_at s t = Creating then s\<lparr>ps_at := (ps_at s)(t := Outside)\<rparr> else s)"
| "pool_next (Resume t) s =
     (if ps_at s t = Sleeping \<and> t \<notin> set (rz_waiting (p_not_empty (ps_pool s))) then after_try t s else s)"
| "pool_next (Interrupt t) s =
     (if ps_at s t = Sleeping
      then s\<lparr>ps_pool := (ps_pool s)\<lparr>p_not_empty := snd (rendez_interrupted t (p_not_empty (ps_pool s)))\<rparr>,
             ps_at := (ps_at s)(t := Outside)\<rparr>
      else s)"
| "pool_next (Done t) s =
     (case ps_at s t of Holding c _ \<Rightarrow> s\<lparr>ps_at := (ps_at s)(t := Holding c True)\<rparr> | _ \<Rightarrow> s)"
| "pool_next (Leave t) s =
     (case ps_at s t of
        Holding c ok \<Rightarrow> s\<lparr>ps_pool := pool_discard c ok (ps_pool s), ps_at := (ps_at s)(t := Outside)\<rparr>
      | _ \<Rightarrow> s)"
| "pool_next Clear_pool s = s\<lparr>ps_pool := pool_clear (ps_pool s)\<rparr>"

definition pool_start :: "nat option \<Rightarrow> pool_sys" where
  "pool_start mx = \<lparr>ps_pool = pool_new mx, ps_at = (\<lambda>_. Outside), ps_next = 0\<rparr>"

definition pool_run :: "pool_step list \<Rightarrow> pool_sys \<Rightarrow> pool_sys" where
  "pool_run xs s = fold pool_next xs s"

section \<open>Invariant\<close>

fun held :: "place \<Rightarrow> nat option" where
  "held (Holding c _) = Some c"
| "held _ = None"

definition pool_ok :: "pool_sys \<Rightarrow> bool" where
  "pool_ok s \<longleftrightarrow>
     distinct (p_avail (ps_pool s)) \<and> set (p_avail (ps_pool s)) \<subseteq> p_set (ps_pool s)
   \<and> finite (p_set (ps_pool s)) \<and> (\<forall>c \<in> p_set (ps_pool s). c < ps_next s)
   \<and> (\<forall>t c. held (ps_at s t) = Some c \<longrightarrow> c < ps_next s \<and> c \<notin> set (p_avail (ps_pool s)))
   \<and> (\<forall>t u c. held (ps_at s t) = Some c \<longrightarrow> held (ps_at s u) = Some c \<longrightarrow> t = u)"

lemma pool_okD:
  assumes "pool_ok s"
  shows "distinct (p_avail (ps_pool s))" and "set (p_avail (ps_pool s)) \<subseteq> p_set (ps_pool s)"
    and "finite (p_set (ps_pool s))" and "\<And>c. c \<in> p_set (ps_pool s) \<Longrightarrow> c < ps_next s"
    and "\<And>t c. held (ps_at s t) = Some c \<Longrightarrow> c < ps_next s \<and> c \<notin> set (p_avail (ps_pool s))"
    and "\<And>t u c. held (ps_at s t) = Some c \<Longrightarrow> held (ps_at s u) = Some c \<Longrightarrow> t = u"
  using assms by (auto simp: pool_ok_def)

lemma pool_start_ok: "pool_ok (pool_start mx)"
  by (simp add: pool_ok_def pool_start_def pool_new_def)

text \<open>A step that moves a task and gives it nothing.\<close>

lemma pool_move_ok:
  assumes "pool_ok s" and "held x = None \<or> held x = held (ps_at s t)"
    and "p_avail p = p_avail (ps_pool s)" and "p_set p = p_set (ps_pool s)"
  shows "pool_ok (s\<lparr>ps_pool := p, ps_at := (ps_at s)(t := x)\<rparr>)"
proof -
  note P = pool_okD [OF assms(1)]
  have sub: "held (((ps_at s)(t := x)) u) = Some c \<Longrightarrow> held (ps_at s u) = Some c" for u c
    using assms(2) by (auto split: if_splits)
  show ?thesis unfolding pool_ok_def
  proof (intro conjI allI impI ballI)
    fix u v c
    assume "held (ps_at (s\<lparr>ps_pool := p, ps_at := (ps_at s)(t := x)\<rparr>) u) = Some c"
      "held (ps_at (s\<lparr>ps_pool := p, ps_at := (ps_at s)(t := x)\<rparr>) v) = Some c"
    then have "held (ps_at s u) = Some c" "held (ps_at s v) = Some c" using sub [of u c] sub [of v c] by simp_all
    then show "u = v" by (rule P(6))
  next
    fix u c
    assume "held (ps_at (s\<lparr>ps_pool := p, ps_at := (ps_at s)(t := x)\<rparr>) u) = Some c"
    then have "held (((ps_at s)(t := x)) u) = Some c" by simp
    note P(5) [OF sub [OF this]]
    then show "c < ps_next (s\<lparr>ps_pool := p, ps_at := (ps_at s)(t := x)\<rparr>)"
      "c \<notin> set (p_avail (ps_pool (s\<lparr>ps_pool := p, ps_at := (ps_at s)(t := x)\<rparr>)))" using assms(3) by simp_all
  qed (use P(1-4) assms(3,4) in simp_all)
qed

text \<open>A step that gives a task a resource nobody holds.\<close>

lemma pool_give_ok:
  assumes "pool_ok s" and free: "\<And>u. held (ps_at s u) \<noteq> Some c"
    and "distinct (p_avail p)" and "set (p_avail p) \<subseteq> p_set p" and "finite (p_set p)" and "\<And>x. x \<in> p_set p \<Longrightarrow> x < n"
    and "set (p_avail p) \<subseteq> set (p_avail (ps_pool s))" and "c \<notin> set (p_avail p)" and "c < n" and "ps_next s \<le> n"
  shows "pool_ok (s\<lparr>ps_pool := p, ps_at := (ps_at s)(t := Holding c b), ps_next := n\<rparr>)"
proof -
  note P = pool_okD [OF assms(1)]
  have old: "x < n \<and> x \<notin> set (p_avail p)" if "held (ps_at s u) = Some x" for u x
    using P(5) [OF that] assms(7,10) by auto
  show ?thesis unfolding pool_ok_def
  proof (intro conjI allI impI ballI)
    fix u v x
    assume "held (ps_at (s\<lparr>ps_pool := p, ps_at := (ps_at s)(t := Holding c b), ps_next := n\<rparr>) u) = Some x"
      "held (ps_at (s\<lparr>ps_pool := p, ps_at := (ps_at s)(t := Holding c b), ps_next := n\<rparr>) v) = Some x"
    then show "u = v" using free P(6) [of u x v] by (cases "u = t"; cases "v = t") auto
  next
    fix u x
    assume u: "held (ps_at (s\<lparr>ps_pool := p, ps_at := (ps_at s)(t := Holding c b), ps_next := n\<rparr>) u) = Some x"
    show "x < ps_next (s\<lparr>ps_pool := p, ps_at := (ps_at s)(t := Holding c b), ps_next := n\<rparr>)"
      using u old [of u x] assms(9) by (cases "u = t") auto
    show "x \<notin> set (p_avail (ps_pool (s\<lparr>ps_pool := p, ps_at := (ps_at s)(t := Holding c b), ps_next := n\<rparr>)))"
      using u old [of u x] assms(8) by (cases "u = t") auto
  qed (use assms(3-6) in auto)
qed

lemma after_try_ok:
  assumes "pool_ok s"
  shows "pool_ok (after_try t s)"
proof (cases "p_avail (ps_pool s)")
  case Nil
  then show ?thesis using assms pool_move_ok [OF assms, of Creating t "ps_pool s"]
    by (auto simp: after_try_def acquire_try_def Let_def intro!: pool_move_ok split: option.split)
next
  case (Cons c cs)
  note P = pool_okD [OF assms]
  have "held (ps_at s u) \<noteq> Some c" for u using P(5) [of u c] Cons by auto
  then have "pool_ok (s\<lparr>ps_pool := (ps_pool s)\<lparr>p_avail := cs\<rparr>, ps_at := (ps_at s)(t := Holding c False), ps_next := ps_next s\<rparr>)"
    using P(1-4) Cons by (intro pool_give_ok [OF assms]) auto
  then show ?thesis using Cons by (simp add: after_try_def acquire_try_def)
qed

lemma created_ok:
  assumes "pool_ok s"
  shows "pool_ok (s\<lparr>ps_pool := pool_insert (ps_next s) (ps_pool s), ps_at := (ps_at s)(t := Holding (ps_next s) False),
             ps_next := Suc (ps_next s)\<rparr>)"
proof -
  note P = pool_okD [OF assms]
  have "held (ps_at s u) \<noteq> Some (ps_next s)" for u using P(5) [of u "ps_next s"] by auto
  moreover have "ps_next s \<notin> set (p_avail (ps_pool s))" using P(2,4) by blast
  moreover have "x < Suc (ps_next s)" if "x \<in> p_set (ps_pool s)" for x using P(4) [OF that] by simp
  ultimately show ?thesis using P(1-3)
    by (intro pool_give_ok [OF assms]) (auto simp: pool_insert_def)
qed

lemma leave_ok:
  assumes "pool_ok s" and "ps_at s t = Holding c b"
  shows "pool_ok (s\<lparr>ps_pool := pool_discard c b (ps_pool s), ps_at := (ps_at s)(t := Outside)\<rparr>)"
proof -
  note P = pool_okD [OF assms(1)]
  have c: "c \<notin> set (p_avail (ps_pool s))" "c < ps_next s" using P(5) [of t c] assms(2) by auto
  have others: "held (((ps_at s)(t := Outside)) u) = Some x \<Longrightarrow> held (ps_at s u) = Some x \<and> x \<noteq> c" for u x
    using P(6) [of t c u] assms(2) by (cases "u = t") auto
  show ?thesis unfolding pool_ok_def
  proof (intro conjI allI impI ballI)
    fix u v x
    assume "held (ps_at (s\<lparr>ps_pool := pool_discard c b (ps_pool s), ps_at := (ps_at s)(t := Outside)\<rparr>) u) = Some x"
      "held (ps_at (s\<lparr>ps_pool := pool_discard c b (ps_pool s), ps_at := (ps_at s)(t := Outside)\<rparr>) v) = Some x"
    then have "held (ps_at s u) = Some x" "held (ps_at s v) = Some x" using others [of u x] others [of v x] by simp_all
    then show "u = v" by (rule P(6))
  next
    fix u x
    assume "held (ps_at (s\<lparr>ps_pool := pool_discard c b (ps_pool s), ps_at := (ps_at s)(t := Outside)\<rparr>) u) = Some x"
    then have "held (((ps_at s)(t := Outside)) u) = Some x" by simp
    note x = others [OF this]
    show "x < ps_next (s\<lparr>ps_pool := pool_discard c b (ps_pool s), ps_at := (ps_at s)(t := Outside)\<rparr>)"
      "x \<notin> set (p_avail (ps_pool (s\<lparr>ps_pool := pool_discard c b (ps_pool s), ps_at := (ps_at s)(t := Outside)\<rparr>)))"
      using x P(5) [of u x] by (auto simp: pool_discard_def Let_def remove1_idem c)
  qed (use P(1-4) c in \<open>auto simp: pool_discard_def Let_def remove1_idem split: if_splits\<close>)
qed

lemma pool_next_ok: "pool_ok s \<Longrightarrow> pool_ok (pool_next x s)"
proof (cases x)
  case (Leave t)
  assume "pool_ok s"
  then show ?thesis using Leave by (cases "ps_at s t") (auto intro: leave_ok)
next
  case (Done t)
  assume "pool_ok s"
  then show ?thesis using Done pool_move_ok [of s _ t "ps_pool s"] by (cases "ps_at s t") auto
next
  case (Create_throws t)
  assume "pool_ok s"
  then show ?thesis using Create_throws pool_move_ok [of s Outside t "ps_pool s"] by simp
next
  case (Interrupt t)
  assume "pool_ok s"
  then show ?thesis using Interrupt by (auto intro: pool_move_ok)
next
  case Clear_pool
  assume "pool_ok s"
  then show ?thesis using Clear_pool by (simp add: pool_ok_def pool_clear_def)
qed (auto simp: after_try_ok created_ok)

lemma pool_run_ok: "pool_ok s \<Longrightarrow> pool_ok (pool_run xs s)"
  by (induction xs arbitrary: s) (simp_all add: pool_run_def pool_next_ok)

section \<open>Properties\<close>

text \<open>
  C16: a resource belongs to one task at a time.  After any interleaving of acquisitions, creations that
  succeed or throw, wake-ups, interruptions, releases, destructions and clearing of the pool, no
  two tasks hold the same resource, a held resource is never on offer to another task, no resource is on
  offer twice, and what is on offer is in the pool's set.
\<close>

theorem pool_exclusive:
  "let s = pool_run xs (pool_start mx) in
     (\<forall>t u c b b'. ps_at s t = Holding c b \<and> ps_at s u = Holding c b' \<longrightarrow> t = u)
   \<and> (\<forall>t c b. ps_at s t = Holding c b \<longrightarrow> c \<notin> set (p_avail (ps_pool s)))
   \<and> distinct (p_avail (ps_pool s)) \<and> set (p_avail (ps_pool s)) \<subseteq> p_set (ps_pool s)"
proof -
  define s where "s = pool_run xs (pool_start mx)"
  note P = pool_okD [OF pool_run_ok [OF pool_start_ok, of xs mx], folded s_def]
  have "t = u" if "ps_at s t = Holding c b" "ps_at s u = Holding c b'" for t u c b b'
    using P(6) [of t c u] that by simp
  moreover have "c \<notin> set (p_avail (ps_pool s))" if "ps_at s t = Holding c b" for t c b
    using P(5) [of t c] that by simp
  ultimately show ?thesis using P(1,2) unfolding Let_def s_def [symmetric] by blast
qed

theorem pool_exclusive_witness:
  "let s = pool_run [Acquire 0, Created 0, Acquire 1, Done 0, Leave 0, Resume 1] (pool_start (Some 1)) in
     ps_at s 1 = Holding 0 False \<and> ps_at s 0 = Outside \<and> 0 \<notin> set (p_avail (ps_pool s))"
proof -
  define s where "s = pool_run [Acquire 0, Created 0, Acquire 1, Done 0, Leave 0, Resume 1] (pool_start (Some 1))"
  have "ps_at s 1 = Holding 0 False" "ps_at s 0 = Outside"
    by (simp_all add: s_def pool_run_def pool_start_def pool_new_def after_try_def acquire_try_def pool_size_def
        pool_insert_def pool_discard_def rendez_new_def rendez_sleep_def rendez_wakeup_def)
  moreover have "0 \<notin> set (p_avail (ps_pool s))"
    using pool_exclusive [of "[Acquire 0, Created 0, Acquire 1, Done 0, Leave 0, Resume 1]" "Some 1"]
      \<open>ps_at s 1 = Holding 0 False\<close> unfolding Let_def s_def [symmetric] by blast
  ultimately show ?thesis by (simp add: s_def Let_def)
qed

lemma all_acquire:
  assumes "p_avail (ps_pool s) = []" and "p_max (ps_pool s) = Some m" and "pool_size (ps_pool s) < m"
    and "distinct ts" and "\<forall>t \<in> set ts. ps_at s t = Outside"
  shows "pool_run (map Acquire ts) s = s\<lparr>ps_at := (\<lambda>t. if t \<in> set ts then Creating else ps_at s t)\<rparr>"
  using assms
proof (induction ts arbitrary: s)
  case (Cons t ts)
  have "pool_next (Acquire t) s = s\<lparr>ps_at := (ps_at s)(t := Creating)\<rparr>"
    using Cons.prems by (simp add: after_try_def acquire_try_def)
  moreover have "pool_run (map Acquire ts) (s\<lparr>ps_at := (ps_at s)(t := Creating)\<rparr>)
      = s\<lparr>ps_at := (\<lambda>u. if u \<in> set ts then Creating else ((ps_at s)(t := Creating)) u)\<rparr>"
    using Cons.prems by (subst Cons.IH) (auto cong: if_cong)
  moreover have "(\<lambda>u. if u \<in> set ts then Creating else ((ps_at s)(t := Creating)) u)
      = (\<lambda>u. if u \<in> set (t # ts) then Creating else ps_at s u)" by auto
  ultimately show ?case by (simp add: pool_run_def)
qed (simp add: pool_run_def)

lemma all_created:
  assumes "distinct ts" and "\<forall>t \<in> set ts. ps_at s t = Creating" and "\<forall>c \<in> p_set (ps_pool s). c < ps_next s"
    and "finite (p_set (ps_pool s))"
  shows "pool_size (ps_pool (pool_run (map Created ts) s)) = pool_size (ps_pool s) + length ts"
  using assms
proof (induction ts arbitrary: s)
  case (Cons t ts)
  define s1 where "s1 = pool_next (Created t) s"
  have "pool_size (ps_pool s1) = Suc (pool_size (ps_pool s))"
    using Cons.prems by (auto simp: s1_def pool_size_def pool_insert_def)
  moreover have "pool_size (ps_pool (pool_run (map Created ts) s1)) = pool_size (ps_pool s1) + length ts"
    using Cons.prems by (intro Cons.IH) (auto simp: s1_def pool_insert_def less_SucI)
  ultimately show ?case by (simp add: pool_run_def s1_def)
qed (simp add: pool_run_def)


end
