(* ===== verification/Http_Bytes.thy ===== *)
theory Http_Bytes
  imports Http_Message
begin

text \<open>
  The parser of \<open>src/http_parser.c\<close> with the callbacks of \<open>http_request\<close>, one byte at a time, on the
  parts of a well-formed request: the method, the URL, the version, a header's name and its value.  By the
  independence of buffers it is enough to follow single bytes, where no name, value or URL is ever more than one
  byte from its mark.
\<close>

section \<open>One byte at a time\<close>

text \<open>The parser and the message after some bytes, if the parser wants to go on.\<close>

fun eat :: "string \<Rightarrow> http_parser \<times> http_request \<Rightarrow> (http_parser \<times> http_request) option" where
  "eat [] s = Some s"
| "eat (c # w) (P, m) =
     (case http_parser_execute False request_settings P (m, False) [c] of
        Some (n, P', m', False) \<Rightarrow> if n = 1 \<and> p_errno P' = HPE_OK \<and> \<not> p_upgrade P' then eat w (P', m') else None
      | _ \<Rightarrow> None)"

lemma eat_append: "eat (v @ w) s = Option.bind (eat v s) (eat w)"
  by (induction v s rule: eat.induct) (auto split: option.split prod.split bool.split)

lemma eat_feed:
  assumes "eat w (P, m) = Some (P', m')"
  shows "feed_all False request_settings (map (\<lambda>c. [c]) w @ ds) P (m, False) =
    map_option (\<lambda>(k, r). (length w + k, r)) (feed_all False request_settings ds P' (m', False))"
  using assms
proof (induction w arbitrary: P m)
  case Nil
  then show ?case by (simp add: option.map_ident split_def)
next
  case (Cons c w)
  obtain P1 m1 where one: "http_parser_execute False request_settings P (m, False) [c] = Some (1, P1, m1, False)"
    "p_errno P1 = HPE_OK" "\<not> p_upgrade P1" "eat w (P1, m1) = Some (P', m')"
    using Cons.prems by (auto split: option.splits prod.splits bool.splits if_splits)
  show ?case using Cons.IH [OF one(4)] one(1-3) by (simp add: option.map_comp comp_def split_def)
qed

definition put :: "data_kind \<Rightarrow> string \<Rightarrow> http_request \<Rightarrow> http_request" where
  "put k d m = fst (request_put k d (m, False))"

text \<open>The counted parser that meets the next byte.\<close>

definition count :: "http_parser \<Rightarrow> http_parser" where
  "count P = P\<lparr>p_nread := Suc (p_nread P)\<rparr>"

definition heading :: "http_parser \<Rightarrow> bool" where
  "heading P \<longleftrightarrow> p_errno P = HPE_OK \<and> \<not> p_upgrade P \<and> parsing_header (p_state P)"

lemmas byte_defs = heading_def count_def http_parser_execute_def exec_loop.simps iterate_def run_byte.simps leave_def
  apply_step_def set_mark_def perform_def Let_def finish_def call_data_def call_notify_def request_settings_def
  after_callback_def slice_def put_def marking_def

lemma byte_plain:
  assumes "heading P" and "p_nread P < HTTP_MAX_HEADER_SIZE" and "initial_marks (p_state P) = (\<lambda>_. None)"
    and "on_byte False 1 (count P) c = brk Q" and "p_errno Q = HPE_OK" and "\<not> p_upgrade Q"
  shows "eat [c] (P, m) = Some (Q, m)"
  using assms
  by (simp add: byte_defs)

lemma byte_inside:
  assumes "heading P" and "p_nread P < HTTP_MAX_HEADER_SIZE" and "initial_marks (p_state P) = (\<lambda>_. None)(k := Some 0)" and "snd (request_put k [c] (m, False)) = False"
    and "on_byte False 1 (count P) c = brk Q" and "p_errno Q = HPE_OK" and "\<not> p_upgrade Q"
  shows "eat [c] (P, m) = Some (Q, put k [c] m)"
  using assms
  by (cases k; cases "request_put k [c] (m, False)")
     (simp_all add: byte_defs)

lemma byte_first:
  assumes "heading P" and "p_nread P < HTTP_MAX_HEADER_SIZE" and "initial_marks (p_state P) = (\<lambda>_. None)" and "snd (request_put k [c] (m, False)) = False"
    and "on_byte False 1 (count P) c = marking k (brk Q)" and "p_errno Q = HPE_OK" and "\<not> p_upgrade Q"
  shows "eat [c] (P, m) = Some (Q, put k [c] m)"
  using assms
  by (cases k; cases "request_put k [c] (m, False)")
     (simp_all add: byte_defs)

lemma byte_last:
  assumes "heading P" and "p_nread P < HTTP_MAX_HEADER_SIZE" and "initial_marks (p_state P) = (\<lambda>_. None)(k := Some 0)" and "snd (request_put k [] (m, False)) = False"
    and "on_byte False 1 (count P) c = leave Q (Data k) Break" and "p_errno Q = HPE_OK" and "\<not> p_upgrade Q"
  shows "eat [c] (P, m) = Some (Q, put k [] m)"
  using assms
  by (cases k; cases "request_put k [] (m, False)")
     (simp_all add: byte_defs)

lemma byte_empty:
  assumes "heading P" and "p_nread P < HTTP_MAX_HEADER_SIZE" and "initial_marks (p_state P) = (\<lambda>_. None)" and "snd (request_put k [] (m, False)) = False"
    and "on_byte False 1 (count P) c = marking k (leave Q (Data k) Break)" and "p_errno Q = HPE_OK" and "\<not> p_upgrade Q"
  shows "eat [c] (P, m) = Some (Q, put k [] m)"
  using assms
  by (cases k; cases "request_put k [] (m, False)")
     (simp_all add: byte_defs)

lemma byte_begin:
  assumes "heading P" and "p_nread P < HTTP_MAX_HEADER_SIZE" and "initial_marks (p_state P) = (\<lambda>_. None)"
    and "on_byte False 1 (count P) c = leave Q (Notify N_message_begin) Break" and "p_errno Q = HPE_OK" and "\<not> p_upgrade Q"
  shows "eat [c] (P, m) = Some (Q, m)"
  using assms by (simp add: byte_defs)

lemma eat_Cons: "eat (c # w) s = Option.bind (eat [c] s) (eat w)"
  using eat_append [of "[c]" w s] by simp

lemma eat_step: "eat v s = Some s' \<Longrightarrow> eat (v @ w) s = eat w s'"
  by (simp add: eat_append)

declare eat.simps(2) [simp del]

lemma count_simps [simp]:
  "p_state (count P) = p_state P" "p_errno (count P) = p_errno P" "p_upgrade (count P) = p_upgrade P"
  "p_method (count P) = p_method P" "p_index (count P) = p_index P" "p_flags (count P) = p_flags P"
  "p_header_state (count P) = p_header_state P" "p_content_length (count P) = p_content_length P"
  "p_type (count P) = p_type P" "p_nread (count P) = Suc (p_nread P)"
  "p_http_major (count P) = p_http_major P" "p_http_minor (count P) = p_http_minor P"
  by (simp_all add: count_def)

lemma no_marks: "s \<notin> insert s_header_field (insert s_header_value url_states) \<Longrightarrow> initial_marks s = (\<lambda>_. None)"
  by (auto simp: initial_marks_def fun_eq_iff)

lemma url_marks: "s \<in> url_states \<Longrightarrow> initial_marks s = (\<lambda>_. None)(K_url := Some 0)"
  by (auto simp: initial_marks_def fun_eq_iff url_states_def)

section \<open>The method\<close>

definition method_step :: "http_method \<Rightarrow> nat \<Rightarrow> char \<Rightarrow> http_method option" where
  "method_step M i ch = (if ch = c_at (method_string M) i then Some M else other_method M i ch)"

fun method_run :: "string \<Rightarrow> http_method \<Rightarrow> nat \<Rightarrow> http_method option" where
  "method_run [] M i = Some M"
| "method_run (c # w) M i =
     (if c = NUL \<or> c = CHR '' '' then None
      else case method_step M i c of None \<Rightarrow> None | Some M' \<Rightarrow> method_run w M' (Suc i))"

lemma eat_method_run:
  assumes "heading P" and "p_state P = s_req_method" and "p_nread P + length w \<le> HTTP_MAX_HEADER_SIZE"
    and "method_run w (p_method P) (p_index P) = Some M"
  shows "eat w (P, m) = Some (P\<lparr>p_method := M, p_index := p_index P + length w, p_nread := p_nread P + length w\<rparr>, m)"
  using assms
proof (induction w arbitrary: P)
  case (Cons c w)
  obtain M1 where c: "c \<noteq> NUL" "c \<noteq> CHR '' ''" "method_step (p_method P) (p_index P) c = Some M1"
    and w: "method_run w M1 (Suc (p_index P)) = Some M"
    using Cons.prems(4) by (auto split: if_splits option.splits)
  define Q where "Q = (count P)\<lparr>p_method := M1, p_index := Suc (p_index P)\<rparr>"
  have "on_byte False 1 (count P) c = brk Q"
    using c Cons.prems(2) by (auto simp: on_byte_def on_req_method_def Let_def method_step_def Q_def count_def split: if_splits)
  then have one: "eat [c] (P, m) = Some (Q, m)"
    using Cons.prems(1-3) by (intro byte_plain) (simp_all add: no_marks url_states_def heading_def Q_def)
  have "eat w (Q, m) = Some (Q\<lparr>p_method := M, p_index := p_index Q + length w, p_nread := p_nread Q + length w\<rparr>, m)"
    by (rule Cons.IH) (use Cons.prems(1-3) w in \<open>simp_all add: Q_def heading_def\<close>)
  then show ?case by (subst eat_Cons) (simp add: one Q_def count_def)
qed simp

lemma method_runs:
  "\<exists>F w. method_string M = hd (method_string M) # w \<and> first_method (hd (method_string M)) = Some F
     \<and> is_alpha (hd (method_string M)) \<and> method_run w F 1 = Some M \<and> length w < 11"
  by (cases M) (simp_all add: first_method_def is_alpha_def method_step_def c_at_def other_method_def)

definition fresh_parser :: http_parser where
  "fresh_parser = (http_parser_init HTTP_REQUEST)\<lparr>p_content_length := ULLONG_MAX\<rparr>"

lemma fresh_simps [simp]:
  "p_errno fresh_parser = HPE_OK" "\<not> p_upgrade fresh_parser" "p_flags fresh_parser = {}" "p_type fresh_parser = HTTP_REQUEST"
  "p_content_length fresh_parser = ULLONG_MAX"
  by (simp_all add: fresh_parser_def http_parser_init_def)

lemma eat_method:
  "\<exists>i. eat (method_string M @ '' '') (http_parser_init HTTP_REQUEST, m) =
     Some (fresh_parser\<lparr>p_method := M, p_index := i, p_nread := Suc (length (method_string M)), p_state := s_req_spaces_before_url\<rparr>, m)"
proof -
  let ?I = "http_parser_init HTTP_REQUEST"
  obtain c F w where w: "method_string M = c # w" "first_method c = Some F" "is_alpha c" "method_run w F 1 = Some M" "length w < 11"
    using method_runs [of M] by (metis list.sel(1))
  have c: "c \<noteq> CR" "c \<noteq> LF" using w(2) by (auto simp: first_method_def split: if_splits)
  define Q where "Q = fresh_parser\<lparr>p_method := F, p_index := 1, p_nread := 1, p_state := s_req_method\<rparr>"
  have "on_byte False 1 (count ?I) c = leave Q (Notify N_message_begin) Break"
    using w(2,3) c by (simp add: http_parser_init_def on_byte_def on_start_req_def Let_def Q_def count_def fresh_parser_def)
  then have one: "eat [c] (?I, m) = Some (Q, m)"
    by (intro byte_begin)
       (simp_all add: heading_def http_parser_init_def parsing_header_def HTTP_MAX_HEADER_SIZE_def no_marks url_states_def Q_def)
  define R where "R = Q\<lparr>p_method := M, p_index := 1 + length w, p_nread := 1 + length w\<rparr>"
  have two: "eat w (Q, m) = Some (R, m)"
    using eat_method_run [of Q w M m] w(4,5)
    by (simp add: Q_def R_def heading_def parsing_header_def HTTP_MAX_HEADER_SIZE_def)
  have "c_at (method_string M) (length (method_string M)) = NUL" by (simp add: c_at_def)
  then have "on_byte False 1 (count R) (CHR '' '') = brk ((count R)\<lparr>p_state := s_req_spaces_before_url, p_index := 2 + length w\<rparr>)"
    by (simp add: on_byte_def on_req_method_def R_def Q_def w(1) Let_def)
  then have "eat '' '' (R, m) = Some ((count R)\<lparr>p_state := s_req_spaces_before_url, p_index := 2 + length w\<rparr>, m)"
    using w(5) by (intro byte_plain)
       (simp_all add: heading_def parsing_header_def HTTP_MAX_HEADER_SIZE_def no_marks url_states_def Q_def R_def)
  then show ?thesis
    unfolding w(1) append_Cons
    by (intro exI [of _ "2 + length w"], subst eat_Cons) (simp add: one eat_append two, simp add: R_def Q_def count_def)
qed

section \<open>The URL and the version\<close>

text \<open>The URLs the request line admits: those its automaton accepts.\<close>

definition url_accepted :: "string \<Rightarrow> bool" where
  "url_accepted u \<longleftrightarrow> foldl (parse_url_char False) s_req_spaces_before_url u \<in>
     {s_req_server, s_req_server_with_at, s_req_path, s_req_query_string_start, s_req_query_string,
      s_req_fragment_start, s_req_fragment}"

lemma url_dead: "foldl (parse_url_char False) s_dead u = s_dead"
  by (induction u) (simp_all add: parse_url_char_def)

lemma url_char_ends: "parse_url_char False s c \<noteq> s_dead \<Longrightarrow> c \<noteq> CHR '' '' \<and> c \<noteq> CR \<and> c \<noteq> LF"
  by (auto simp: parse_url_char_def)

lemma url_byte:
  assumes "p_state P \<in> url_states" and "parse_url_char False (p_state P) c \<noteq> s_dead"
  shows "on_byte False 1 P c = brk (P\<lparr>p_state := parse_url_char False (p_state P) c\<rparr>)"
  using assms url_char_ends [OF assms(2)]
  by (auto simp: url_states_def on_byte_def on_url_no_space_def on_url_def url_next_def Let_def)

lemma put_url: "put K_url d m = m\<lparr>uri := uri m @ d\<rparr>" "snd (request_put K_url d (m, False)) = False"
  by (simp_all add: put_def request_put_def)

lemma url_state_heading: "s \<in> url_states \<Longrightarrow> parsing_header s"
  by (auto simp: url_states_def parsing_header_def)

lemma eat_url_run:
  assumes "heading P" and "p_state P \<in> url_states" and "p_nread P + length u \<le> HTTP_MAX_HEADER_SIZE"
    and "foldl (parse_url_char False) (p_state P) u \<noteq> s_dead"
  shows "eat u (P, m) = Some (P\<lparr>p_nread := p_nread P + length u, p_state := foldl (parse_url_char False) (p_state P) u\<rparr>,
    m\<lparr>uri := uri m @ u\<rparr>)"
  using assms
proof (induction u arbitrary: P m)
  case (Cons c u)
  let ?s = "parse_url_char False (p_state P) c"
  have s: "?s \<noteq> s_dead" using Cons.prems(4) url_dead by auto
  then have us: "?s \<in> url_states" by (rule parse_url_char_range)
  define Q where "Q = (count P)\<lparr>p_state := ?s\<rparr>"
  have "on_byte False 1 (count P) c = brk Q" unfolding Q_def using url_byte [of "count P" c] s Cons.prems(2) by simp
  then have one: "eat [c] (P, m) = Some (Q, put K_url [c] m)"
    using Cons.prems(1-3) by (intro byte_inside) (simp_all add: url_marks put_url heading_def Q_def)
  have "eat u (Q, put K_url [c] m) = Some (Q\<lparr>p_nread := p_nread Q + length u,
      p_state := foldl (parse_url_char False) (p_state Q) u\<rparr>, (put K_url [c] m)\<lparr>uri := uri (put K_url [c] m) @ u\<rparr>)"
    by (rule Cons.IH) (use Cons.prems us in \<open>simp_all add: Q_def heading_def url_state_heading\<close>)
  then show ?case by (subst eat_Cons) (simp add: one Q_def count_def put_url)
qed simp

lemma eat_url:
  assumes "heading P" and "p_state P = s_req_spaces_before_url" and "p_method P \<noteq> HTTP_CONNECT" and "url_accepted u"
    and "p_nread P + length u < HTTP_MAX_HEADER_SIZE"
  shows "eat (u @ '' '') (P, m) = Some (P\<lparr>p_nread := p_nread P + length u + 1, p_state := s_req_http_start\<rparr>, m\<lparr>uri := uri m @ u\<rparr>)"
proof -
  obtain c w where u: "u = c # w" using assms(4) by (cases u) (auto simp: url_accepted_def)
  let ?s = "parse_url_char False s_req_spaces_before_url c" and ?t = "foldl (parse_url_char False) s_req_spaces_before_url u"
  have t: "?t \<noteq> s_dead" "?t \<in> url_states" using assms(4) by (auto simp: url_accepted_def url_states_def)
  have s: "?s \<noteq> s_dead" using t(1) url_dead u by auto
  then have us: "?s \<in> url_states" by (rule parse_url_char_range)
  define Q where "Q = (count P)\<lparr>p_state := ?s\<rparr>"
  have "on_byte False 1 (count P) c = marking K_url (brk Q)"
    using assms(2,3) s url_char_ends [OF s] by (simp add: on_byte_def on_spaces_before_url_def url_next_def Let_def Q_def)
  then have one: "eat [c] (P, m) = Some (Q, m\<lparr>uri := uri m @ [c]\<rparr>)"
    unfolding put_url(1) [symmetric] using assms(1,2,5)
    by (intro byte_first) (simp_all add: no_marks url_states_def put_url heading_def Q_def)
  define R where "R = Q\<lparr>p_nread := p_nread Q + length w, p_state := ?t\<rparr>"
  have two: "eat w (Q, m\<lparr>uri := uri m @ [c]\<rparr>) = Some (R, m\<lparr>uri := uri m @ u\<rparr>)"
    using eat_url_run [of Q w "m\<lparr>uri := uri m @ [c]\<rparr>"] assms(1,5) us t(1)
    by (simp add: Q_def R_def u heading_def url_state_heading)
  have "on_byte False 1 (count R) (CHR '' '') = leave ((count R)\<lparr>p_state := s_req_http_start\<rparr>) (Data K_url) Break"
    using assms(4) unfolding url_accepted_def by (auto simp: R_def on_byte_def on_url_def)
  then have "eat '' '' (R, m\<lparr>uri := uri m @ u\<rparr>) = Some ((count R)\<lparr>p_state := s_req_http_start\<rparr>, put K_url [] (m\<lparr>uri := uri m @ u\<rparr>))"
    using assms(1,5) t(2) by (intro byte_last) (simp_all add: R_def Q_def heading_def url_state_heading url_marks put_url u)
  then show ?thesis
    unfolding u append_Cons by (subst eat_Cons) (simp add: one eat_append two [unfolded u], simp add: R_def Q_def count_def put_url u)
qed

text \<open>The states that compare nothing: a byte leads to the next state.\<close>

lemma goto_byte:
  assumes "heading P" and "p_nread P < HTTP_MAX_HEADER_SIZE"
    and "p_state P \<in> {s_req_http_start, s_req_http_H, s_req_http_HT, s_req_http_HTT, s_req_http_HTTP,
      s_req_first_http_major, s_req_http_major, s_req_first_http_minor, s_req_http_minor, s_req_line_almost_done}"
    and "on_byte False 1 (count P) c = brk Q" and "p_errno Q = HPE_OK" and "\<not> p_upgrade Q"
  shows "eat (c # w) (P, m) = eat w (Q, m)"
proof -
  have "eat [c] (P, m) = Some (Q, m)" using assms by (intro byte_plain) (auto simp: no_marks url_states_def)
  then show ?thesis by (subst eat_Cons) simp
qed

definition minor_of :: "http_version \<Rightarrow> nat" where
  "minor_of v = (if v = http_1_1 then 1 else 0)"

lemma eat_version:
  assumes "heading P" and "p_state P = s_req_http_start" and "p_nread P + 10 \<le> HTTP_MAX_HEADER_SIZE" and "v \<noteq> http_0_9"
  shows "eat (version_string v @ [CR, LF]) (P, m) =
    Some (P\<lparr>p_nread := p_nread P + 10, p_http_major := 1, p_http_minor := minor_of v, p_state := s_header_field_start\<rparr>, m)"
  using assms
  by (cases v)
     (simp_all add: version_string_def goto_byte heading_def on_byte_defs expect_def parsing_header_def count_def
      is_num_def digit_def minor_of_def)

section \<open>Header names\<close>

text \<open>
  The parser matches the names it acts on while it reads them.  What it knows after the lower-case name \<open>w\<close>, and
  index of the last character matched:
\<close>

definition name_known :: "string \<Rightarrow> header_states \<Rightarrow> nat \<Rightarrow> bool" where
  "name_known w h i \<longleftrightarrow>
     (case h of
        h_general \<Rightarrow> True
      | h_C \<Rightarrow> w = ''c'' \<and> i = 0
      | h_CO \<Rightarrow> w = ''co'' \<and> i = 1
      | h_CON \<Rightarrow> w = ''con'' \<and> i = 2
      | h_matching_connection \<Rightarrow> w = take (Suc i) ''connection'' \<and> Suc i < 10
      | h_matching_proxy_connection \<Rightarrow> w = take (Suc i) ''proxy-connection'' \<and> Suc i < 16
      | h_matching_content_length \<Rightarrow> w = take (Suc i) ''content-length'' \<and> Suc i < 14
      | h_matching_transfer_encoding \<Rightarrow> w = take (Suc i) ''transfer-encoding'' \<and> Suc i < 17
      | h_matching_upgrade \<Rightarrow> w = take (Suc i) ''upgrade'' \<and> Suc i < 7
      | h_connection \<Rightarrow> True
      | h_content_length \<Rightarrow> w = ''content-length''
      | h_transfer_encoding \<Rightarrow> w = ''transfer-encoding''
      | h_upgrade \<Rightarrow> w = ''upgrade''
      | _ \<Rightarrow> False)"

lemma take_more: "i < length w \<Longrightarrow> take i w @ [w ! i] = take (Suc i) w"
  by (simp add: take_Suc_conv_app_nth)

definition read_name :: "string \<Rightarrow> http_parser \<Rightarrow> http_parser \<Rightarrow> bool" where
  "read_name w P R \<longleftrightarrow> (\<exists>h i. R = P\<lparr>p_header_state := h, p_index := i\<rparr> \<and> name_known w h i)"

lemma read_nameI: "R = P\<lparr>p_header_state := h, p_index := i\<rparr> \<Longrightarrow> name_known w h i \<Longrightarrow> read_name w P R"
  by (auto simp: read_name_def)

lemma read_name_upd: "name_known w h i \<Longrightarrow> read_name w P (P\<lparr>p_index := i, p_header_state := h\<rparr>)"
  by (rule read_nameI [where h = h and i = i]) simp_all

lemma general_known [simp]: "name_known w h_general i" "name_known w h_connection i"
  by (simp_all add: name_known_def)

lemma match_name:
  assumes "w = take (Suc (p_index P)) word" and "Suc (p_index P) < length word"
    and "\<And>j. Suc j < length word \<Longrightarrow> name_known (take (Suc j) word) (p_header_state P) j"
    and "name_known word matched (Suc (p_index P))"
  shows "read_name (w @ [c]) P (match_next word matched c P)"
proof -
  let ?i = "Suc (p_index P)"
  have more: "w @ [c] = take (Suc ?i) word" if "c = word ! ?i" using take_more [OF assms(2)] that assms(1) by simp
  consider "c \<noteq> word ! ?i" | "c = word ! ?i" "Suc ?i = length word" | "c = word ! ?i" "Suc ?i < length word"
    using assms(2) by linarith
  then show ?thesis
  proof cases
    case 1
    then show ?thesis using assms(2)
      by (intro read_nameI [where h = h_general and i = ?i]) (simp_all add: match_next_def c_at_def Let_def)
  next
    case 2
    then show ?thesis using assms(2,4) more
      by (intro read_nameI [where h = matched and i = ?i]) (simp_all add: match_next_def c_at_def Let_def)
  next
    case 3
    then show ?thesis using assms(3) [of ?i] more
      by (intro read_nameI [where h = "p_header_state P" and i = ?i]) (simp_all add: match_next_def c_at_def Let_def)
  qed
qed

lemma name_char:
  assumes "name_known w (p_header_state P) (p_index P)" and "ch \<noteq> CHR '' ''"
  shows "\<exists>R. header_field_char ch c P = Some R \<and> read_name (w @ [c]) P R"
proof -
  note D = name_known_def header_field_char_def Let_def
  note N = match_name [of w P _ _ c] and I = read_nameI [where P = P and h = h_general and w = "w @ [c]"]
  show ?thesis
  proof (cases "p_header_state P")
    case h_matching_connection
    then show ?thesis using N [of "''connection''" h_connection] assms(1) by (simp add: D)
  next
    case h_matching_proxy_connection
    then show ?thesis using N [of "''proxy-connection''" h_connection] assms(1) by (simp add: D)
  next
    case h_matching_content_length
    then show ?thesis using N [of "''content-length''" h_content_length] assms(1) by (simp add: D)
  next
    case h_matching_transfer_encoding
    then show ?thesis using N [of "''transfer-encoding''" h_transfer_encoding] assms(1) by (simp add: D)
  next
    case h_matching_upgrade
    then show ?thesis using N [of "''upgrade''" h_upgrade] assms(1) by (simp add: D)
  next
    case h_general
    then show ?thesis using I [where R = P and i = "p_index P"] by (simp add: header_field_char_def Let_def)
  next
    case h_C
    then show ?thesis using assms(1) by (auto simp: D intro!: read_name_upd)
  next
    case h_CO
    then show ?thesis using assms(1) by (auto simp: D intro!: read_name_upd)
  next
    case h_CON
    then show ?thesis using assms(1) by (auto simp: D intro!: read_name_upd)
  qed (use assms I [where i = "p_index P"] in \<open>simp_all add: D\<close>)
qed

lemma tokens_none: "tokens CR = NUL" "tokens LF = NUL" "tokens TAB = NUL" "tokens (CHR '' '') = NUL" "tokens (CHR '':'') = NUL"
  by code_simp+

lemma token_char:
  assumes "tokens c \<noteq> NUL"
  shows "c \<noteq> CR" "c \<noteq> LF" "c \<noteq> TAB" "c \<noteq> CHR '' ''" "c \<noteq> CHR '':''" "token False c = tokens c"
  using assms tokens_none by (auto simp: token_def)

text \<open>What the parser makes of the lower-case characters of a name.\<close>

fun name_chars :: "string \<Rightarrow> http_parser \<Rightarrow> http_parser option" where
  "name_chars [] P = Some P"
| "name_chars (c # w) P = Option.bind (header_field_char (CHR ''x'') c P) (name_chars w)"

lemma field_char_nread:
  "header_field_char ch c (P\<lparr>p_nread := n\<rparr>) = map_option (\<lambda>R. R\<lparr>p_nread := n\<rparr>) (header_field_char ch c P)"
  by (cases "p_header_state P") (simp_all add: header_field_char_def match_next_def Let_def)

lemma field_char_space: "ch \<noteq> CHR '' '' \<Longrightarrow> header_field_char ch c P = header_field_char (CHR ''x'') c P"
  by (cases "p_header_state P") (simp_all add: header_field_char_def)

lemma name_chars_nread: "name_chars v (P\<lparr>p_nread := n\<rparr>) = map_option (\<lambda>R. R\<lparr>p_nread := n\<rparr>) (name_chars v P)"
proof (induction v arbitrary: P)
  case (Cons c v)
  then show ?case by (cases "header_field_char (CHR ''x'') c P") (simp_all add: field_char_nread)
qed simp

lemma name_chars_known:
  assumes "name_known w (p_header_state P) (p_index P)"
  shows "\<exists>R. name_chars v P = Some R \<and> read_name (w @ v) P R"
  using assms
proof (induction v arbitrary: w P)
  case Nil
  then show ?case by (auto intro!: read_nameI [where h = "p_header_state P" and i = "p_index P"])
next
  case (Cons c v)
  obtain Q h i where Q: "header_field_char (CHR ''x'') c P = Some Q" "Q = P\<lparr>p_header_state := h, p_index := i\<rparr>"
    "name_known (w @ [c]) h i"
    using name_char [OF Cons.prems, of "CHR ''x''" c] by (auto simp: read_name_def)
  obtain R where "name_chars v Q = Some R" "read_name ((w @ [c]) @ v) Q R" using Cons.IH [of "w @ [c]" Q] Q by auto
  then show ?case using Q by (auto simp: read_name_def)
qed

definition with_header :: "http_request \<Rightarrow> string \<Rightarrow> string \<Rightarrow> bool \<Rightarrow> http_request" where
  "with_header m f v g = m\<lparr>hlist := hlist m @ [(f, v)], got_header_field := g\<rparr>"

lemma put_header:
  "\<not> got_header_field m \<Longrightarrow> put K_header_field d m = with_header m d [] True"
  "put K_header_field d (with_header m f [] True) = with_header m (f @ d) [] True"
  "put K_header_value d (with_header m f v g) = with_header m f (v @ d) False"
  "snd (request_put K_header_field d (m, False)) = False"
  "snd (request_put K_header_value d (with_header m f v g, False)) = False"
  by (simp_all add: put_def request_put_def base_put_def parse_field_def parse_value_def append_last_def with_header_def Let_def)

lemma header_marks:
  "initial_marks s_header_field = (\<lambda>_. None)(K_header_field := Some 0)"
  "initial_marks s_header_value = (\<lambda>_. None)(K_header_value := Some 0)"
  by (auto simp: initial_marks_def url_states_def fun_eq_iff)

lemma eat_name:
  assumes "heading P" and "p_state P = s_header_field" and "\<And>c. c \<in> set f \<Longrightarrow> tokens c \<noteq> NUL"
    and "p_nread P + length f \<le> HTTP_MAX_HEADER_SIZE" and "name_known w (p_header_state P) (p_index P)"
    and "name_chars (map tokens f) P = Some R"
  shows "eat f (P, with_header m g [] True) = Some (R\<lparr>p_nread := p_nread P + length f\<rparr>, with_header m (g @ f) [] True)"
  using assms
proof (induction f arbitrary: P g w R)
  case (Cons c f)
  note t = token_char [OF Cons.prems(3) [of c, simplified]]
  obtain Q h i where Q: "header_field_char (CHR ''x'') (tokens c) P = Some Q" "Q = P\<lparr>p_header_state := h, p_index := i\<rparr>"
    "name_known (w @ [tokens c]) h i"
    using name_char [OF Cons.prems(5), of "CHR ''x''" "tokens c"] by (auto simp: read_name_def)
  have same: "header_field_char c (tokens c) (count P) = Some (count Q)"
    using field_char_space [OF t(4), of "tokens c"] Q(1,2) by (simp add: count_def field_char_nread)
  have "on_byte False 1 (count P) c = brk (count Q)"
    using Cons.prems(2,3) t same by (simp add: on_byte_def on_header_field_def Let_def)
  then have one: "eat [c] (P, with_header m g [] True) = Some (count Q, put K_header_field [c] (with_header m g [] True))"
    using Cons.prems(1,2,4) by (intro byte_inside) (simp_all add: header_marks put_header heading_def Q(2))
  have nc: "name_chars (map tokens f) (count Q) = Some (R\<lparr>p_nread := Suc (p_nread P)\<rparr>)"
    using Cons.prems(6) Q(1,2) name_chars_nread [where P = Q and n = "Suc (p_nread P)"] by (simp add: count_def)
  have "eat f (count Q, with_header m (g @ [c]) [] True) =
      Some (R\<lparr>p_nread := Suc (p_nread P)\<rparr>\<lparr>p_nread := p_nread (count Q) + length f\<rparr>, with_header m ((g @ [c]) @ f) [] True)"
    by (rule Cons.IH [where w = "w @ [tokens c]"]) (use Cons.prems nc Q(2,3) in \<open>simp_all add: heading_def\<close>)
  then show ?case using Q(2) by (subst eat_Cons) (simp add: one put_header)
qed simp

text \<open>Between two headers the parser waits for a continuation of the value, and goes on as after the request line.\<close>

definition at_line :: "http_parser \<Rightarrow> bool" where
  "at_line P \<longleftrightarrow> heading P \<and> p_state P \<in> {s_header_field_start, s_header_value_lws}"

lemma at_line_byte:
  assumes "at_line P" and "p_nread P < HTTP_MAX_HEADER_SIZE" and "c \<noteq> CHR '' ''" and "c \<noteq> TAB"
  shows "eat (c # w) (P, m) = eat (c # w) (P\<lparr>p_state := s_header_field_start\<rparr>, m)"
proof (cases "p_state P = s_header_value_lws")
  case False
  then have "P\<lparr>p_state := s_header_field_start\<rparr> = P" using assms(1) by (cases P) (simp add: at_line_def)
  then show ?thesis by simp
next
  case True
  let ?E = "\<lambda>P. \<lparr>e_parser = count P, e_user = (m, False), e_pos = 0, e_marks = (\<lambda>_. None)\<rparr>"
  let ?Q = "P\<lparr>p_state := s_header_field_start\<rparr>"
  have comm: "(count P)\<lparr>p_state := s_header_field_start\<rparr> = count ?Q" by (simp add: count_def)
  have "run_byte False request_settings [c] c (?E P) = run_byte False request_settings [c] c (?E ?Q)"
    using assms(3,4) True
    by (subst run_byte.simps) (simp add: on_byte_def on_header_value_lws_def leave_def apply_step_def set_mark_def perform_def comm)
  moreover have "initial_marks s_header_value_lws = (\<lambda>_. None)" "initial_marks s_header_field_start = (\<lambda>_. None)"
    by (auto simp: initial_marks_def url_states_def fun_eq_iff)
  ultimately have "http_parser_execute False request_settings P (m, False) [c] = http_parser_execute False request_settings ?Q (m, False) [c]"
    using assms(1,2) True
    by (simp add: http_parser_execute_def exec_loop.simps [where E = "exec.make _ _ _ _"] exec_loop.simps iterate_def Let_def at_line_def
        heading_def parsing_header_def count_def)
  then show ?thesis by (simp add: eat.simps)
qed

definition first_known :: "char \<Rightarrow> header_states" where
  "first_known c =
     (if c = CHR ''c'' then h_C else if c = CHR ''p'' then h_matching_proxy_connection
      else if c = CHR ''t'' then h_matching_transfer_encoding else if c = CHR ''u'' then h_matching_upgrade else h_general)"

lemma first_known_ok: "name_known [c] (first_known c) 0"
  by (simp add: first_known_def name_known_def)

lemma eat_field:
  assumes "at_line P" and "f \<noteq> []" and "\<And>c. c \<in> set f \<Longrightarrow> tokens c \<noteq> NUL"
    and "p_nread P + length f + 1 < HTTP_MAX_HEADER_SIZE" and "\<not> got_header_field m"
  shows "\<exists>h i. eat (f @ '': '') (P, m) = Some (P\<lparr>p_nread := p_nread P + length f + 2, p_header_state := h, p_index := i,
      p_state := s_header_value_start\<rparr>, with_header m f [] True)
    \<and> name_known (map tokens f) h i \<and> (map tokens f = ''content-length'' \<longrightarrow> h = h_content_length)"
proof -
  obtain c w where f: "f = c # w" using assms(2) by (cases f) auto
  note t = token_char [OF assms(3) [of c, unfolded f, simplified]]
  let ?P = "P\<lparr>p_state := s_header_field_start\<rparr>"
  define Q where "Q = (count P)\<lparr>p_index := 0, p_state := s_header_field, p_header_state := first_known (tokens c)\<rparr>"
  have "on_byte False 1 (count ?P) c = marking K_header_field (brk Q)"
    using t assms(3) f by (simp add: on_byte_def on_header_field_start_def Let_def Q_def first_known_def count_def)
  then have one: "eat [c] (?P, m) = Some (Q, put K_header_field [c] m)"
    using assms(1,4) by (intro byte_first) (simp_all add: at_line_def heading_def parsing_header_def no_marks url_states_def put_header Q_def)
  obtain R h i where R: "name_chars (map tokens w) Q = Some R" "R = Q\<lparr>p_header_state := h, p_index := i\<rparr>" "name_known (map tokens f) h i"
    using name_chars_known [of "[tokens c]" Q "map tokens w"] first_known_ok by (auto simp: read_name_def Q_def f)
  have two: "eat w (Q, with_header m [c] [] True) = Some (R\<lparr>p_nread := p_nread Q + length w\<rparr>, with_header m f [] True)"
    using eat_name [of Q w "[tokens c]" R m "[c]"] R(1) assms(1,3,4) first_known_ok f
    by (simp add: Q_def at_line_def heading_def parsing_header_def)
  define S where "S = R\<lparr>p_nread := p_nread Q + length w\<rparr>"
  have S: "heading S" "p_state S = s_header_field" "p_nread S + 1 < HTTP_MAX_HEADER_SIZE"
    using assms(1,4) f by (simp_all add: S_def R(2) Q_def at_line_def heading_def parsing_header_def)
  have "on_byte False 1 (count S) (CHR '':'') = leave ((count S)\<lparr>p_state := s_header_value_start\<rparr>) (Data K_header_field) Break"
    using S(2) tokens_none by (simp add: on_byte_def on_header_field_def token_def Let_def)
  then have three: "eat '':'' (S, with_header m f [] True) =
      Some ((count S)\<lparr>p_state := s_header_value_start\<rparr>, put K_header_field [] (with_header m f [] True))"
    using S by (intro byte_last) (simp_all add: header_marks put_header heading_def)
  define T where "T = (count S)\<lparr>p_state := s_header_value_start\<rparr>"
  have "on_byte False 1 (count T) (CHR '' '') = brk (count T)"
    by (simp add: T_def on_byte_def on_header_value_start_def)
  then have four: "eat '' '' (T, with_header m f [] True) = Some (count T, with_header m f [] True)"
    using S by (intro byte_plain) (simp_all add: no_marks url_states_def heading_def T_def parsing_header_def)
  have parts: "f @ '': '' = [c] @ w @ '':'' @ '' ''" by (simp add: f)
  have "eat (f @ '': '') (P, m) = eat (f @ '': '') (?P, m)"
    unfolding f append_Cons using assms(1,4) t by (intro at_line_byte) (simp_all add: f)
  also have "\<dots> = eat (w @ '':'' @ '' '') (Q, with_header m [c] [] True)"
    unfolding parts using eat_step [OF one] by (simp add: put_header assms(5))
  also have "\<dots> = eat ('':'' @ '' '') (S, with_header m f [] True)" unfolding S_def by (rule eat_step [OF two])
  also have "\<dots> = eat '' '' (T, with_header m f [] True)"
    unfolding T_def using eat_step [OF three] by (simp add: put_header)
  finally have "eat (f @ '': '') (P, m) = Some (count T, with_header m f [] True)" using four by simp
  moreover have "count T = P\<lparr>p_nread := p_nread P + length f + 2, p_header_state := h, p_index := i, p_state := s_header_value_start\<rparr>"
    by (simp add: T_def S_def R(2) Q_def f count_def)
  moreover have "h = h_content_length" if "map tokens f = ''content-length''"
  proof -
    have "tokens c = CHR ''c''" "map tokens w = ''ontent-length''" using that f by auto
    then have "name_chars ''ontent-length'' Q = Some R" "p_header_state Q = h_C" "p_index Q = 0"
      using R(1) by (simp_all add: Q_def first_known_def)
    then have "p_header_state R = h_content_length"
      by (auto simp: header_field_char_def match_next_def c_at_def Let_def)
    then show ?thesis by (simp add: R(2))
  qed
  ultimately show ?thesis using R(3) by (intro exI [of _ h] exI [of _ i]) simp
qed

section \<open>Header values\<close>

definition value_known :: "header_states \<Rightarrow> bool" where
  "value_known h \<longleftrightarrow> h \<in> {h_general, h_matching_connection_keep_alive, h_matching_connection_close,
     h_connection_keep_alive, h_connection_close}"

definition read_value :: "http_parser \<Rightarrow> http_parser \<Rightarrow> bool" where
  "read_value P R \<longleftrightarrow> (\<exists>h i. R = P\<lparr>p_header_state := h, p_index := i\<rparr> \<and> value_known h)"

lemma read_valueI: "R = P\<lparr>p_header_state := h, p_index := i\<rparr> \<Longrightarrow> value_known h \<Longrightarrow> read_value P R"
  by (auto simp: read_value_def)

lemma match_value:
  assumes "value_known (p_header_state P)" and "value_known matched"
  shows "read_value P (match_next w matched c P)"
  using assms
  by (auto simp: match_next_def Let_def value_known_def intro: read_valueI [where h = h_general and i = "Suc (p_index P)"]
      read_valueI [where h = matched and i = "Suc (p_index P)"]
      read_valueI [where h = "p_header_state P" and i = "Suc (p_index P)"])

lemma value_char:
  assumes "value_known (p_header_state P)" and "c \<noteq> CR" and "c \<noteq> LF"
  shows "\<exists>R. on_header_value P c = brk R \<and> read_value P R"
proof -
  have self: "read_value P P" using assms(1) by (auto intro!: read_valueI [where h = "p_header_state P" and i = "p_index P"])
  have gen: "read_value P (P\<lparr>p_header_state := h_general\<rparr>)"
    by (rule read_valueI [where h = h_general and i = "p_index P"]) (simp_all add: value_known_def)
  have keep: "value_known h_connection_keep_alive" "value_known h_connection_close" by (simp_all add: value_known_def)
  show ?thesis
    using assms self gen match_value [OF assms(1)] keep unfolding value_known_def
    by (auto simp: on_header_value_def header_value_char_def Let_def)
qed

lemma eat_value_rest:
  assumes "heading P" and "p_state P = s_header_value" and "value_known (p_header_state P)"
    and "\<And>c. c \<in> set v \<Longrightarrow> c \<noteq> CR \<and> c \<noteq> LF" and "p_nread P + length v \<le> HTTP_MAX_HEADER_SIZE"
  shows "\<exists>h i. value_known h \<and> eat v (P, with_header m f u False) =
    Some (P\<lparr>p_nread := p_nread P + length v, p_header_state := h, p_index := i\<rparr>, with_header m f (u @ v) False)"
  using assms
proof (induction v arbitrary: P u)
  case Nil
  then show ?case by (intro exI [of _ "p_header_state P"] exI [of _ "p_index P"]) simp
next
  case (Cons c v)
  obtain Q h i where Q: "on_header_value (count P) c = brk Q" "Q = (count P)\<lparr>p_header_state := h, p_index := i\<rparr>" "value_known h"
    using value_char [of "count P" c] Cons.prems(3,4) by (auto simp: read_value_def)
  then have "on_byte False 1 (count P) c = brk Q" using Cons.prems(2) by (simp add: on_byte_def)
  then have one: "eat [c] (P, with_header m f u False) = Some (Q, put K_header_value [c] (with_header m f u False))"
    using Cons.prems(1,2,5) by (intro byte_inside) (simp_all add: header_marks put_header heading_def Q(2))
  obtain h' i' where "value_known h'" "eat v (Q, with_header m f (u @ [c]) False) =
      Some (Q\<lparr>p_nread := p_nread Q + length v, p_header_state := h', p_index := i'\<rparr>, with_header m f ((u @ [c]) @ v) False)"
    using Cons.IH [of Q "u @ [c]"] Cons.prems Q(2,3) by (auto simp: heading_def)
  then show ?case using one Q(2)
    by (intro exI [of _ h'] exI [of _ i'], subst eat_Cons) (simp add: put_header count_def)
qed

lemma digit_step: "digit_scan (u @ [c]) = 10 * digit_scan u + digit c"
  by (simp add: digit_scan_snoc digit_def)

lemma digit_scan_mono: "digit_scan u \<le> digit_scan (u @ v)"
proof (induction v rule: rev_induct)
  case (snoc c v)
  then show ?case using digit_step [of "u @ v" c] by simp
qed simp

lemma length_digit_ok:
  assumes "10 * n + d < 2 ^ 64 - 1"
  shows "length_digit 10 (of_nat n) (of_nat d) = Some (of_nat (10 * n + d))"
proof -
  let ?t = "of_nat (10 * n + d) :: u64"
  have small: "unat (of_nat k :: u64) = k" if "k < 2 ^ 64 - 1" for k using that by (simp add: unat_of_nat)
  have u: "unat ?t = 10 * n + d" "unat (of_nat n :: u64) = n" using small [OF assms] small [of n] assms by linarith+
  have "\<not> ?t < of_nat n" unfolding word_less_nat_alt u by simp
  moreover have "?t \<noteq> ULLONG_MAX"
  proof
    assume "?t = ULLONG_MAX"
    then have "unat ?t = unat ULLONG_MAX" by (rule arg_cong)
    moreover have "unat ULLONG_MAX = 2 ^ 64 - 1" by (simp add: ULLONG_MAX_def unsigned_minus_1_eq_mask mask_eq_exp_minus_1)
    ultimately show False using assms unfolding u by linarith
  qed
  moreover have eq: "of_nat n * 10 + of_nat d = ?t" by (simp add: mult.commute)
  ultimately show ?thesis unfolding length_digit_def Let_def eq by simp
qed

lemma eat_digits:
  assumes "heading P" and "p_state P = s_header_value" and "p_header_state P = h_content_length"
    and "\<And>c. c \<in> set v \<Longrightarrow> is_num c" and "digit_scan (u @ v) < 2 ^ 64 - 1" and "p_content_length P = of_nat (digit_scan u)"
    and "p_nread P + length v \<le> HTTP_MAX_HEADER_SIZE"
  shows "eat v (P, with_header m f u False) =
    Some (P\<lparr>p_nread := p_nread P + length v, p_content_length := of_nat (digit_scan (u @ v))\<rparr>, with_header m f (u @ v) False)"
  using assms
proof (induction v arbitrary: P u)
  case Nil
  then show ?case by (cases P) simp
next
  case (Cons c v)
  have num: "is_num c" "c \<noteq> CR" "c \<noteq> LF" "c \<noteq> CHR '' ''" using Cons.prems(4) [of c] by (auto simp: is_num_def)
  have "digit_scan (u @ [c]) < 2 ^ 64 - 1"
    using digit_scan_mono [of "u @ [c]" v] Cons.prems(5) by simp
  then have d: "length_digit 10 (of_nat (digit_scan u)) (of_nat (digit c)) = Some (of_nat (digit_scan (u @ [c])))"
    using length_digit_ok digit_step by simp
  define Q where "Q = (count P)\<lparr>p_content_length := of_nat (digit_scan (u @ [c]))\<rparr>"
  have "on_byte False 1 (count P) c = brk Q"
    using Cons.prems(2,3,6) num d by (simp add: on_byte_def on_header_value_def header_value_char_def Let_def Q_def)
  then have one: "eat [c] (P, with_header m f u False) = Some (Q, put K_header_value [c] (with_header m f u False))"
    using Cons.prems(1,2,7) by (intro byte_inside) (simp_all add: header_marks put_header heading_def Q_def)
  have "eat v (Q, with_header m f (u @ [c]) False) = Some (Q\<lparr>p_nread := p_nread Q + length v,
      p_content_length := of_nat (digit_scan ((u @ [c]) @ v))\<rparr>, with_header m f ((u @ [c]) @ v) False)"
    by (rule Cons.IH) (use Cons.prems in \<open>simp_all add: Q_def heading_def\<close>)
  then show ?case using one by (subst eat_Cons) (simp add: put_header Q_def count_def)
qed

lemma eat_line_end:
  assumes "heading P" and "p_state P = s_header_almost_done" and "p_nread P < HTTP_MAX_HEADER_SIZE"
    and "value_known (p_header_state P) \<or> p_header_state P = h_content_length"
  shows "\<exists>fl. fl \<subseteq> insert F_CONNECTION_KEEP_ALIVE (insert F_CONNECTION_CLOSE (p_flags P)) \<and>
    eat [LF] (P, m) = Some (P\<lparr>p_nread := Suc (p_nread P), p_state := s_header_value_lws, p_flags := fl\<rparr>, m)"
proof -
  define fl where "fl = (case p_header_state P of
      h_connection_keep_alive \<Rightarrow> insert F_CONNECTION_KEEP_ALIVE (p_flags P)
    | h_connection_close \<Rightarrow> insert F_CONNECTION_CLOSE (p_flags P) | _ \<Rightarrow> p_flags P)"
  have P: "brk ((count P)\<lparr>p_state := s, p_flags := p_flags P\<rparr>) = brk ((count P)\<lparr>p_state := s\<rparr>)" for s
    by (simp add: count_def)
  have fl: "fl \<subseteq> insert F_CONNECTION_KEEP_ALIVE (insert F_CONNECTION_CLOSE (p_flags P))"
    "on_byte False 1 (count P) LF = brk ((count P)\<lparr>p_state := s_header_value_lws, p_flags := fl\<rparr>)"
    using assms(2,4) P unfolding value_known_def fl_def
    by (auto simp: on_byte_def on_header_almost_done_def expect_def Let_def)
  have "eat [LF] (P, m) = Some ((count P)\<lparr>p_state := s_header_value_lws, p_flags := fl\<rparr>, m)"
    using fl(2) assms(1-3) by (intro byte_plain) (simp_all add: heading_def no_marks url_states_def)
  with fl(1) show ?thesis by (intro exI [of _ fl]) (simp add: count_def)
qed

text \<open>The characters of a value that is not empty, up to its end.\<close>

lemma eat_value_chars:
  assumes "heading P" and "p_state P = s_header_value_start" and "name_known w (p_header_state P) (p_index P)"
    and "p_header_state P \<notin> {h_transfer_encoding, h_upgrade}"
    and "p_header_state P = h_content_length \<Longrightarrow> (\<forall>c \<in> set v. is_num c) \<and> digit_scan v < 2 ^ 64 - 1"
    and v: "v \<noteq> []" "\<And>c. c \<in> set v \<Longrightarrow> c \<noteq> CR \<and> c \<noteq> LF" "hd v \<noteq> CHR '' ''" "hd v \<noteq> TAB"
    and "p_nread P + length v \<le> HTTP_MAX_HEADER_SIZE"
  shows "\<exists>h i. (value_known h \<or> h = h_content_length) \<and> eat v (P, with_header m f [] True) =
    Some (P\<lparr>p_nread := p_nread P + length v, p_header_state := h, p_index := i, p_state := s_header_value, p_content_length :=
       if p_header_state P = h_content_length then of_nat (digit_scan v) else p_content_length P\<rparr>, with_header m f v False)"
proof -
  obtain c x where cx: "v = c # x" using v(1) by (cases v) auto
  have c: "c \<noteq> CR" "c \<noteq> LF" "c \<noteq> CHR '' ''" "c \<noteq> TAB" using v(2) [of c] v(3,4) by (simp_all add: cx)
  define P1 where "P1 = (count P)\<lparr>p_state := s_header_value, p_index := 0\<rparr>"
  have start: "on_byte False 1 (count P) c = marking K_header_value (header_value_first P1 c)"
    using assms(2) c by (simp add: on_byte_def on_header_value_start_def Let_def P1_def)
  show ?thesis
  proof (cases "p_header_state P = h_content_length")
    case True
    have num: "is_num c" "\<And>c. c \<in> set x \<Longrightarrow> is_num c" "digit_scan ([c] @ x) < 2 ^ 64 - 1" using assms(5) [OF True] by (simp_all add: cx)
    define Q where "Q = P1\<lparr>p_content_length := of_nat (digit_scan [c])\<rparr>"
    have "on_byte False 1 (count P) c = marking K_header_value (brk Q)"
      unfolding start using True num(1) by (simp add: header_value_first_def Q_def P1_def Let_def digit_scan_def digit_def)
    then have one: "eat [c] (P, with_header m f [] True) = Some (Q, put K_header_value [c] (with_header m f [] True))"
      using assms(1,2,10) cx
      by (intro byte_first) (simp_all add: put_header heading_def Q_def P1_def no_marks url_states_def)
    have "eat x (Q, with_header m f [c] False) = Some (Q\<lparr>p_nread := p_nread Q + length x,
        p_content_length := of_nat (digit_scan ([c] @ x))\<rparr>, with_header m f ([c] @ x) False)"
      using num assms(1,10) True cx
      by (intro eat_digits) (simp_all add: Q_def P1_def heading_def parsing_header_def)
    then show ?thesis using one True
      by (intro exI [of _ h_content_length] exI [of _ 0], unfold cx, subst eat_Cons)
         (simp add: put_header Q_def P1_def count_def)
  next
    case False
    define h where "h = (if p_header_state P = h_connection
      then (if lower c = CHR ''k'' then h_matching_connection_keep_alive
            else if lower c = CHR ''c'' then h_matching_connection_close else h_general)
      else h_general)"
    have vk: "value_known h" by (simp add: h_def value_known_def)
    have hf: "header_value_first P1 c = brk (P1\<lparr>p_header_state := h\<rparr>)"
      using assms(4) False unfolding P1_def h_def
      by (cases "p_header_state P") (simp_all add: header_value_first_def Let_def)
    define Q where "Q = P1\<lparr>p_header_state := h\<rparr>"
    have one: "eat [c] (P, with_header m f [] True) = Some (Q, put K_header_value [c] (with_header m f [] True))"
      using start hf assms(1,2,10) cx
      by (intro byte_first) (simp_all add: put_header heading_def Q_def P1_def no_marks url_states_def)
    obtain h' i' where h': "value_known h'" "eat x (Q, with_header m f [c] False) =
        Some (Q\<lparr>p_nread := p_nread Q + length x, p_header_state := h', p_index := i'\<rparr>, with_header m f ([c] @ x) False)"
      using eat_value_rest [of Q x m f "[c]"] vk v(2) assms(1,10) cx
      by (auto simp: Q_def P1_def heading_def parsing_header_def)
    then show ?thesis using one False
      by (intro exI [of _ h'] exI [of _ i'], unfold cx, subst eat_Cons) (simp add: put_header Q_def P1_def count_def)
  qed
qed

lemma eat_value:
  assumes "heading P" and "p_state P = s_header_value_start" and "name_known w (p_header_state P) (p_index P)"
    and "p_header_state P \<notin> {h_transfer_encoding, h_upgrade}"
    and "p_header_state P = h_content_length \<Longrightarrow> v \<noteq> [] \<and> (\<forall>c \<in> set v. is_num c) \<and> digit_scan v < 2 ^ 64 - 1"
    and "\<And>c. c \<in> set v \<Longrightarrow> c \<noteq> CR \<and> c \<noteq> LF" and "v \<noteq> [] \<Longrightarrow> hd v \<noteq> CHR '' '' \<and> hd v \<noteq> TAB"
    and "p_nread P + length v + 2 \<le> HTTP_MAX_HEADER_SIZE"
  shows "\<exists>h i fl. fl \<subseteq> insert F_CONNECTION_KEEP_ALIVE (insert F_CONNECTION_CLOSE (p_flags P)) \<and>
    eat (v @ [CR, LF]) (P, with_header m f [] True) = Some (P\<lparr>p_nread := p_nread P + length v + 2, p_header_state := h, p_index := i,
       p_flags := fl, p_content_length := (if p_header_state P = h_content_length then of_nat (digit_scan v) else p_content_length P),
       p_state := s_header_value_lws\<rparr>, with_header m f v False)"
proof -
  define n where "n = (if p_header_state P = h_content_length then of_nat (digit_scan v) else p_content_length P)"
  obtain h i where vk: "value_known h \<or> h = h_content_length" and cr: "eat (v @ [CR]) (P, with_header m f [] True) =
      Some (P\<lparr>p_nread := p_nread P + length v + 1, p_header_state := h, p_index := i, p_content_length := n,
        p_state := s_header_almost_done\<rparr>, with_header m f v False)"
  proof (cases "v = []")
    case True
    define Q where "Q = (count P)\<lparr>p_index := 0, p_header_state := h_general, p_state := s_header_almost_done\<rparr>"
    have "on_byte False 1 (count P) CR = marking K_header_value (leave Q (Data K_header_value) Break)"
      using assms(2) by (simp add: on_byte_def on_header_value_start_def Let_def Q_def)
    then have "eat [CR] (P, with_header m f [] True) = Some (Q, put K_header_value [] (with_header m f [] True))"
      using assms(1,2,8) by (intro byte_empty) (simp_all add: put_header heading_def Q_def no_marks url_states_def)
    moreover have "n = p_content_length P" using assms(5) True by (auto simp: n_def)
    ultimately show ?thesis using True
      by (intro that [of h_general 0]) (simp_all add: value_known_def put_header Q_def count_def)
  next
    case False
    obtain h i where hi: "value_known h \<or> h = h_content_length" "eat v (P, with_header m f [] True) =
        Some (P\<lparr>p_nread := p_nread P + length v, p_header_state := h, p_index := i, p_state := s_header_value, p_content_length := n\<rparr>,
          with_header m f v False)"
      using eat_value_chars [OF assms(1-4), of v m f] assms(5-8) False unfolding n_def by auto
    define Q where "Q = P\<lparr>p_nread := p_nread P + length v, p_header_state := h, p_index := i, p_state := s_header_value, p_content_length := n\<rparr>"
    have "on_byte False 1 (count Q) CR = leave ((count Q)\<lparr>p_state := s_header_almost_done\<rparr>) (Data K_header_value) Break"
      by (simp add: on_byte_def on_header_value_def Q_def)
    then have "eat [CR] (Q, with_header m f v False) = Some ((count Q)\<lparr>p_state := s_header_almost_done\<rparr>, put K_header_value [] (with_header m f v False))"
      using assms(1,8) by (intro byte_last) (simp_all add: put_header header_marks heading_def parsing_header_def Q_def)
    then show ?thesis using hi
      by (intro that [of h i]) (simp_all add: eat_step Q_def [symmetric], simp add: put_header Q_def count_def)
  qed
  define R where "R = P\<lparr>p_nread := p_nread P + length v + 1, p_header_state := h, p_index := i, p_content_length := n,
    p_state := s_header_almost_done\<rparr>"
  obtain fl where fl: "fl \<subseteq> insert F_CONNECTION_KEEP_ALIVE (insert F_CONNECTION_CLOSE (p_flags R))"
    "eat [LF] (R, with_header m f v False) =
      Some (R\<lparr>p_nread := Suc (p_nread R), p_state := s_header_value_lws, p_flags := fl\<rparr>, with_header m f v False)"
    using eat_line_end [of R "with_header m f v False"] assms(1,8) vk by (auto simp: R_def heading_def parsing_header_def)
  have "eat (v @ [CR, LF]) (P, with_header m f [] True) = eat [LF] (R, with_header m f v False)"
    using eat_step [OF cr, of "[LF]"] by (simp add: R_def)
  then show ?thesis using fl
    by (intro exI [of _ h] exI [of _ i] exI [of _ fl]) (simp add: R_def n_def)
qed

end
