(* ===== verification/Http_Roundtrip.thy ===== *)
theory Http_Roundtrip
  imports Http_Bytes
begin

text \<open>
  What \<open>http_request::data\<close> writes, \<open>http_request::parse\<close> reads back: the parts of a request that
  \<open>Http_Bytes\<close> follows put together, with the end of the headers and the body.
\<close>

section \<open>Header lines\<close>

definition header_ok :: "string \<Rightarrow> string \<times> string \<Rightarrow> bool" where
  "header_ok b = (\<lambda>(f, v).
     f \<noteq> [] \<and> list_all (\<lambda>c. tokens c \<noteq> NUL) f \<and> list_all (\<lambda>c. c \<noteq> CR \<and> c \<noteq> LF) v
   \<and> (v = [] \<or> hd v \<noteq> CHR '' '' \<and> hd v \<noteq> TAB)
   \<and> \<not> ascii_iequals f ''Transfer-Encoding'' \<and> \<not> ascii_iequals f ''Upgrade''
   \<and> (ascii_iequals f ''Content-Length'' \<longrightarrow> v = decimal (length b)))"

lemma token_table:
  "length tokens_table = 128"
  "map (\<lambda>n. tokens_table ! upper_code n) [0..<128] = tokens_table"
  "list_all2 (\<lambda>n t. t = 0 \<or> upper_code t = upper_code n) [0..<128] tokens_table"
  "list_all (\<lambda>t. t < 256) tokens_table"
  by code_simp+

lemma upper_small: "upper_code n < 128 \<longleftrightarrow> n < 128"
  by (auto simp: upper_code_def)

lemma token_case: "tokens c \<noteq> NUL \<Longrightarrow> upper (tokens c) = upper c" "tokens (upper c) = tokens c"
proof -
  have at: "tokens_table ! upper_code n = tokens_table ! n" "tokens_table ! n = 0 \<or> upper_code (tokens_table ! n) = upper_code n"
    "tokens_table ! n < 256" if "n < 128" for n
    using arg_cong [OF token_table(2), of "\<lambda>xs. xs ! n"] list_all2_nthD [OF token_table(3), of n] token_table(1,4) that
    by (simp_all add: list_all_length)
  show "upper (tokens c) = upper c" if t: "tokens c \<noteq> NUL"
  proof -
    have n: "code c < 128" using t token_table(1) by (auto simp: tokens_def split: if_splits)
    have "char_of (0 :: nat) = NUL" by (simp add: char_of_def)
    then have "tokens_table ! code c \<noteq> 0" using t n unfolding tokens_def token_table(1) by metis
    then have "upper_code (code (tokens c)) = upper_code (code c)"
      using at [OF n] n token_table(1) by (simp add: tokens_def)
    then show ?thesis by (simp add: upper_def)
  qed
  show "tokens (upper c) = tokens c" using at(1) [of "code c"] upper_small [of "code c"] token_table(1) by (simp add: tokens_def)
qed

lemma name_lower:
  assumes "list_all (\<lambda>c. tokens c \<noteq> NUL) f" and "list_all (\<lambda>c. tokens c \<noteq> NUL) w"
  shows "map tokens f = map tokens w \<longleftrightarrow> map upper f = map upper w"
proof
  assume "map tokens f = map tokens w"
  then have "map (upper \<circ> tokens) f = map (upper \<circ> tokens) w" by (metis map_map)
  moreover have "map (upper \<circ> tokens) x = map upper x" if "list_all (\<lambda>c. tokens c \<noteq> NUL) x" for x
    using that token_case(1) by (simp add: list_all_iff)
  ultimately show "map upper f = map upper w" using assms by metis
next
  assume "map upper f = map upper w"
  then have "map (tokens \<circ> upper) f = map (tokens \<circ> upper) w" by (metis map_map)
  then show "map tokens f = map tokens w" by (simp add: token_case(2) comp_def)
qed

lemma known_names:
  "map tokens ''Content-Length'' = ''content-length''" "map tokens ''Transfer-Encoding'' = ''transfer-encoding''"
  "map tokens ''Upgrade'' = ''upgrade''" "list_all (\<lambda>c. tokens c \<noteq> NUL) ''Content-Length''"
  "list_all (\<lambda>c. tokens c \<noteq> NUL) ''Transfer-Encoding''" "list_all (\<lambda>c. tokens c \<noteq> NUL) ''Upgrade''"
  by code_simp+

lemma name_is:
  assumes "list_all (\<lambda>c. tokens c \<noteq> NUL) f"
  shows "map tokens f = ''content-length'' \<longleftrightarrow> ascii_iequals f ''Content-Length''"
    and "map tokens f = ''transfer-encoding'' \<longleftrightarrow> ascii_iequals f ''Transfer-Encoding''"
    and "map tokens f = ''upgrade'' \<longleftrightarrow> ascii_iequals f ''Upgrade''"
  using name_lower [OF assms known_names(4)] name_lower [OF assms known_names(5)] name_lower [OF assms known_names(6)]
  unfolding known_names(1-3) ascii_upper by simp_all

definition header_line :: "string \<times> string \<Rightarrow> string" where
  "header_line = (\<lambda>(f, v). f @ '': '' @ v @ [CR, LF])"

text \<open>What the request line and the headers leave behind.\<close>

definition head_ok :: "http_method \<Rightarrow> http_version \<Rightarrow> http_parser \<Rightarrow> bool" where
  "head_ok M v P \<longleftrightarrow> at_line P \<and> p_type P = HTTP_REQUEST \<and> p_method P = M \<and> p_http_major P = 1 \<and> p_http_minor P = minor_of v
     \<and> p_flags P \<subseteq> {F_CONNECTION_KEEP_ALIVE, F_CONNECTION_CLOSE}"

lemma decimal_num: "list_all is_num (decimal n)"
  using decimal_digits by (auto simp: list_all_iff is_num_def is_digit_def)

lemma eat_header:
  assumes P: "head_ok M ver P" and ok: "header_ok b (f, v)" and b: "length b < 2 ^ 64 - 1" and m: "\<not> got_header_field m"
    and n: "p_nread P + length (header_line (f, v)) \<le> HTTP_MAX_HEADER_SIZE"
  shows "\<exists>Q. eat (header_line (f, v)) (P, m) = Some (Q, with_header m f v False) \<and> head_ok M ver Q
    \<and> p_nread Q = p_nread P + length (header_line (f, v))
    \<and> p_content_length Q = (if ascii_iequals f ''Content-Length'' then of_nat (length b) else p_content_length P)"
proof -
  have f: "f \<noteq> []" "list_all (\<lambda>c. tokens c \<noteq> NUL) f" "\<And>c. c \<in> set v \<Longrightarrow> c \<noteq> CR \<and> c \<noteq> LF"
      "v \<noteq> [] \<Longrightarrow> hd v \<noteq> CHR '' '' \<and> hd v \<noteq> TAB" "\<not> ascii_iequals f ''Transfer-Encoding''" "\<not> ascii_iequals f ''Upgrade''"
      "ascii_iequals f ''Content-Length'' \<Longrightarrow> v = decimal (length b)"
    using ok by (auto simp: header_ok_def list_all_iff)
  note name = name_is [OF f(2)]
  obtain h i where hi: "eat (f @ '': '') (P, m) = Some (P\<lparr>p_nread := p_nread P + length f + 2, p_header_state := h, p_index := i,
      p_state := s_header_value_start\<rparr>, with_header m f [] True)" "name_known (map tokens f) h i"
      "map tokens f = ''content-length'' \<Longrightarrow> h = h_content_length"
    using eat_field [of P f m] f(1,2) P m n by (auto simp: head_ok_def header_line_def list_all_iff)
  define Q where "Q = P\<lparr>p_nread := p_nread P + length f + 2, p_header_state := h, p_index := i, p_state := s_header_value_start\<rparr>"
  have h: "h \<notin> {h_transfer_encoding, h_upgrade}" "h = h_content_length \<longleftrightarrow> ascii_iequals f ''Content-Length''"
    using hi(2,3) name f(5,6) by (auto simp: name_known_def)
  have num: "v \<noteq> [] \<and> (\<forall>c \<in> set v. is_num c) \<and> digit_scan v < 2 ^ 64 - 1" if "p_header_state Q = h_content_length"
    using that h(2) f(7) decimal_num [of "length b"] b by (auto simp: Q_def list_all_iff)
  have "\<exists>h' i' fl. fl \<subseteq> insert F_CONNECTION_KEEP_ALIVE (insert F_CONNECTION_CLOSE (p_flags Q)) \<and>
    eat (v @ [CR, LF]) (Q, with_header m f [] True) = Some (Q\<lparr>p_nread := p_nread Q + length v + 2, p_header_state := h', p_index := i',
       p_flags := fl, p_content_length := (if p_header_state Q = h_content_length then of_nat (digit_scan v) else p_content_length Q),
       p_state := s_header_value_lws\<rparr>, with_header m f v False)"
    by (rule eat_value [where w = "map tokens f"])
       (use P h hi(2) num f(3,4) n in \<open>auto simp: Q_def head_ok_def at_line_def heading_def parsing_header_def header_line_def\<close>)
  then obtain h' i' fl where fl: "fl \<subseteq> insert F_CONNECTION_KEEP_ALIVE (insert F_CONNECTION_CLOSE (p_flags Q))"
    "eat (v @ [CR, LF]) (Q, with_header m f [] True) = Some (Q\<lparr>p_nread := p_nread Q + length v + 2, p_header_state := h', p_index := i',
       p_flags := fl, p_content_length := (if p_header_state Q = h_content_length then of_nat (digit_scan v) else p_content_length Q),
       p_state := s_header_value_lws\<rparr>, with_header m f v False)" by blast
  have "eat (header_line (f, v)) (P, m) = eat (v @ [CR, LF]) (Q, with_header m f [] True)"
    using eat_step [OF hi(1), of "v @ [CR, LF]"] by (simp add: header_line_def Q_def)
  moreover have "digit_scan v = length b" if "ascii_iequals f ''Content-Length''" using f(7) [OF that] by simp
  ultimately show ?thesis using fl P h(2)
    by (auto simp: Q_def head_ok_def at_line_def heading_def parsing_header_def header_line_def)
qed

lemma eat_headers:
  assumes "head_ok M ver P" and "list_all (header_ok b) hs" and "length b < 2 ^ 64 - 1" and "\<not> got_header_field m"
    and "p_nread P + length (concat (map header_line hs)) \<le> HTTP_MAX_HEADER_SIZE"
  shows "\<exists>Q. eat (concat (map header_line hs)) (P, m) = Some (Q, m\<lparr>hlist := hlist m @ hs, got_header_field := False\<rparr>) \<and> head_ok M ver Q
    \<and> p_nread Q = p_nread P + length (concat (map header_line hs))
    \<and> p_content_length Q = (if list_ex (\<lambda>h. ascii_iequals (fst h) ''Content-Length'') hs then of_nat (length b) else p_content_length P)"
  using assms
proof (induction hs arbitrary: P m)
  case Nil
  then show ?case by (intro exI [of _ P]) (cases m, simp)
next
  case (Cons h hs)
  obtain f v where h: "h = (f, v)" by (cases h)
  obtain Q where Q: "eat (header_line (f, v)) (P, m) = Some (Q, with_header m f v False)" "head_ok M ver Q"
    "p_nread Q = p_nread P + length (header_line (f, v))"
    "p_content_length Q = (if ascii_iequals f ''Content-Length'' then of_nat (length b) else p_content_length P)"
    using eat_header [OF Cons.prems(1), of b f v m] Cons.prems(2-5) h by auto
  obtain R where R: "eat (concat (map header_line hs)) (Q, with_header m f v False) =
      Some (R, (with_header m f v False)\<lparr>hlist := hlist (with_header m f v False) @ hs, got_header_field := False\<rparr>)"
    "head_ok M ver R" "p_nread R = p_nread Q + length (concat (map header_line hs))"
    "p_content_length R = (if list_ex (\<lambda>h. ascii_iequals (fst h) ''Content-Length'') hs then of_nat (length b) else p_content_length Q)"
    using Cons.IH [OF Q(2), of "with_header m f v False"] Cons.prems(2,3,5) Q(3) h by (auto simp: with_header_def)
  show ?case
    by (intro exI [of _ R]) (use R Q(3,4) eat_step [OF Q(1)] h in \<open>simp add: with_header_def\<close>)
qed

section \<open>The end of the headers and the body\<close>

lemma put_body: "put K_body d m = m\<lparr>body := body m @ d\<rparr>" "snd (request_put K_body d (m, False)) = False"
  by (simp_all add: put_def request_put_def base_put_def)

lemma eat_blank_line:
  assumes "head_ok M ver P" and "p_nread P < HTTP_MAX_HEADER_SIZE"
  shows "eat [CR] (P, m) = Some (P\<lparr>p_nread := Suc (p_nread P), p_state := s_headers_almost_done\<rparr>, m)"
proof -
  let ?P = "P\<lparr>p_state := s_header_field_start\<rparr>"
  have "on_byte False 1 (count ?P) CR = brk ((count ?P)\<lparr>p_state := s_headers_almost_done\<rparr>)"
    by (simp add: on_byte_def on_header_field_start_def)
  then have "eat [CR] (?P, m) = Some ((count ?P)\<lparr>p_state := s_headers_almost_done\<rparr>, m)"
    using assms by (intro byte_plain) (simp_all add: head_ok_def at_line_def heading_def parsing_header_def no_marks url_states_def)
  moreover have "eat [CR] (P, m) = eat [CR] (?P, m)" using assms by (intro at_line_byte) (simp_all add: head_ok_def)
  ultimately show ?thesis by (simp add: count_def)
qed

definition finished :: "http_request \<Rightarrow> http_request" where
  "finished m = m\<lparr>complete := True, body_length := length (body m)\<rparr>"

lemma version_read: "v \<noteq> http_0_9 \<Longrightarrow> p_http_major P = 1 \<Longrightarrow> p_http_minor P = minor_of v \<Longrightarrow> set_version P = Some v"
  by (cases v) (simp_all add: set_version_def minor_of_def)

definition headers_read :: "http_method \<Rightarrow> http_version \<Rightarrow> http_request \<Rightarrow> http_request" where
  "headers_read M v m = m\<lparr>req_method := method_string M, version := v\<rparr>"

lemma headers_end:
  assumes "heading P" and "p_state P = s_headers_almost_done" and "p_nread P < HTTP_MAX_HEADER_SIZE"
    and "p_type P = HTTP_REQUEST" and "p_method P = M" and "M \<noteq> HTTP_CONNECT" and "p_http_major P = 1" and "p_http_minor P = minor_of v"
    and "v \<noteq> http_0_9" and "p_flags P \<subseteq> {F_CONNECTION_KEEP_ALIVE, F_CONNECTION_CLOSE}"
  shows "p_content_length P = 0 \<or> p_content_length P = ULLONG_MAX \<Longrightarrow>
      \<exists>Q. http_parser_execute False request_settings P (m, False) [LF] = Some (1, Q, finished (headers_read M v m), False)
        \<and> p_errno Q = HPE_CB_message_complete"
    and "p_content_length P \<noteq> 0 \<Longrightarrow> p_content_length P \<noteq> ULLONG_MAX \<Longrightarrow>
      \<exists>Q. eat [LF] (P, m) = Some (Q, headers_read M v m) \<and> p_state Q = s_body_identity \<and> p_content_length Q = p_content_length P
        \<and> p_errno Q = HPE_OK \<and> \<not> p_upgrade Q"
proof -
  have fl: "F_TRAILING \<notin> p_flags P" "F_UPGRADE \<notin> p_flags P" "F_SKIPBODY \<notin> p_flags P" "F_CHUNKED \<notin> p_flags P"
    using assms(10) by auto
  note ver = version_read [OF assms(9)]
  note D = byte_defs no_marks url_states_def parsing_header_def on_byte_def on_headers_almost_done_def on_headers_done_def
    expect_def message_done_def call_headers_complete_def request_on_headers_complete_def headers_read_def finished_def
    on_message_complete_def set_errno_def notify_errno_def ver
  show "\<exists>Q. http_parser_execute False request_settings P (m, False) [LF] = Some (1, Q, finished (headers_read M v m), False)
        \<and> p_errno Q = HPE_CB_message_complete" if "p_content_length P = 0 \<or> p_content_length P = ULLONG_MAX"
    using assms(1-9) fl that by (auto simp: D)
  show "\<exists>Q. eat [LF] (P, m) = Some (Q, headers_read M v m) \<and> p_state Q = s_body_identity \<and> p_content_length Q = p_content_length P
        \<and> p_errno Q = HPE_OK \<and> \<not> p_upgrade Q" if "p_content_length P \<noteq> 0" "p_content_length P \<noteq> ULLONG_MAX"
    using assms(1-9) fl that by (auto simp: D eat.simps)
qed

lemma body_word_byte:
  assumes "p_errno P = HPE_OK" and "\<not> p_upgrade P" and "p_state P = s_body_identity"
    and "p_content_length P \<noteq> 0" and "p_content_length P \<noteq> ULLONG_MAX"
  shows "p_content_length P - 1 \<noteq> 0 \<Longrightarrow>
      eat [c] (P, m) = Some (P\<lparr>p_content_length := p_content_length P - 1\<rparr>, m\<lparr>body := body m @ [c]\<rparr>)"
    and "p_content_length P - 1 = 0 \<Longrightarrow> \<exists>Q. http_parser_execute False request_settings P (m, False) [c] =
      Some (1, Q, finished (m\<lparr>body := body m @ [c]\<rparr>), False) \<and> p_errno Q = HPE_CB_message_complete"
proof -
  have "unat (p_content_length P) \<noteq> 0" using assms(4) by (simp add: unat_eq_zero)
  then have one: "min (unat (p_content_length P)) 1 = 1" by linarith
  have marks: "initial_marks s_body_identity = (\<lambda>_. None)" by (simp add: no_marks url_states_def)
  note D = byte_defs marks parsing_header_def on_byte_def on_body_identity_def body_step_def take_body_def to_read_def
    request_put_def base_put_def one [simplified]
  show "eat [c] (P, m) = Some (P\<lparr>p_content_length := p_content_length P - 1\<rparr>, m\<lparr>body := body m @ [c]\<rparr>)"
    if "p_content_length P - 1 \<noteq> 0"
    using assms that by (simp add: D eat.simps)
  show "\<exists>Q. http_parser_execute False request_settings P (m, False) [c] =
      Some (1, Q, finished (m\<lparr>body := body m @ [c]\<rparr>), False) \<and> p_errno Q = HPE_CB_message_complete"
    if "p_content_length P - 1 = 0"
    using assms that by (simp add: D message_done_def on_message_complete_def finished_def set_errno_def notify_errno_def)
qed

lemma body_length_word:
  assumes "0 < n" and "n < 2 ^ 64 - 1"
  shows "(of_nat n :: u64) \<noteq> 0" and "(of_nat n :: u64) \<noteq> ULLONG_MAX" and "(of_nat n :: u64) - 1 = of_nat (n - 1)"
proof -
  have u: "unat (of_nat n :: u64) = n" using assms(2) by (simp add: unat_of_nat)
  show "(of_nat n :: u64) \<noteq> 0" using u assms(1) by (metis less_numeral_extra(3) unsigned_0)
  show "(of_nat n :: u64) \<noteq> ULLONG_MAX"
  proof
    assume "(of_nat n :: u64) = ULLONG_MAX"
    then have "n = unat ULLONG_MAX" using u by simp
    moreover have "unat ULLONG_MAX = 2 ^ 64 - 1" by (simp add: ULLONG_MAX_def unsigned_minus_1_eq_mask mask_eq_exp_minus_1)
    ultimately show False using assms(2) by linarith
  qed
  show "(of_nat n :: u64) - 1 = of_nat (n - 1)"
    using assms(1) by (cases n) simp_all
qed

lemma body_byte:
  assumes "p_errno P = HPE_OK" and "\<not> p_upgrade P" and "p_state P = s_body_identity" and "p_content_length P = of_nat n"
    and "n < 2 ^ 64 - 1"
  shows "1 < n \<Longrightarrow> eat [c] (P, m) = Some (P\<lparr>p_content_length := of_nat (n - 1)\<rparr>, m\<lparr>body := body m @ [c]\<rparr>)"
    and "n = 1 \<Longrightarrow> \<exists>Q. http_parser_execute False request_settings P (m, False) [c] =
      Some (1, Q, finished (m\<lparr>body := body m @ [c]\<rparr>), False) \<and> p_errno Q = HPE_CB_message_complete"
proof -
  have W: "p_content_length P \<noteq> 0" "p_content_length P \<noteq> ULLONG_MAX" "p_content_length P - 1 = of_nat (n - 1)" if "0 < n"
    unfolding assms(4) by (rule body_length_word [OF that assms(5)])+
  show "eat [c] (P, m) = Some (P\<lparr>p_content_length := of_nat (n - 1)\<rparr>, m\<lparr>body := body m @ [c]\<rparr>)" if n: "1 < n"
  proof -
    have "0 < n" "0 < n - 1" "n - 1 < 2 ^ 64 - 1" using n assms(5) by linarith+
    note V = W [OF this(1)]
    have "p_content_length P - 1 \<noteq> 0" unfolding V(3) by (rule body_length_word(1)) fact+
    from body_word_byte(1) [OF assms(1-3) V(1,2) this] show ?thesis unfolding V(3) .
  qed
  show "\<exists>Q. http_parser_execute False request_settings P (m, False) [c] =
      Some (1, Q, finished (m\<lparr>body := body m @ [c]\<rparr>), False) \<and> p_errno Q = HPE_CB_message_complete" if "n = 1"
    by (rule body_word_byte(2) [OF assms(1-3)]) (use W that in simp_all)
qed

lemma eat_body:
  assumes "p_errno P = HPE_OK" and "\<not> p_upgrade P" and "p_state P = s_body_identity" and "p_content_length P = of_nat n"
    and "n < 2 ^ 64 - 1" and "length w < n"
  shows "eat w (P, m) = Some (P\<lparr>p_content_length := of_nat (n - length w)\<rparr>, m\<lparr>body := body m @ w\<rparr>)"
  using assms
proof (induction w arbitrary: P m n)
  case Nil
  then show ?case by (cases P) simp
next
  case (Cons c w)
  have "eat [c] (P, m) = Some (P\<lparr>p_content_length := of_nat (n - 1)\<rparr>, m\<lparr>body := body m @ [c]\<rparr>)"
    using body_byte(1) [OF Cons.prems(1-5)] Cons.prems(6) by simp
  moreover have "eat w (P\<lparr>p_content_length := of_nat (n - 1)\<rparr>, m\<lparr>body := body m @ [c]\<rparr>) =
      Some (P\<lparr>p_content_length := of_nat (n - 1)\<rparr>\<lparr>p_content_length := of_nat (n - 1 - length w)\<rparr>,
        m\<lparr>body := body m @ [c]\<rparr>\<lparr>body := body (m\<lparr>body := body m @ [c]\<rparr>) @ w\<rparr>)"
    by (rule Cons.IH) (use Cons.prems in simp_all)
  ultimately show ?case by (subst eat_Cons) simp
qed

text \<open>Headers that end the message, or a body that does: the request as a whole, and the bytes behind it left alone.\<close>

lemma feed_stops:
  assumes "eat w (P, m) = Some (Q, m1)" and "http_parser_execute False request_settings Q (m1, False) [c] = Some (1, R, m2, False)"
    and "p_errno R \<noteq> HPE_OK"
  shows "feed_all False request_settings (map (\<lambda>c. [c]) (w @ c # rest)) P (m, False) = Some (Suc (length w), R, m2, False)"
  using eat_feed [OF assms(1), of "[c] # map (\<lambda>c. [c]) rest"] assms(2,3) by simp

text \<open>The callbacks never take back that a request is complete or that its method is known.\<close>

definition reached :: "bool \<Rightarrow> bool \<Rightarrow> state \<Rightarrow> http_request parsing \<Rightarrow> bool" where
  "reached a b s u \<longleftrightarrow> (a \<longrightarrow> complete (fst u)) \<and> (b \<longrightarrow> req_method (fst u) \<noteq> [])"

lemma method_string_some [simp]: "method_string M \<noteq> []"
  by (cases M) (simp_all add: method_string_def)

lemma put_reached: "reached a b s u \<Longrightarrow> reached a b s (request_put k d u)"
  by (cases u) (auto simp: reached_def request_put_def base_put_def parse_field_def parse_value_def append_last_def Let_def
      hdr_append_def split: data_kind.split)

lemma call_reached:
  assumes "reached a b s (e_user E)"
  shows "reached a b s (e_user (call_data request_settings D k hi E))"
    and "reached a b s (e_user (call_notify request_settings j E))"
    and "reached a b s (e_user (call_headers_complete request_settings E))"
  using assms put_reached [OF assms]
  by (auto simp: call_data_user call_notify_user call_headers_user request_settings_def on_message_complete_def
      request_on_headers_complete_def reached_def Let_def split: option.split prod.split)

interpretation mono: message_invariant strict request_settings "reached a b" for strict a b
proof
  fix E :: "http_request parsing exec" and D st ch
  assume "keeps (reached a b) E"
  then have "reached a b s (e_user (apply_step st E))" for s by (simp add: keeps_def reached_def)
  then show "reached a b (p_state (st_parser st)) (e_user (fst (perform request_settings D (st_action st) (apply_step st E))))"
    using call_reached by (cases "st_action st") (simp_all add: perform_def)
qed (use call_reached in \<open>simp_all add: keeps_def\<close>)

lemma eat_upgrade:
  assumes "eat w (P, m) = Some (Q, m')" and "w \<noteq> []"
  shows "\<not> p_upgrade Q"
  using assms
proof (induction w arbitrary: P m)
  case (Cons c w)
  then show ?case by (cases "w = []") (auto simp: eat.simps split: option.splits prod.splits bool.splits if_splits)
qed simp

lemma eat_keeps:
  assumes "eat w (P, m) = Some (Q, m')" and "reusable P" and "p_errno P = HPE_OK"
  shows "reusable Q" and "p_errno Q = HPE_OK" and "reached a b s (m, False) \<Longrightarrow> reached a b s (m', False)"
proof -
  have "reusable Q \<and> p_errno Q = HPE_OK \<and> (reached a b s (m, False) \<longrightarrow> reached a b s (m', False))"
    using assms
  proof (induction w arbitrary: P m)
    case (Cons c w)
    obtain P1 m1 where one: "http_parser_execute False request_settings P (m, False) [c] = Some (1, P1, m1, False)"
      "p_errno P1 = HPE_OK" "eat w (P1, m1) = Some (Q, m')"
      using Cons.prems(1) by (auto simp: eat.simps split: option.splits prod.splits bool.splits if_splits)
    have "reusable P1" using http_parser_execute_ok [OF Cons.prems(2), of False request_settings "(m, False)" "[c]"] one(1) by simp
    moreover have "reached a b s (m1, False)" if "reached a b s (m, False)"
      using mono.execute_keeps [OF Cons.prems(2) _ one(1), of a b] that one(2) by (auto simp: left_def reached_def syntax_error_def)
    ultimately show ?case using Cons.IH [OF one(3)] one(2) by blast
  qed simp
  then show "reusable Q" "p_errno Q = HPE_OK" "reached a b s (m, False) \<Longrightarrow> reached a b s (m', False)" by blast+
qed

definition request_ok :: "http_request \<Rightarrow> bool" where
  "request_ok m \<longleftrightarrow>
     (\<exists>M. req_method m = method_string M \<and> M \<noteq> HTTP_CONNECT) \<and> url_accepted (uri m) \<and> version m \<noteq> http_0_9
   \<and> list_all (header_ok (body m)) (hlist m) \<and> (body m = [] \<or> hdr_contains ''Content-Length'' m)
   \<and> length (body m) < 2 ^ 64 - 1 \<and> length (request_data m) \<le> HTTP_MAX_HEADER_SIZE"

lemma contains_ex: "hdr_contains f m \<longleftrightarrow> list_ex (\<lambda>h. ascii_iequals (fst h) f) (hlist m)"
  using find_header_end [of f "hlist m"] by (auto simp: hdr_contains_def hfind_def list_ex_iff ascii_same)

lemma request_head_read:
  assumes "request_ok m" and m0: "hlist m0 = []" "\<not> got_header_field m0" "uri m0 = []"
  shows "\<exists>M P. req_method m = method_string M \<and> M \<noteq> HTTP_CONNECT \<and> head_ok M (version m) P
    \<and> Suc (p_nread P) < HTTP_MAX_HEADER_SIZE
    \<and> request_data m = method_string M @ '' '' @ uri m @ '' '' @ version_string (version m) @ [CR, LF]
        @ concat (map header_line (hlist m)) @ [CR, LF]
    \<and> eat (method_string M @ '' '' @ uri m @ '' '' @ version_string (version m) @ [CR, LF] @ concat (map header_line (hlist m)))
        (http_parser_init HTTP_REQUEST, m0) = Some (P, m0\<lparr>uri := uri m, hlist := hlist m, got_header_field := False\<rparr>)
    \<and> p_content_length P = (if hdr_contains ''Content-Length'' m then of_nat (length (body m)) else ULLONG_MAX)"
proof -
  obtain M where M: "req_method m = method_string M" "M \<noteq> HTTP_CONNECT" using assms(1) by (auto simp: request_ok_def)
  have ok: "url_accepted (uri m)" "version m \<noteq> http_0_9" "list_all (header_ok (body m)) (hlist m)" "length (body m) < 2 ^ 64 - 1"
    using assms(1) by (simp_all add: request_ok_def)
  have data: "request_data m = method_string M @ '' '' @ uri m @ '' '' @ version_string (version m) @ [CR, LF]
        @ concat (map header_line (hlist m)) @ [CR, LF]"
    by (simp add: request_data_def hwrite_def M(1) header_line_def split_def)
  have vl: "length (version_string (version m)) = 8" by (cases "version m") (simp_all add: version_string_def)
  have len: "length (method_string M) + length (uri m) + length (concat (map header_line (hlist m))) + 14 \<le> HTTP_MAX_HEADER_SIZE"
    using assms(1) vl unfolding request_ok_def data by simp
  obtain i where i: "eat (method_string M @ '' '') (http_parser_init HTTP_REQUEST, m0) = Some (fresh_parser\<lparr>p_method := M,
      p_index := i, p_nread := Suc (length (method_string M)), p_state := s_req_spaces_before_url\<rparr>, m0)"
    using eat_method by blast
  define P1 where "P1 = fresh_parser\<lparr>p_method := M, p_index := i, p_nread := Suc (length (method_string M)), p_state := s_req_spaces_before_url\<rparr>"
  define P2 where "P2 = P1\<lparr>p_nread := p_nread P1 + length (uri m) + 1, p_state := s_req_http_start\<rparr>"
  define P3 where "P3 = P2\<lparr>p_nread := p_nread P2 + 10, p_http_major := 1, p_http_minor := minor_of (version m), p_state := s_header_field_start\<rparr>"
  let ?m = "m0\<lparr>uri := uri m\<rparr>"
  have two: "eat (uri m @ '' '') (P1, m0) = Some (P2, ?m)"
    using eat_url [of P1 "uri m" m0] M(2) ok(1) len m0(3) by (simp add: P1_def P2_def heading_def parsing_header_def)
  have three: "eat (version_string (version m) @ [CR, LF]) (P2, ?m) = Some (P3, ?m)"
    using eat_version [of P2 "version m" ?m] ok(2) len by (simp add: P1_def P2_def P3_def heading_def parsing_header_def)
  have P3: "head_ok M (version m) P3" "p_nread P3 = length (method_string M) + length (uri m) + 12" "p_content_length P3 = ULLONG_MAX"
    by (simp_all add: P1_def P2_def P3_def head_ok_def at_line_def heading_def parsing_header_def)
  obtain Q where Q: "eat (concat (map header_line (hlist m))) (P3, ?m) = Some (Q, ?m\<lparr>hlist := hlist ?m @ hlist m, got_header_field := False\<rparr>)"
    "head_ok M (version m) Q" "p_nread Q = p_nread P3 + length (concat (map header_line (hlist m)))"
    "p_content_length Q = (if hdr_contains ''Content-Length'' m then of_nat (length (body m)) else ULLONG_MAX)"
    using eat_headers [OF P3(1) ok(3,4), of ?m] m0(2) len P3(2,3) by (auto simp: contains_ex)
  have "eat (method_string M @ '' '' @ uri m @ '' '' @ version_string (version m) @ [CR, LF] @ concat (map header_line (hlist m)))
      (http_parser_init HTTP_REQUEST, m0) = Some (Q, m0\<lparr>uri := uri m, hlist := hlist m, got_header_field := False\<rparr>)"
    using eat_step [OF i, of "uri m @ '' '' @ version_string (version m) @ [CR, LF] @ concat (map header_line (hlist m))"]
      eat_step [OF two, of "version_string (version m) @ [CR, LF] @ concat (map header_line (hlist m))"]
      eat_step [OF three, of "concat (map header_line (hlist m))"] Q(1) m0(1)
    by (simp add: P1_def)
  moreover have "Suc (p_nread Q) < HTTP_MAX_HEADER_SIZE" using Q(3) P3(2) len by simp
  ultimately show ?thesis using M data Q(2,4) by (intro exI [of _ M] exI [of _ Q]) simp
qed

text \<open>While a request is being read, it is not complete, and its headers are all there as soon as its method is.\<close>

definition quiet :: "http_request \<Rightarrow> http_request \<Rightarrow> bool" where
  "quiet m m' \<longleftrightarrow> \<not> complete m' \<and> (req_method m' = [] \<or> hlist m' = hlist m)"

lemma eat_quiet:
  assumes "eat (v @ x) (P, m0) = Some (Q, m1)" and "eat v (P, m0) = Some (P', m')" and "reusable P" and "p_errno P = HPE_OK"
    and "\<not> complete m1" and "req_method m1 = []"
  shows "quiet m m'"
proof -
  have x: "eat x (P', m') = Some (Q, m1)" using assms(1,2) by (simp add: eat_append)
  have ok: "reusable P'" "p_errno P' = HPE_OK" using eat_keeps(1,2) [OF assms(2-4)] by simp_all
  show ?thesis
    using eat_keeps(3) [OF x ok, of True False] eat_keeps(3) [OF x ok, of False True] assms(5,6)
    by (auto simp: reached_def quiet_def)
qed

lemma request_head_eaten:
  assumes "request_ok m" and m0: "hlist m0 = []" "\<not> got_header_field m0" "uri m0 = []"
  obtains M w Q where "req_method m = method_string M" and "request_data m = w @ [LF]"
    and "eat w (http_parser_init HTTP_REQUEST, m0) = Some (Q, m0\<lparr>uri := uri m, hlist := hlist m, got_header_field := False\<rparr>)"
    and "\<And>m1. body m = [] \<Longrightarrow> \<exists>R. http_parser_execute False request_settings Q (m1, False) [LF] =
          Some (1, R, finished (headers_read M (version m) m1), False) \<and> p_errno R = HPE_CB_message_complete"
    and "\<And>m1. body m \<noteq> [] \<Longrightarrow> \<exists>R. eat [LF] (Q, m1) = Some (R, headers_read M (version m) m1) \<and> p_state R = s_body_identity
          \<and> p_content_length R = of_nat (length (body m)) \<and> p_errno R = HPE_OK \<and> \<not> p_upgrade R"
proof -
  obtain M P w where M: "req_method m = method_string M" "M \<noteq> HTTP_CONNECT" and P: "head_ok M (version m) P"
    and n: "Suc (p_nread P) < HTTP_MAX_HEADER_SIZE" and data: "request_data m = w @ [CR, LF]"
    and w: "eat w (http_parser_init HTTP_REQUEST, m0) = Some (P, m0\<lparr>uri := uri m, hlist := hlist m, got_header_field := False\<rparr>)"
    and len: "p_content_length P = (if hdr_contains ''Content-Length'' m then of_nat (length (body m)) else ULLONG_MAX)"
    using request_head_read [OF assms(1) m0(1-3)] by auto
  define Q where "Q = P\<lparr>p_nread := Suc (p_nread P), p_state := s_headers_almost_done\<rparr>"
  have cr: "eat (w @ [CR]) (http_parser_init HTTP_REQUEST, m0) = Some (Q, m0\<lparr>uri := uri m, hlist := hlist m, got_header_field := False\<rparr>)"
    using eat_step [OF w, of "[CR]"] eat_blank_line [OF P] n by (simp add: Q_def)
  have ver: "version m \<noteq> http_0_9" and small: "length (body m) < 2 ^ 64 - 1" using assms(1) by (simp_all add: request_ok_def)
  have Q: "heading Q" "p_state Q = s_headers_almost_done" "p_nread Q < HTTP_MAX_HEADER_SIZE" "p_type Q = HTTP_REQUEST" "p_method Q = M"
    "p_http_major Q = 1" "p_http_minor Q = minor_of (version m)" "p_flags Q \<subseteq> {F_CONNECTION_KEEP_ALIVE, F_CONNECTION_CLOSE}"
    "p_content_length Q = p_content_length P"
    using P n by (simp_all add: Q_def head_ok_def at_line_def heading_def parsing_header_def)
  note ends = headers_end [OF Q(1-5) M(2) Q(6,7) ver Q(8)]
  show thesis
  proof (rule that [of M "w @ [CR]" Q])
    fix m1 assume "body m = []"
    then have "p_content_length Q = 0 \<or> p_content_length Q = ULLONG_MAX" using len Q(9) by simp
    from ends(1) [OF this] show "\<exists>R. http_parser_execute False request_settings Q (m1, False) [LF] =
        Some (1, R, finished (headers_read M (version m) m1), False) \<and> p_errno R = HPE_CB_message_complete" .
  next
    fix m1 assume b: "body m \<noteq> []"
    then have "hdr_contains ''Content-Length'' m" using assms(1) by (simp add: request_ok_def)
    then have l: "p_content_length Q = of_nat (length (body m))" using len Q(9) by simp
    show "\<exists>R. eat [LF] (Q, m1) = Some (R, headers_read M (version m) m1) \<and> p_state R = s_body_identity
        \<and> p_content_length R = of_nat (length (body m)) \<and> p_errno R = HPE_OK \<and> \<not> p_upgrade R"
      using ends(2) body_length_word(1,2) [OF _ small] b unfolding l by blast
  qed (use M(1) data cr in simp_all)
qed

text \<open>A request is eaten but for its last byte, which completes it.\<close>

lemma request_eaten:
  assumes "request_ok m" and m0: "hlist m0 = []" "\<not> got_header_field m0" "uri m0 = []" "body m0 = []" "\<not> complete m0" "req_method m0 = []"
  obtains w c Q m1 R where "request_data m @ body m = w @ [c]" and "eat w (http_parser_init HTTP_REQUEST, m0) = Some (Q, m1)"
    and "http_parser_execute False request_settings Q (m1, False) [c] =
      Some (1, R, m\<lparr>got_header_field := False, body_length := length (body m), complete := True\<rparr>, False)"
    and "p_errno R = HPE_CB_message_complete"
    and "\<And>v x P' m'. w = v @ x \<Longrightarrow> eat v (http_parser_init HTTP_REQUEST, m0) = Some (P', m') \<Longrightarrow> quiet m m'"
proof -
  define m1 where "m1 = m0\<lparr>uri := uri m, hlist := hlist m, got_header_field := False\<rparr>"
  obtain M w Q where M: "req_method m = method_string M" and data: "request_data m = w @ [LF]"
    and w: "eat w (http_parser_init HTTP_REQUEST, m0) = Some (Q, m1)"
    and nobody: "body m = [] \<Longrightarrow> \<exists>R. http_parser_execute False request_settings Q (m1, False) [LF] =
          Some (1, R, finished (headers_read M (version m) m1), False) \<and> p_errno R = HPE_CB_message_complete"
    and some: "body m \<noteq> [] \<Longrightarrow> \<exists>R. eat [LF] (Q, m1) = Some (R, headers_read M (version m) m1) \<and> p_state R = s_body_identity
          \<and> p_content_length R = of_nat (length (body m)) \<and> p_errno R = HPE_OK \<and> \<not> p_upgrade R"
    unfolding m1_def using request_head_eaten [OF assms(1-4)] by metis
  have init: "reusable (http_parser_init HTTP_REQUEST)" "p_errno (http_parser_init HTTP_REQUEST) = HPE_OK"
    by (rule init_reusable) (simp add: http_parser_init_def)
  have early: "quiet m m'" if "w = v @ x" "eat v (http_parser_init HTTP_REQUEST, m0) = Some (P', m')" for v x P' m'
    using eat_quiet [of v x, OF _ that(2) init] w that(1) m0(5,6) by (simp add: m1_def)
  have final: "finished ((headers_read M (version m) m1)\<lparr>body := body m\<rparr>) =
      m\<lparr>got_header_field := False, body_length := length (body m), complete := True\<rparr>"
    using M(1) by (cases m; cases m0) (simp add: finished_def headers_read_def m1_def)
  show thesis
  proof (cases "body m = []")
    case True
    have "(headers_read M (version m) m1)\<lparr>body := body m\<rparr> = headers_read M (version m) m1"
      using True m0(4) by (cases m0) (simp add: headers_read_def m1_def)
    then show thesis using nobody [OF True] that [of w LF Q m1] data w True final early by auto
  next
    case False
    obtain R where R: "eat [LF] (Q, m1) = Some (R, headers_read M (version m) m1)" "p_state R = s_body_identity"
      "p_content_length R = of_nat (length (body m))" "p_errno R = HPE_OK" "\<not> p_upgrade R" using some [OF False] by blast
    have small: "length (body m) < 2 ^ 64 - 1" using assms(1) by (simp add: request_ok_def)
    obtain b c where b: "body m = b @ [c]" using False by (cases "body m" rule: rev_cases) auto
    define S where "S d = R\<lparr>p_content_length := of_nat (length (body m) - length d)\<rparr>" for d :: string
    define m2 where "m2 d = (headers_read M (version m) m1)\<lparr>body := d\<rparr>" for d
    have part: "eat (w @ [LF] @ d) (http_parser_init HTTP_REQUEST, m0) = Some (S d, m2 d)" if "length d < length (body m)" for d
      using eat_body [OF R(4,5,2,3) small that, of "headers_read M (version m) m1"] eat_step [OF w, of "[LF] @ d"] eat_step [OF R(1), of d] m0(4)
      by (simp add: S_def m2_def headers_read_def m1_def)
    obtain T where T: "http_parser_execute False request_settings (S b) (m2 b, False) [c] = Some (1, T, finished ((m2 b)\<lparr>body := body (m2 b) @ [c]\<rparr>), False)"
      "p_errno T = HPE_CB_message_complete"
      using body_byte(2) [of "S b" 1 "m2 b" c] R(2,4,5) b by (auto simp: S_def)
    have "quiet m m'" if v: "w @ [LF] @ b = v @ x" "eat v (http_parser_init HTTP_REQUEST, m0) = Some (P', m')" for v x P' m'
    proof -
      consider y where "w = v @ y" | d where "v = w @ [LF] @ d" "length d \<le> length b"
        using v(1) by (auto simp: append_eq_append_conv2 Cons_eq_append_conv)
      then show ?thesis
        by cases (use early v(2) part b m0(5) in \<open>auto simp: quiet_def m2_def headers_read_def m1_def\<close>)
    qed
    moreover have "(m2 b)\<lparr>body := body (m2 b) @ [c]\<rparr> = (headers_read M (version m) m1)\<lparr>body := body m\<rparr>" by (simp add: m2_def b)
    ultimately show thesis using that [of "w @ [LF] @ b" c "S b" "m2 b" T] part [of b] T final data b by simp
  qed
qed

text \<open>A request that is eaten, in the buffers \<open>parse\<close> gets: one that ends inside the request, and one that holds its end.\<close>

lemma eaten_execute:
  assumes "eat w (P, m) = Some (Q, m1)" and "reusable P" and "p_errno P = HPE_OK" and "w \<noteq> []"
  shows "http_parser_execute False request_settings P (m, False) w = Some (length w, Q, m1, False)"
proof -
  have "feed_all False request_settings (map (\<lambda>c. [c]) w) P (m, False) = Some (length w, Q, m1, False)"
    using eat_feed [OF assms(1), of "[]"] by simp
  moreover have "p_errno Q = HPE_OK" "\<not> p_upgrade Q" using assms(1,4) eat_keeps(2) [OF assms(1-3)] eat_upgrade [OF assms(1)] by simp_all
  ultimately have "same_result 0 (Some (length w, Q, m1, False)) (http_parser_execute False request_settings P (m, False) w)"
    using req.feed_all_concat [OF assms(2,3), of "map (\<lambda>c. [c]) w"] assms(4) by (auto simp: concat_map_singleton)
  then show ?thesis by (rule same_resultD) (simp add: syntax_error_def \<open>p_errno Q = HPE_OK\<close>)
qed

lemma stopped_execute:
  assumes "eat w (P, m) = Some (Q, m1)" and "http_parser_execute False request_settings Q (m1, False) [c] = Some (1, R, m2, False)"
    and "p_errno R = HPE_CB_message_complete" and "reusable P" and "p_errno P = HPE_OK"
  shows "http_parser_execute False request_settings P (m, False) (w @ c # rest) = Some (Suc (length w), R, m2, False)"
proof -
  have "same_result 0 (Some (Suc (length w), R, m2, False)) (http_parser_execute False request_settings P (m, False) (w @ c # rest))"
    using req.feed_all_concat [OF assms(4,5) _ _ feed_stops [OF assms(1,2), of rest]] assms(3) by (auto simp: concat_map_singleton comp_def)
  then show ?thesis by (rule same_resultD) (simp add: syntax_error_def assms(3))
qed

lemma cleared: "hlist (request_clear m) = []" "\<not> got_header_field (request_clear m)" "uri (request_clear m) = []"
  "body (request_clear m) = []" "\<not> complete (request_clear m)" "req_method (request_clear m) = []"
  by (simp_all add: request_clear_def base_clear_def hdr_clear_def)

section \<open>Property\<close>

definition sample_request :: http_request where
  "sample_request =
     set_body ''hi'' None (blank_request\<lparr>hlist := [(''Host'', ''x'')], req_method := ''POST'', uri := ''/a?b=c''\<rparr>)"

lemma sample_values:
  "hlist sample_request = [(''Host'', ''x''), (''Content-Length'', ''2''), (''Content-Type'', ''text/plain'')]"
  "body sample_request = ''hi''" "req_method sample_request = method_string HTTP_POST" "uri sample_request = ''/a?b=c''"
  "version sample_request = http_1_1"
proof -
  have two: "decimal (Suc (Suc 0)) = ''2''" by code_simp
  show "hlist sample_request = [(''Host'', ''x''), (''Content-Length'', ''2''), (''Content-Type'', ''text/plain'')]"
    by (simp add: sample_request_def set_body_def hdr_set_list hdr_contains_def hfind_def blank_request_def Let_def two ascii_same same_name_def upper_def)
qed (simp_all add: sample_request_def set_body_def hdr_set_list blank_request_def Let_def)

lemma sample_ok: "request_ok sample_request"
proof -
  have two: "decimal (Suc (Suc 0)) = ''2''" by code_simp
  have "url_accepted ''/a?b=c''" by code_simp
  moreover have "list_all (\<lambda>c. tokens c \<noteq> NUL) ''Host''" "list_all (\<lambda>c. tokens c \<noteq> NUL) ''Content-Length''"
    "list_all (\<lambda>c. tokens c \<noteq> NUL) ''Content-Type''" by code_simp+
  ultimately show ?thesis
    by (auto simp: request_ok_def sample_values header_ok_def two hdr_contains_def hfind_def request_data_def hwrite_def
        ascii_same same_name_def upper_def version_string_def HTTP_MAX_HEADER_SIZE_def intro!: exI [of _ HTTP_POST])
qed

text \<open>
  C3: a request that libten writes is read back by libten's parser as it was.  The text of \<open>data()\<close> and the body, with anything behind it, go
  to \<open>parse\<close> after \<open>parser_init\<close>: \<open>parse\<close> takes exactly the bytes of this request, and leaves a complete request with the same method, URL, version,
  headers in their order and spelling, and body.  This holds for every method but CONNECT, every URL the request line admits, versions 1.0
  and 1.1, and any headers that are well formed and do not announce an upgrade, a transfer coding or another length.
\<close>

theorem request_roundtrip:
  assumes "request_ok m"
  shows "\<exists>P. (case request_parser_init m0 of (P0, r) \<Rightarrow> request_parse P0 (request_data m @ body m @ rest) r) =
    (Parsed (length (request_data m @ body m)),
     Some (P, m\<lparr>got_header_field := False, body_length := length (body m), complete := True\<rparr>))"
proof -
  let ?m = "m\<lparr>got_header_field := False, body_length := length (body m), complete := True\<rparr>"
  have init: "reusable (http_parser_init HTTP_REQUEST)" "p_errno (http_parser_init HTTP_REQUEST) = HPE_OK"
    by (rule init_reusable) (simp add: http_parser_init_def)
  obtain w c Q m1 R where w: "request_data m @ body m = w @ [c]" "eat w (http_parser_init HTTP_REQUEST, request_clear m0) = Some (Q, m1)"
    "http_parser_execute False request_settings Q (m1, False) [c] = Some (1, R, ?m, False)" "p_errno R = HPE_CB_message_complete"
    using request_eaten [OF assms cleared [of m0]] by metis
  then have "http_parser_execute False request_settings (http_parser_init HTTP_REQUEST) (request_clear m0, False) (request_data m @ body m @ rest)
      = Some (length (request_data m @ body m), R, ?m, False)"
    using stopped_execute [OF w(2-4) init, of rest] w(1) by (metis append.assoc append_Cons append_Nil length_append_singleton)
  then show ?thesis by (intro exI [of _ R]) (simp add: request_parser_init_def request_parse_def parse_result_def)
qed

theorem request_roundtrip_witness:
  "\<exists>P. (case request_parser_init blank_request of (P0, r) \<Rightarrow>
      request_parse P0 (request_data sample_request @ body sample_request @ ''GET / HTTP/1.1'') r) =
    (Parsed (length (request_data sample_request @ body sample_request)),
     Some (P, sample_request\<lparr>got_header_field := False, body_length := length (body sample_request), complete := True\<rparr>))"
  by (rule request_roundtrip [OF sample_ok])

end
