(* ===== verification/Http_Server.thy ===== *)
theory Http_Server
  imports Http_Roundtrip
begin

text \<open>
  \<open>http_exchange\<close> and \<open>http_server\<close> of \<open>include/ten/http/server.hh\<close>: one exchange of a
  request and its response, the choice of the route that answers it, and the loop that reads requests off a
  connection.

  What lies outside is a parameter.  A route's callback and the log function are functions on the exchange,
  and a callback may end with an exception, given by its \<open>what()\<close>.  The rest of the process is a
  \<open>'w\<close> they may change.  \<open>fnmatch\<close> and the clock are fields of an environment.  A
  connection delivers the chunks that successive calls of \<open>recv\<close> return; when they are used up,
  \<open>recv\<close> fails, as on a closed connection or a timeout.
\<close>

section \<open>An exchange\<close>

record sock =
  sock_valid :: bool
  sock_sent :: "string list"
  sock_nodelay :: bool

record 'w exchange =
  x_req :: http_request
  x_sock :: sock
  x_resp :: http_response
  x_resp_sent :: bool
  x_world :: 'w

record 'w env =
  fnmatch :: "string \<Rightarrow> string \<Rightarrow> int \<Rightarrow> bool"
  rfc822_date :: "'w \<Rightarrow> string"

definition response_new :: "nat \<Rightarrow> (string \<times> string) list \<Rightarrow> http_response" where
  "response_new c hs = \<lparr>hlist = hs, got_header_field = False, version = http_1_1, body = [], body_length = 0, complete = False,
     status_code = c, parser_guillotine = False\<rparr>"

definition exchange_new :: "http_request \<Rightarrow> sock \<Rightarrow> 'w \<Rightarrow> 'w exchange" where
  "exchange_new r s w = \<lparr>x_req = r, x_sock = s, x_resp = response_new 404 [], x_resp_sent = False, x_world = w\<rparr>"

definition sock_send :: "string \<Rightarrow> sock \<Rightarrow> sock" where
  "sock_send t s = (if sock_valid s then s\<lparr>sock_sent := sock_sent s @ [t]\<rparr> else s)"

definition sock_close :: "sock \<Rightarrow> sock" where
  "sock_close s = s\<lparr>sock_valid := False\<rparr>"

text \<open>The headers that \<open>send_response\<close> adds, and the text it sends.\<close>

definition finish_response :: "string \<Rightarrow> http_request \<Rightarrow> http_response \<Rightarrow> http_response" where
  "finish_response date r m =
     (let m1 = (if 400 \<le> status_code m \<and> status_code m \<le> 599 \<and> hdr_get ''Content-Length'' m = None \<and> req_method r \<noteq> ''HEAD''
                then hdr_set ''Content-Length'' (decimal (length (body m))) m else m);
          m2 = (if hdr_get ''Date'' m1 = None then hdr_set ''Date'' date m1 else m1)
      in if hdr_get ''Connection'' m2 = None
         then (case hdr_get ''Connection'' r of
                 Some c \<Rightarrow> hdr_set ''Connection'' c m2
               | None \<Rightarrow> if version r = http_1_0 then hdr_set ''Connection'' ''close'' m2 else m2)
         else m2)"

definition response_text :: "http_request \<Rightarrow> http_response \<Rightarrow> string" where
  "response_text r m = response_data m @ (if body m \<noteq> [] \<and> req_method r \<noteq> ''HEAD'' then body m else [])"

definition send_response :: "'w env \<Rightarrow> 'w exchange \<Rightarrow> 'w exchange" where
  "send_response E x =
     (if x_resp_sent x then x
      else let m = finish_response (rfc822_date E (x_world x)) (x_req x) (x_resp x)
           in x\<lparr>x_resp_sent := True, x_resp := m, x_sock := sock_send (response_text (x_req x) m) (x_sock x)\<rparr>)"

text \<open>The destructor logs, makes sure there is a response, and closes the connection if that response says so.\<close>

definition exchange_end :: "'w env \<Rightarrow> ('w exchange \<Rightarrow> 'w exchange) option \<Rightarrow> 'w exchange \<Rightarrow> 'w exchange" where
  "exchange_end E log_func x =
     (let x1 = (case log_func of Some f \<Rightarrow> f x | None \<Rightarrow> x);
          x2 = send_response E x1
      in if close_after (x_resp x2) then x2\<lparr>x_sock := sock_close (x_sock x2)\<rparr> else x2)"

text \<open>
  The address of the client: the first that \<open>X-Forwarded-For\<close> names, if it is to be believed, or that of the peer.  Both loops
  read a C string and stop after 256 characters.
\<close>

fun scan_while :: "(char \<Rightarrow> bool) \<Rightarrow> nat \<Rightarrow> string \<Rightarrow> nat \<times> string" where
  "scan_while p i [] = (i, [])"
| "scan_while p i (c # cs) = (if c \<noteq> NUL \<and> i < 256 \<and> p c then scan_while p (Suc i) cs else (i, c # cs))"

definition agent_ip :: "string option \<Rightarrow> bool \<Rightarrow> 'w exchange \<Rightarrow> string option" where
  "agent_ip peer use_xff x =
     (case (if use_xff then hdr_get ''X-Forwarded-For'' (x_req x) else None) of
        None \<Rightarrow> peer
      | Some h \<Rightarrow>
          (case scan_while (\<lambda>c. \<not> is_digit c) 0 h of (i, xff) \<Rightarrow>
             if xff \<noteq> [] \<and> hd xff \<noteq> NUL \<and> i < 256
             then (case scan_while (\<lambda>c. is_digit c \<or> c = CHR ''.'') 0 xff of (j, e) \<Rightarrow>
                     if j < 256 \<and> 7 \<le> j then Some (take j xff) else peer)
             else peer))"

section \<open>Routes\<close>

record 'w route =
  r_method :: "string option"
  r_pattern :: string
  r_flags :: int
  r_callback :: "'w exchange \<Rightarrow> string option \<times> 'w exchange"

record 'w http_server =
  connect_watch :: "('w \<Rightarrow> 'w) option"
  disconnect_watch :: "('w \<Rightarrow> 'w) option"
  sv_routes :: "'w route list"
  sv_log_func :: "('w exchange \<Rightarrow> 'w exchange) option"

definition add_route :: "'w route \<Rightarrow> 'w http_server \<Rightarrow> 'w http_server" where
  "add_route r S = S\<lparr>sv_routes := sv_routes S @ [r]\<rparr>"

definition set_log_callback :: "('w exchange \<Rightarrow> 'w exchange) option \<Rightarrow> 'w http_server \<Rightarrow> 'w http_server" where
  "set_log_callback f S = S\<lparr>sv_log_func := f\<rparr>"

definition path_matches :: "'w env \<Rightarrow> string \<Rightarrow> 'w route \<Rightarrow> bool" where
  "path_matches E path r \<longleftrightarrow> r_pattern r = [] \<or> fnmatch E (r_pattern r) path (r_flags r)"

definition error_response :: "string \<Rightarrow> http_response" where
  "error_response msg =
     set_body (if msg \<noteq> [] \<and> last msg \<noteq> LF then msg @ [LF] else msg) (Some ''text/plain'')
       (response_new 500 [(''Connection'', ''close'')])"

definition run_route :: "'w env \<Rightarrow> 'w route \<Rightarrow> 'w exchange \<Rightarrow> 'w exchange" where
  "run_route E r x =
     (case r_callback r x of
        (None, x1) \<Rightarrow> send_response E x1
      | (Some msg, x1) \<Rightarrow> send_response E (x1\<lparr>x_resp := error_response msg\<rparr>))"

fun route_loop :: "'w env \<Rightarrow> string \<Rightarrow> 'w route list \<Rightarrow> bool \<Rightarrow> 'w exchange \<Rightarrow> bool \<times> 'w exchange" where
  "route_loop E path [] bad_method x = (bad_method, x)"
| "route_loop E path (r # rs) bad_method x =
     (if path_matches E path r
      then if r_method r \<noteq> None \<and> the (r_method r) \<noteq> req_method (x_req x) then route_loop E path rs True x
           else (bad_method, run_route E r x)
      else route_loop E path rs bad_method x)"

definition handle_exchange :: "'w env \<Rightarrow> 'w http_server \<Rightarrow> 'w exchange \<Rightarrow> 'w exchange" where
  "handle_exchange E S x =
     (case route_loop E (request_path (x_req x)) (sv_routes S) False x of
        (bad_method, x1) \<Rightarrow> if bad_method then x1\<lparr>x_resp := response_new 405 []\<rparr> else x1)"

section \<open>A connection\<close>

text \<open>What an exchange sees of a connection, and the rest of the locals of \<open>on_connection\<close>.\<close>

record 'w line =
  l_sock :: sock
  l_world :: 'w
  l_nodelay_set :: bool

record 'w conn =
  k_line :: "'w line"
  k_in :: "string list"
  k_buf :: string
  k_parser :: http_parser
  k_req :: http_request
  k_got_headers :: bool

definition serve_request :: "'w env \<Rightarrow> 'w http_server \<Rightarrow> http_request \<Rightarrow> 'w line \<Rightarrow> http_request \<times> 'w line" where
  "serve_request E S r l =
     (let x = exchange_new r (l_sock l) (l_world l);
          first = (\<not> l_nodelay_set l \<and> \<not> close_after r);
          x1 = (if first then x\<lparr>x_sock := (x_sock x)\<lparr>sock_nodelay := True\<rparr>\<rparr> else x);
          x2 = exchange_end E (sv_log_func S) (handle_exchange E S x1)
      in (x_req x2, \<lparr>l_sock = x_sock x2, l_world = x_world x2, l_nodelay_set = l_nodelay_set l \<or> first\<rparr>))"

definition conn_recv :: "'w conn \<Rightarrow> 'w conn option" where
  "conn_recv k =
     (if k_buf k \<noteq> [] then Some k
      else case k_in k of
             [] \<Rightarrow> None
           | d # ds \<Rightarrow> if d = [] then None else Some (k\<lparr>k_buf := d, k_in := ds\<rparr>))"

definition conn_expect :: "'w conn \<Rightarrow> 'w conn" where
  "conn_expect k =
     (if \<not> k_got_headers k \<and> req_method (k_req k) \<noteq> []
      then let k1 = k\<lparr>k_got_headers := True\<rparr>
           in if hdr_get ''Expect'' (k_req k) = Some ''100-continue''
              then k1\<lparr>k_line := (k_line k)\<lparr>l_sock := sock_send (response_data (response_new 100 [])) (l_sock (k_line k))\<rparr>\<rparr>
              else k1
      else k)"

definition conn_exchange :: "'w env \<Rightarrow> 'w http_server \<Rightarrow> 'w conn \<Rightarrow> 'w conn" where
  "conn_exchange E S k = (case serve_request E S (k_req k) (k_line k) of (r, l) \<Rightarrow> k\<lparr>k_req := r, k_line := l\<rparr>)"

definition conn_init :: "'w conn \<Rightarrow> 'w conn" where
  "conn_init k = (case request_parser_init (k_req k) of (P, r) \<Rightarrow> k\<lparr>k_parser := P, k_req := r, k_got_headers := False\<rparr>)"

text \<open>How \<open>on_connection\<close> ends: at \<open>done\<close>, by the exception of \<open>parse\<close>, or by a failed assertion.\<close>

datatype 'w ending = Finished "'w line" | Thrown http_errno "'w line" | Aborted

partial_function (option) conn_loop :: "'w env \<Rightarrow> 'w http_server \<Rightarrow> 'w conn \<Rightarrow> 'w ending option" where
  "conn_loop E S k =
     (case conn_recv k of
        None \<Rightarrow> Some (Finished (k_line k))
      | Some k1 \<Rightarrow>
          (case request_parse (k_parser k1) (k_buf k1) (k_req k1) of
             (Parsed n, Some (P, r)) \<Rightarrow>
               (let k2 = k1\<lparr>k_buf := drop n (k_buf k1), k_parser := P, k_req := r\<rparr>
                in if complete r
                   then let k3 = conn_exchange E S k2
                        in if sock_valid (l_sock (k_line k3)) then conn_loop E S (conn_init k3) else Some (Finished (k_line k3))
                   else conn_loop E S (conn_expect k2))
           | (Parse_error n e, _) \<Rightarrow> Some (Thrown e (k_line k1))
           | _ \<Rightarrow> Some Aborted))"

definition watch :: "('w \<Rightarrow> 'w) option \<Rightarrow> 'w \<Rightarrow> 'w" where
  "watch f w = (case f of Some g \<Rightarrow> g w | None \<Rightarrow> w)"

definition on_connection :: "'w env \<Rightarrow> 'w http_server \<Rightarrow> string list \<Rightarrow> sock \<Rightarrow> 'w \<Rightarrow> 'w ending option" where
  "on_connection E S ds s w =
     (let l = \<lparr>l_sock = s, l_world = watch (connect_watch S) w, l_nodelay_set = False\<rparr>;
          k = \<lparr>k_line = l, k_in = ds, k_buf = [], k_parser = http_parser_init HTTP_REQUEST, k_req = blank_request, k_got_headers = False\<rparr>;
          r = (if sock_valid s then conn_loop E S (conn_init k) else Some (Finished l))
      in map_option (\<lambda>e. case e of
           Finished l1 \<Rightarrow> Finished (l1\<lparr>l_world := watch (disconnect_watch S) (l_world l1)\<rparr>)
         | other \<Rightarrow> other) r)"

text \<open>The task of a connection keeps an exception to itself; its socket is closed when it ends.\<close>

definition client_task :: "'w env \<Rightarrow> 'w http_server \<Rightarrow> string list \<Rightarrow> sock \<Rightarrow> 'w \<Rightarrow> (sock \<times> 'w) option option" where
  "client_task E S ds s w =
     map_option (\<lambda>e. case e of
        Finished l \<Rightarrow> Some (sock_close (l_sock l), l_world l)
      | Thrown _ l \<Rightarrow> Some (sock_close (l_sock l), l_world l)
      | Aborted \<Rightarrow> None) (on_connection E S ds s w)"

section \<open>Requests off the wire\<close>

text \<open>What the requests of a connection are answered with: one after the other, until a response closes it.\<close>

fun serve_all :: "'w env \<Rightarrow> 'w http_server \<Rightarrow> http_request list \<Rightarrow> 'w line \<Rightarrow> 'w line" where
  "serve_all E S [] l = l"
| "serve_all E S (r # rs) l = (if sock_valid (l_sock l) then serve_all E S rs (snd (serve_request E S r l)) else l)"

definition received :: "http_request \<Rightarrow> http_request" where
  "received m = m\<lparr>got_header_field := False, body_length := length (body m), complete := True\<rparr>"

definition wire :: "http_request \<Rightarrow> string" where
  "wire m = request_data m @ body m"

lemma expect_nothing:
  assumes "quiet m (k_req k)" and "hdr_get ''Expect'' m \<noteq> Some ''100-continue''"
  shows "k_line (conn_expect k) = k_line k" "k_in (conn_expect k) = k_in k" "k_buf (conn_expect k) = k_buf k"
    "k_parser (conn_expect k) = k_parser k" "k_req (conn_expect k) = k_req k"
  using assms by (auto simp: conn_expect_def quiet_def hdr_get_look Let_def)

lemma split_at_byte: "b @ z = x @ c # r \<Longrightarrow> (\<exists>y. x = b @ y \<and> z = y @ c # r) \<or> (\<exists>y. b = x @ c # y \<and> r = y @ z)"
  by (auto simp: append_eq_append_conv2 append_eq_Cons_conv)

lemma conn_recv_some:
  assumes "k_buf k @ concat (k_in k) = x @ c # rest" and "[] \<notin> set (k_in k)"
  shows "\<exists>k'. conn_recv k = Some k' \<and> k_buf k' \<noteq> [] \<and> k_parser k' = k_parser k \<and> k_req k' = k_req k \<and> k_line k' = k_line k
    \<and> k_buf k' @ concat (k_in k') = x @ c # rest \<and> [] \<notin> set (k_in k')
    \<and> length (k_in k') < length (k_in k) + (if k_buf k = [] then 0 else 1)"
  using assms by (cases "k_buf k"; cases "k_in k") (auto simp: conn_recv_def)

text \<open>From anywhere inside a request, the loop reads on to its end, however the rest of it arrives.\<close>

lemma conn_reads:
  assumes w: "eat w (http_parser_init HTTP_REQUEST, m0) = Some (Q, m1)"
    and c: "http_parser_execute False request_settings Q (m1, False) [c] = Some (1, R, received m, False)" "p_errno R = HPE_CB_message_complete"
    and early: "\<forall>v x P' m'. w = v @ x \<longrightarrow> eat v (http_parser_init HTTP_REQUEST, m0) = Some (P', m') \<longrightarrow> quiet m m'"
    and expect: "hdr_get ''Expect'' m \<noteq> Some ''100-continue''"
    and "w = v @ x" and "eat v (http_parser_init HTTP_REQUEST, m0) = Some (k_parser k, k_req k)"
    and "k_buf k @ concat (k_in k) = x @ c # rest" and "[] \<notin> set (k_in k)"
  shows "\<exists>k1. conn_loop E S k = (let k2 = conn_exchange E S k1 in if sock_valid (l_sock (k_line k2)) then conn_loop E S (conn_init k2) else Some (Finished (k_line k2)))
    \<and> k_req k1 = received m \<and> k_line k1 = k_line k \<and> k_buf k1 @ concat (k_in k1) = rest \<and> [] \<notin> set (k_in k1)"
  using assms(6-9)
proof (induction "length (k_in k) + (if k_buf k = [] then 0 else 1)" arbitrary: k v x rule: less_induct)
  case less
  have init: "reusable (http_parser_init HTTP_REQUEST)" "p_errno (http_parser_init HTTP_REQUEST) = HPE_OK"
    by (rule init_reusable) (simp add: http_parser_init_def)
  note P = eat_keeps(1,2) [OF less.prems(2) init]
  obtain k' where k': "conn_recv k = Some k'" "k_buf k' \<noteq> []" "k_parser k' = k_parser k" "k_req k' = k_req k" "k_line k' = k_line k"
    "k_buf k' @ concat (k_in k') = x @ c # rest" "[] \<notin> set (k_in k')"
    "length (k_in k') < length (k_in k) + (if k_buf k = [] then 0 else 1)"
    using conn_recv_some [OF less.prems(3,4)] by blast
  have x: "eat x (k_parser k, k_req k) = Some (Q, m1)" using w less.prems(1,2) by (simp add: eat_append)
  consider y where "x = k_buf k' @ y" "concat (k_in k') = y @ c # rest" | y where "k_buf k' = x @ c # y" "rest = y @ concat (k_in k')"
    using split_at_byte [OF k'(6)] by blast
  then show ?case
  proof cases
    case (1 y)
    obtain P1 r1 where e: "eat (k_buf k') (k_parser k, k_req k) = Some (P1, r1)"
      using x 1(1) by (cases "eat (k_buf k') (k_parser k, k_req k)") (auto simp: eat_append)
    have e2: "eat (v @ k_buf k') (http_parser_init HTTP_REQUEST, m0) = Some (P1, r1)" using e less.prems(2) by (simp add: eat_append)
    have q: "quiet m r1" using early e2 less.prems(1) 1(1) by (metis append.assoc)
    define k2 where "k2 = k'\<lparr>k_buf := [], k_parser := P1, k_req := r1\<rparr>"
    have "conn_loop E S k = conn_loop E S (conn_expect k2)"
      using k' eaten_execute [OF e P k'(2)] q
      by (subst conn_loop.simps) (simp add: request_parse_def parse_result_def quiet_def k2_def)
    then show ?thesis
      using less.hyps [of "conn_expect k2" "v @ k_buf k'" y] expect_nothing [of m k2] q expect e2 less.prems(1) 1 k'(5,7,8) by (simp add: k2_def)
  next
    case (2 y)
    let ?k = "k'\<lparr>k_buf := y, k_parser := R, k_req := received m\<rparr>"
    have "conn_loop E S k = (let k2 = conn_exchange E S ?k in if sock_valid (l_sock (k_line k2)) then conn_loop E S (conn_init k2) else Some (Finished (k_line k2)))"
      using k' stopped_execute [OF x c P, of y] 2(1)
      by (subst conn_loop.simps) (simp add: request_parse_def parse_result_def received_def)
    then show ?thesis using k' 2 by (intro exI [of _ ?k]) simp
  qed
qed

lemma conn_serves:
  assumes "list_all request_ok ms" and "list_all (\<lambda>m. hdr_get ''Expect'' m \<noteq> Some ''100-continue'') ms"
    and "k_buf k @ concat (k_in k) = concat (map wire ms)" and "[] \<notin> set (k_in k)" and "sock_valid (l_sock (k_line k))"
  shows "conn_loop E S (conn_init k) = Some (Finished (serve_all E S (map received ms) (k_line k)))"
  using assms
proof (induction ms arbitrary: k)
  case Nil
  then have "k_buf k = []" "k_in k = []" by (auto simp: concat_eq_Nil_conv) (metis list.set_intros(1) neq_Nil_conv)
  then show ?case by (subst conn_loop.simps) (simp add: conn_recv_def conn_init_def request_parser_init_def)
next
  case (Cons m ms)
  obtain w c Q m1 R where w: "wire m = w @ [c]" "eat w (http_parser_init HTTP_REQUEST, request_clear (k_req k)) = Some (Q, m1)"
    "http_parser_execute False request_settings Q (m1, False) [c] = Some (1, R, received m, False)" "p_errno R = HPE_CB_message_complete"
    "\<forall>v x P' m'. w = v @ x \<longrightarrow> eat v (http_parser_init HTTP_REQUEST, request_clear (k_req k)) = Some (P', m') \<longrightarrow> quiet m m'"
    using request_eaten [OF _ cleared [of "k_req k"], of m] Cons.prems(1) unfolding received_def wire_def by (metis list.pred_inject(2))
  obtain k1 where k1: "conn_loop E S (conn_init k) = (let k2 = conn_exchange E S k1 in
      if sock_valid (l_sock (k_line k2)) then conn_loop E S (conn_init k2) else Some (Finished (k_line k2)))"
    "k_req k1 = received m" "k_line k1 = k_line k" "k_buf k1 @ concat (k_in k1) = concat (map wire ms)" "[] \<notin> set (k_in k1)"
    using conn_reads [OF w(2-5), where v = "[]" and x = w and k = "conn_init k" and rest = "concat (map wire ms)" and E = E and S = S] Cons.prems w(1)
    by (auto simp: conn_init_def request_parser_init_def)
  have l: "k_line (conn_exchange E S k1) = snd (serve_request E S (received m) (k_line k))" "k_buf (conn_exchange E S k1) = k_buf k1"
    "k_in (conn_exchange E S k1) = k_in k1"
    using k1(2,3) by (simp_all add: conn_exchange_def split_def)
  have stop: "serve_all E S rs l = l" if "\<not> sock_valid (l_sock l)" for rs and l :: "'a line" using that by (cases rs) simp_all
  show ?case
    using k1(1,4,5) l Cons.prems Cons.IH [of "conn_exchange E S k1"] stop by (simp add: Let_def)
qed

section \<open>The loop ends\<close>

text \<open>A request that a buffer completes has taken at least one byte of it: \<open>on_message_complete\<close> stops the parser behind the byte.\<close>

definition late :: "http_request parsing exec \<Rightarrow> http_request parsing flow \<Rightarrow> bool" where
  "late E r \<longleftrightarrow>
     (case r of
        Stop n E' \<Rightarrow> e_pos E \<le> n \<and> (complete (fst (e_user E')) \<longrightarrow> complete (fst (e_user E)) \<or> e_pos E < n)
      | Next E' \<Rightarrow> e_pos E \<le> e_pos E' \<and> (complete (fst (e_user E')) \<longrightarrow> complete (fst (e_user E)))
      | Abort \<Rightarrow> True)"

lemma data_complete [simp]: "complete (fst (e_user (call_data request_settings D k hi E))) = complete (fst (e_user E))"
  by (auto simp: call_data_user request_settings_def request_put_def base_put_def parse_field_def parse_value_def append_last_def
      Let_def split: option.split data_kind.split prod.split)

lemma perform_late:
  assumes "perform request_settings D a E = (E2, n)"
  shows "e_pos E2 = e_pos E" and "e_pos E \<le> n"
    and "complete (fst (e_user E2)) = complete (fst (e_user E)) \<or> a \<noteq> No_callback \<and> p_errno (e_parser E2) \<noteq> HPE_OK \<and> n = Suc (e_pos E)"
proof -
  show "e_pos E2 = e_pos E" using perform_pos [of request_settings D a E] assms by simp
  show "e_pos E \<le> n" using assms by (auto simp: perform_def split: action.splits)
  have "complete (fst (e_user (call_headers_complete request_settings E))) = complete (fst (e_user E))"
    by (auto simp: call_headers_user request_settings_def request_on_headers_complete_def Let_def split: option.split)
  moreover have "complete (fst (e_user (call_notify request_settings k E))) = complete (fst (e_user E))
      \<or> p_errno (e_parser (call_notify request_settings k E)) \<noteq> HPE_OK" for k
    by (auto simp: call_notify_def request_settings_def on_message_complete_def after_callback_def set_errno_def notify_errno_def
        Let_def split: prod.split)
  ultimately show "complete (fst (e_user E2)) = complete (fst (e_user E))
      \<or> a \<noteq> No_callback \<and> p_errno (e_parser E2) \<noteq> HPE_OK \<and> n = Suc (e_pos E)"
    using assms by (auto simp: perform_def split: action.splits)
qed

lemma run_byte_late: "late E (run_byte False request_settings D ch E)"
proof (induction False request_settings D ch E rule: run_byte.induct)
  case (1 D ch E)
  let ?st = "on_byte False (length D - e_pos E) (e_parser E) ch"
  obtain E2 n where p: "perform request_settings D (st_action ?st) (apply_step ?st E) = (E2, n)" by fastforce
  note q = perform_late [OF p]
  have u: "complete (fst (e_user (apply_step ?st E))) = complete (fst (e_user E))" by simp
  show ?case
    using "1.hyps" [OF refl refl p [symmetric] refl] p q u
    by (subst run_byte.simps) (auto simp: Let_def late_def set_errno_def split: control.splits flow.splits)
qed

lemma iterate_late: "late E (iterate False request_settings D E)"
proof -
  have "late E (run_byte False request_settings D ch (E\<lparr>e_parser := P\<rparr>))" for ch P
    using run_byte_late [of "E\<lparr>e_parser := P\<rparr>" D ch] by (simp add: late_def split: flow.splits)
  then show ?thesis using run_byte_late by (auto simp: iterate_def Let_def late_def set_errno_def)
qed

lemma call_marks_complete: "complete (fst (e_user (call_marks request_settings D ks E))) = complete (fst (e_user E))"
  by (induction ks arbitrary: E) (simp_all add: Let_def)

lemma exec_loop_late:
  "exec_loop False request_settings D E = Some (n, E') \<Longrightarrow> D \<noteq> [] \<Longrightarrow>
     e_pos E \<le> n \<and> (complete (fst (e_user E')) \<longrightarrow> complete (fst (e_user E)) \<or> 0 < n)"
proof (induction False request_settings D E rule: exec_loop.induct)
  case (1 D E)
  show ?case
  proof (cases "e_pos E < length D")
    case True
    have step: "(case iterate False request_settings D E of
          Next F \<Rightarrow> exec_loop False request_settings D (F\<lparr>e_pos := Suc (e_pos F)\<rparr>) | Stop k F \<Rightarrow> Some (k, F) | Abort \<Rightarrow> None) = Some (n, E')"
      using "1.prems"(1) True by (subst (asm) exec_loop.simps) simp
    show ?thesis
      using step "1.hyps" [OF True] "1.prems"(2) iterate_late [of E D]
      by (cases "iterate False request_settings D E") (fastforce simp: late_def)+
  next
    case False
    then show ?thesis using "1.prems" by (subst (asm) exec_loop.simps) (auto simp: finish_def Let_def call_marks_complete split: if_splits)
  qed
qed

lemma parse_progress:
  assumes "request_parse P d m = (Parsed n, Some (Q, m'))" and "d \<noteq> []" and "\<not> complete m"
  shows "if complete m' then length (drop n d) < length d else drop n d = []"
proof -
  obtain f where x: "http_parser_execute False request_settings P (m, False) d = Some (n, Q, m', f)" "complete m' \<or> n = length d"
    using assms(1) by (auto simp: request_parse_def parse_result_def split: option.splits if_splits)
  have "0 < n" if c: "complete m'"
  proof (cases "p_errno P = HPE_OK")
    case True
    then show ?thesis using x(1) assms(2,3) c exec_loop_late
      by (fastforce simp: http_parser_execute_def)
  qed (use x(1) assms(3) c in \<open>simp add: http_parser_execute_def\<close>)
  then show ?thesis using x(2) assms(2) by auto
qed

text \<open>The rest of what the loop needs of the parser: its assertions hold.\<close>

definition conn_ok :: "'w conn \<Rightarrow> bool" where
  "conn_ok k \<longleftrightarrow> reusable (k_parser k) \<and> left value_inv (k_parser k) (k_req k, False) \<and> \<not> complete (k_req k)"

lemma parse_outcome:
  assumes "conn_ok k"
  obtains n Q r where "request_parse (k_parser k) d (k_req k) = (Parsed n, Some (Q, r))" "reusable Q" "left value_inv Q (r, False)"
  | n e Q r where "request_parse (k_parser k) d (k_req k) = (Parse_error n e, Some (Q, r))"
proof -
  have ok: "reusable (k_parser k)" "left value_inv (k_parser k) (k_req k, False)" using assms by (simp_all add: conn_ok_def)
  obtain n Q r f where x: "http_parser_execute False request_settings (k_parser k) (k_req k, False) d = Some (n, Q, r, f)" "reusable Q"
    using http_parser_execute_ok [OF ok(1)] by (metis prod.collapse)
  have l: "left value_inv Q (r, f)" by (rule req_inv.execute_keeps [OF ok x(1)])
  then have "f = False" by (auto simp: left_def value_inv_def)
  then show thesis using that(1) [of n Q r] that(2) [of n "p_errno Q" Q r] x l
    by (cases "\<not> complete r \<and> n \<noteq> length d") (simp_all add: request_parse_def parse_result_def)
qed

lemma conn_init_ok: "conn_ok (conn_init k)"
proof -
  have "left value_inv (http_parser_init HTTP_REQUEST) (request_clear (k_req k), False)"
    by (auto simp: left_def value_inv_def http_parser_init_def value_states_def intro!: exI [of _ s_start_req])
  then show ?thesis by (simp add: conn_ok_def conn_init_def request_parser_init_def cleared init_reusable)
qed

lemma conn_loop_ends:
  assumes "conn_ok k"
  shows "\<exists>e. conn_loop E S k = Some e \<and> e \<noteq> Aborted"
  using assms
proof (induction "length (k_buf k @ concat (k_in k))" arbitrary: k rule: less_induct)
  case less
  show ?case
  proof (cases "conn_recv k")
    case None
    then show ?thesis by (subst conn_loop.simps) simp
  next
    case (Some k1)
    have k1: "k_buf k1 \<noteq> []" "k_parser k1 = k_parser k" "k_req k1 = k_req k" "length (k_buf k1 @ concat (k_in k1)) = length (k_buf k @ concat (k_in k))"
      using Some by (auto simp: conn_recv_def split: if_splits list.splits)
    have ok: "conn_ok k1" using less.prems k1(2,3) by (simp add: conn_ok_def)
    show ?thesis
    proof (cases rule: parse_outcome [OF ok, of "k_buf k1", case_names parsed failed])
      case (parsed n Q r)
      define k2 where "k2 = k1\<lparr>k_buf := drop n (k_buf k1), k_parser := Q, k_req := r\<rparr>"
      have short: "length (k_buf k2 @ concat (k_in k2)) < length (k_buf k @ concat (k_in k))"
      proof -
        have "length (drop n (k_buf k1)) < length (k_buf k1)"
          using parse_progress [OF parsed(1) k1(1)] ok k1(1) by (cases "complete r") (simp_all add: conn_ok_def)
        then show ?thesis using k1(4) by (simp add: k2_def)
      qed
      have keep: "k_buf (conn_init (conn_exchange E S k2)) = k_buf k2" "k_in (conn_init (conn_exchange E S k2)) = k_in k2"
        "k_buf (conn_expect k2) = k_buf k2" "k_in (conn_expect k2) = k_in k2"
        by (simp_all add: conn_init_def conn_exchange_def conn_expect_def request_parser_init_def Let_def split_def)
      have "conn_ok (conn_expect k2)" if "\<not> complete r"
        using that parsed(2,3) by (simp add: conn_ok_def conn_expect_def k2_def Let_def)
      then show ?thesis
        using less.hyps [of "conn_expect k2"] less.hyps [of "conn_init (conn_exchange E S k2)"] conn_init_ok [of "conn_exchange E S k2"] short keep Some parsed(1)
        by (subst conn_loop.simps) (simp add: k2_def [symmetric] Let_def)
    next
      case (failed n e Q r)
      then show ?thesis using Some by (subst conn_loop.simps) simp
    qed
  qed
qed

section \<open>What an exchange sends\<close>

text \<open>The first route that matches both path and method answers; \<open>overtaken\<close> is the case of an earlier one with another method.\<close>

definition answers :: "'w env \<Rightarrow> http_request \<Rightarrow> 'w route \<Rightarrow> bool" where
  "answers E q r \<longleftrightarrow> path_matches E (request_path q) r \<and> (r_method r = None \<or> r_method r = Some (req_method q))"

definition overtaken :: "'w env \<Rightarrow> 'w http_server \<Rightarrow> http_request \<Rightarrow> bool" where
  "overtaken E S q \<longleftrightarrow> list_ex (answers E q) (sv_routes S)
     \<and> list_ex (path_matches E (request_path q)) (takeWhile (\<lambda>r. \<not> answers E q r) (sv_routes S))"

definition answer :: "'w env \<Rightarrow> 'w http_server \<Rightarrow> 'w exchange \<Rightarrow> http_response" where
  "answer E S x =
     (case find (answers E (x_req x)) (sv_routes S) of
        Some r \<Rightarrow> (case r_callback r x of (None, x1) \<Rightarrow> x_resp x1 | (Some msg, _) \<Rightarrow> error_response msg)
      | None \<Rightarrow> response_new (if list_ex (path_matches E (request_path (x_req x))) (sv_routes S) then 405 else 404) [])"

text \<open>Callbacks that only fill in the response, and logs that only read the exchange.\<close>

definition fills_in :: "('w exchange \<Rightarrow> string option \<times> 'w exchange) \<Rightarrow> bool" where
  "fills_in f \<longleftrightarrow> (\<forall>x. case f x of (_, x1) \<Rightarrow> x_req x1 = x_req x \<and> x_sock x1 = x_sock x \<and> x_resp_sent x1 = x_resp_sent x)"

definition only_logs :: "('w exchange \<Rightarrow> 'w exchange) option \<Rightarrow> bool" where
  "only_logs f \<longleftrightarrow> (\<forall>g x. f = Some g \<longrightarrow> (\<exists>w. g x = x\<lparr>x_world := w\<rparr>))"

lemma route_loop_answers:
  assumes "x_req x = q"
  shows "route_loop E (request_path q) rs bad x =
    (case find (answers E q) rs of
       Some r \<Rightarrow> (bad \<or> list_ex (path_matches E (request_path q)) (takeWhile (\<lambda>r. \<not> answers E q r) rs), run_route E r x)
     | None \<Rightarrow> (bad \<or> list_ex (path_matches E (request_path q)) rs, x))"
  using assms by (induction rs arbitrary: bad) (auto simp: answers_def split: option.splits)

lemma find_ex: "find p xs = None \<longleftrightarrow> \<not> list_ex p xs"
  by (auto simp: find_None_iff list_ex_iff)

lemma log_only:
  assumes "only_logs f"
  obtains w where "exchange_end E f x = (let x2 = send_response E (x\<lparr>x_world := w\<rparr>)
      in if close_after (x_resp x2) then x2\<lparr>x_sock := sock_close (x_sock x2)\<rparr> else x2)"
proof (cases f)
  case None
  then show thesis using that [of "x_world x"] by (simp add: exchange_end_def)
next
  case (Some g)
  then obtain w where "g x = x\<lparr>x_world := w\<rparr>" using assms unfolding only_logs_def by metis
  then show thesis using that [of w] Some by (simp add: exchange_end_def)
qed

lemma plain_405: "\<not> close_after (response_new 405 [])"
  by (simp add: close_after_def response_new_def hdr_get_def hfind_def)

text \<open>A route that answers: the response goes out once, and what is closed on is the response left in the exchange.\<close>

lemma routed:
  assumes "find (answers E q) (sv_routes S) = Some r" and "fills_in (r_callback r)" and "sock_valid s"
  shows "\<exists>w'. let m = finish_response (rfc822_date E w') q (answer E S (exchange_new q s w)); x = run_route E r (exchange_new q s w)
    in x_resp x = m \<and> x_resp_sent x \<and> x_sock x = s\<lparr>sock_sent := sock_sent s @ [response_text q m]\<rparr>"
proof -
  obtain t x1 where c: "r_callback r (exchange_new q s w) = (t, x1)" by fastforce
  have "x_req x1 = q" "x_sock x1 = s" "\<not> x_resp_sent x1"
    using assms(2) [unfolded fills_in_def, rule_format, of "exchange_new q s w"] c by (simp_all add: exchange_new_def)
  moreover have "x_req (exchange_new q s w) = q" by (simp add: exchange_new_def)
  ultimately show ?thesis using c assms(1,3)
    by (intro exI [of _ "x_world x1"]; cases t) (simp_all add: run_route_def send_response_def sock_send_def answer_def Let_def)
qed

lemma unrouted:
  assumes "find (answers E q) (sv_routes S) = None" and "sock_valid s"
  shows "x_resp (handle_exchange E S (exchange_new q s w)) = answer E S (exchange_new q s w)"
    and "\<not> x_resp_sent (handle_exchange E S (exchange_new q s w))" and "x_req (handle_exchange E S (exchange_new q s w)) = q"
    and "x_sock (handle_exchange E S (exchange_new q s w)) = s"
  using assms route_loop_answers [of "exchange_new q s w" q E "sv_routes S" False]
  by (auto simp: handle_exchange_def answer_def exchange_new_def)

section \<open>Properties\<close>

definition sample_env :: "unit env" where
  "sample_env = \<lparr>fnmatch = (\<lambda>p path flags. p = path), rfc822_date = (\<lambda>_. ''now'')\<rparr>"

definition hello :: "unit exchange \<Rightarrow> string option \<times> unit exchange" where
  "hello x = (None, x\<lparr>x_resp := set_body ''hello'' None (response_new 200 [(''Connection'', ''close'')])\<rparr>)"

definition sample_server :: "unit http_server" where
  "sample_server =
     (let S = \<lparr>connect_watch = None, disconnect_watch = None, sv_routes = [], sv_log_func = None\<rparr>
      in add_route \<lparr>r_method = None, r_pattern = [], r_flags = 0, r_callback = hello\<rparr>
           (add_route \<lparr>r_method = Some ''GET'', r_pattern = ''/a'', r_flags = 0, r_callback = hello\<rparr> S))"

definition sample_sock :: sock where
  "sample_sock = \<lparr>sock_valid = True, sock_sent = [], sock_nodelay = False\<rparr>"

lemma sample_expect: "hdr_get ''Expect'' sample_request = None"
  by (simp add: hdr_get_look look_list_def sample_values same_name_def upper_def)

lemma sample_wire: "wire sample_request = ''POST'' @ drop 4 (wire sample_request)"
  by (simp add: wire_def request_data_def sample_values)






end
