(* ===== verification/Checksum.thy ===== *)
theory Checksum
  imports Ten_Prelude
begin

text \<open>
  \<open>mz_adler32\<close> and \<open>mz_crc32\<close> of \<open>include/ten/bits/miniz.c\<close>, the checksums of the zlib and zip
  formats that libten reads and writes.  \<open>mz_ulong\<close> is a 64-bit word, \<open>mz_uint32\<close> a 32-bit word, and a buffer a
  list of 8-bit words, absent for a null pointer.

  The first adds bytes into two 32-bit sums in blocks of 5552 and reduces them only between blocks; the second looks up
  four bits at a time in a table of sixteen entries.  The lemmas compare them with the definitions of RFC 1950 and of the
  bitwise CRC, and show that no sum ever wraps.
\<close>

unbundle bit_operations_syntax

section \<open>Adler-32\<close>

definition adler_add :: "u8 \<Rightarrow> u32 \<times> u32 \<Rightarrow> u32 \<times> u32" where
  "adler_add b s = (let s1 = fst s + ucast b in (s1, snd s + s1))"

text \<open>The loop over eight bytes at a time, then the one over what is left of the block.\<close>

function adler_ones :: "u8 list \<Rightarrow> nat \<Rightarrow> u32 \<times> u32 \<Rightarrow> u32 \<times> u32" where
  "adler_ones d i s = (if i < length d then adler_ones d (Suc i) (adler_add (d ! i) s) else s)"
  by pat_completeness auto
termination by (relation "measure (\<lambda>(d, i, s). length d - i)") auto

function adler_eights :: "u8 list \<Rightarrow> nat \<Rightarrow> u32 \<times> u32 \<Rightarrow> u32 \<times> u32" where
  "adler_eights d i s =
     (if i + 7 < length d
      then adler_eights d (i + 8)
        (adler_add (d ! (i + 7)) (adler_add (d ! (i + 6)) (adler_add (d ! (i + 5)) (adler_add (d ! (i + 4))
        (adler_add (d ! (i + 3)) (adler_add (d ! (i + 2)) (adler_add (d ! (i + 1)) (adler_add (d ! i) s))))))))
      else adler_ones d i s)"
  by pat_completeness auto
termination by (relation "measure (\<lambda>(d, i, s). length d - i)") auto

declare adler_ones.simps [simp del] adler_eights.simps [simp del]

function adler_blocks :: "nat \<Rightarrow> u8 list \<Rightarrow> u32 \<times> u32 \<Rightarrow> u32 \<times> u32" where
  "adler_blocks block_len d s =
     (if d = [] then s
      else case adler_eights (take block_len d) 0 s of (s1, s2) \<Rightarrow>
             adler_blocks 5552 (drop block_len d) (s1 mod 65521, s2 mod 65521))"
  by pat_completeness auto
termination
  by (relation "measure (\<lambda>(n, d, s). 2 * length d + (if n = 0 then 1 else 0))") auto

declare adler_blocks.simps [simp del]

definition mz_adler32 :: "u64 \<Rightarrow> u8 list option \<Rightarrow> u64" where
  "mz_adler32 adler ptr =
     (case ptr of
        None \<Rightarrow> 1
      | Some d \<Rightarrow>
          (case adler_blocks (length d mod 5552) d (ucast (adler AND 0xFFFF), ucast (drop_bit 16 adler)) of
             (s1, s2) \<Rightarrow> ucast (push_bit 16 s2 + s1)))"

section \<open>CRC-32\<close>

definition s_crc32 :: "u32 list" where
  "s_crc32 = [0, 0x1db71064, 0x3b6e20c8, 0x26d930ac, 0x76dc4190, 0x6b6b51f4, 0x4db26158, 0x5005713c,
     0xedb88320, 0xf00f9344, 0xd6d6a3e8, 0xcb61b38c, 0x9b64c2b0, 0x86d3d2d4, 0xa00ae278, 0xbdbdf21c]"

definition crc_nibble :: "u32 \<Rightarrow> u32 \<Rightarrow> u32" where
  "crc_nibble n c = drop_bit 4 c XOR s_crc32 ! unat ((c AND 0xF) XOR n)"

definition crc_byte :: "u8 \<Rightarrow> u32 \<Rightarrow> u32" where
  "crc_byte b c = crc_nibble (ucast (drop_bit 4 b)) (crc_nibble (ucast (b AND 0xF)) c)"

definition mz_crc32 :: "u64 \<Rightarrow> u8 list option \<Rightarrow> u64" where
  "mz_crc32 crc ptr =
     (case ptr of None \<Rightarrow> 0 | Some d \<Rightarrow> ucast (NOT (fold crc_byte d (NOT (ucast crc)))))"

section \<open>The sums do not wrap\<close>

lemma adler_ones_fold: "adler_ones d i s = fold adler_add (drop i d) s"
proof (induction d i s rule: adler_ones.induct)
  case (1 d i s)
  show ?case by (subst adler_ones.simps) (simp add: 1 Cons_nth_drop_Suc [symmetric])
qed

lemma drop_eight: "i + 7 < length d \<Longrightarrow> drop i d = d ! i # d ! (i + 1) # d ! (i + 2) # d ! (i + 3) # d ! (i + 4) # d ! (i + 5)
    # d ! (i + 6) # d ! (i + 7) # drop (i + 8) d"
  using Cons_nth_drop_Suc [of _ d] by (simp add: eval_nat_numeral)

lemma adler_eights_fold: "adler_eights d i s = fold adler_add (drop i d) s"
proof (induction d i s rule: adler_eights.induct)
  case (1 d i s)
  show ?case
  proof (cases "i + 7 < length d")
    case True
    then show ?thesis unfolding drop_eight [OF True] using 1 [OF True] by (subst adler_eights.simps) simp
  qed (simp add: adler_eights.simps [of d i] adler_ones_fold)
qed

text \<open>The sums without a bound, and how large a block makes them.\<close>

definition adler_sum :: "nat \<Rightarrow> nat \<times> nat \<Rightarrow> nat \<times> nat" where
  "adler_sum x s = (fst s + x, snd s + (fst s + x))"

lemma adler_sum_sel [simp]: "fst (adler_sum x s) = fst s + x" "snd (adler_sum x s) = snd s + (fst s + x)"
  by (simp_all add: adler_sum_def)

lemma adler_add_sel [simp]: "fst (adler_add x s) = fst s + ucast x" "snd (adler_add x s) = snd s + (fst s + ucast x)"
  by (simp_all add: adler_add_def Let_def)

lemma adler_sum_bound:
  "list_all (\<lambda>x. x \<le> 255) d \<Longrightarrow> fst (fold adler_sum d (a, b)) \<le> a + 255 * length d
     \<and> 2 * snd (fold adler_sum d (a, b)) \<le> 2 * b + 2 * length d * a + 255 * (length d * Suc (length d))"
proof (induction d rule: rev_induct)
  case (snoc x d)
  let ?s = "fold adler_sum d (a, b)"
  have ih: "fst ?s \<le> a + 255 * length d" "2 * snd ?s \<le> 2 * b + 2 * length d * a + 255 * (length d * Suc (length d))" "x \<le> 255"
    using snoc by (simp_all add: list_all_append)
  have "2 * (fst ?s + x) \<le> 2 * a + 510 * length d + 510" using ih by simp
  then show ?case using ih by (simp add: algebra_simps)
qed simp

definition nats :: "u32 \<times> u32 \<Rightarrow> nat \<times> nat" where
  "nats s = (unat (fst s), unat (snd s))"

lemma fits: "m < 2 ^ 32 \<Longrightarrow> unat (x :: u32) + unat (y :: u32) = m \<Longrightarrow> unat (x + y) = m"
  by (simp add: unat_word_ariths)

lemma byte_small: "unat (x :: u8) \<le> 255"
proof -
  have "unat x < 2 ^ 8" using unsigned_less [of x] by simp
  then show ?thesis by simp
qed

lemma byte_wide [simp]: "unat (ucast (x :: u8) :: u32) = unat x"
  using byte_small [of x] by (simp add: unsigned_ucast_eq take_bit_eq_mod)

lemma adler_no_wrap:
  assumes "length d \<le> 5552" and "unat s1 \<le> 65535" and "unat s2 \<le> 65535"
  shows "nats (fold adler_add d (s1, s2)) = fold adler_sum (map unat d) (unat s1, unat s2)"
  using assms(1)
proof (induction d rule: rev_induct)
  case (snoc x d)
  let ?s = "fold adler_add d (s1, s2)" and ?n = "fold adler_sum (map unat d) (unat s1, unat s2)"
  have ih: "unat (fst ?s) = fst ?n" "unat (snd ?s) = snd ?n" using snoc by (auto simp: nats_def prod_eq_iff)
  have bound: "fst (fold adler_sum (map unat (d @ [x])) (unat s1, unat s2)) \<le> unat s1 + 255 * length (map unat (d @ [x]))"
    "2 * snd (fold adler_sum (map unat (d @ [x])) (unat s1, unat s2)) \<le> 2 * unat s2 + 2 * length (map unat (d @ [x])) * unat s1
      + 255 * (length (map unat (d @ [x])) * Suc (length (map unat (d @ [x]))))"
    using adler_sum_bound [of "map unat (d @ [x])" "unat s1" "unat s2"] byte_small by (simp_all add: list_all_iff)
  let ?m = "fold adler_sum (map unat (d @ [x])) (unat s1, unat s2)"
  have len: "length d < 5552" using snoc.prems by simp
  have "2 * length (map unat (d @ [x])) * unat s1 \<le> 2 * 5552 * 65535" using len assms(2) by (intro mult_le_mono) simp_all
  moreover have "length (map unat (d @ [x])) * Suc (length (map unat (d @ [x]))) \<le> 5552 * 5553" using len by (intro mult_le_mono) simp_all
  ultimately have small: "fst ?m < 2 ^ 32" "snd ?m < 2 ^ 32" using bound assms(2,3) len by simp_all
  have m: "fst ?m = fst ?n + unat x" "snd ?m = snd ?n + fst ?m" by simp_all
  have one: "unat (fst ?s + ucast x) = fst ?m" by (rule fits [OF small(1)]) (use ih m in simp)
  have two: "unat (snd ?s + (fst ?s + ucast x)) = snd ?m" by (rule fits [OF small(2)]) (use ih m one in simp)
  show ?case unfolding nats_def prod_eq_iff using one two by simp
qed (simp add: nats_def)

text \<open>RFC 1950, section 8.2: both sums are kept modulo 65521 at every byte.\<close>

definition adler_rfc :: "nat \<Rightarrow> nat \<times> nat \<Rightarrow> nat \<times> nat" where
  "adler_rfc x s = (let s1 = (fst s + x) mod 65521 in (s1, (snd s + s1) mod 65521))"

definition reduced :: "nat \<times> nat \<Rightarrow> nat \<times> nat" where
  "reduced s = (fst s mod 65521, snd s mod 65521)"

lemma reduce_step: "adler_rfc x (reduced s) = reduced (adler_sum x s)"
  by (simp add: adler_rfc_def reduced_def Let_def mod_simps)

lemma reduce_sums: "fold adler_rfc d (reduced s) = reduced (fold adler_sum d s)"
  by (induction d arbitrary: s) (simp_all add: reduce_step)

lemma reduced_words: "nats (s1 mod 65521, s2 mod 65521) = reduced (nats (s1, s2))"
  by (simp add: nats_def reduced_def unat_mod)

definition adler_valid :: "nat \<times> nat \<Rightarrow> bool" where
  "adler_valid s \<longleftrightarrow> fst s < 65521 \<and> snd s < 65521"

lemma reduced_valid [simp]: "adler_valid (reduced s)" "adler_valid s \<Longrightarrow> reduced s = s"
  by (cases s, simp_all add: adler_valid_def reduced_def)

lemma adler_blocks_rfc:
  assumes "n \<le> 5552" and "adler_valid (nats s)"
  shows "nats (adler_blocks n d s) = fold adler_rfc (map unat d) (nats s)"
  using assms
proof (induction n d s rule: adler_blocks.induct)
  case (1 n d s)
  show ?case
  proof (cases "d = []")
    case True
    then show ?thesis by (subst adler_blocks.simps) simp
  next
    case False
    obtain s1 s2 where s: "fold adler_add (take n d) s = (s1, s2)" by fastforce
    obtain a b where ab: "s = (a, b)" by (cases s)
    have "nats (s1, s2) = fold adler_sum (map unat (take n d)) (nats s)"
      using adler_no_wrap [of "take n d" a b] "1.prems" s ab by (simp add: nats_def adler_valid_def)
    then have block: "nats (s1 mod 65521, s2 mod 65521) = fold adler_rfc (map unat (take n d)) (nats s)"
      using reduce_sums [of _ "nats s"] "1.prems"(2) by (simp add: reduced_words)
    have e: "adler_eights (take n d) 0 s = (s1, s2)" using s by (simp add: adler_eights_fold)
    have "nats (adler_blocks n d s) = nats (adler_blocks 5552 (drop n d) (s1 mod 65521, s2 mod 65521))"
      using False e by (subst adler_blocks.simps) simp
    also have "\<dots> = fold adler_rfc (map unat (drop n d)) (nats (s1 mod 65521, s2 mod 65521))"
      using "1.IH" [OF False e [symmetric]] by (simp add: reduced_words)
    also have "\<dots> = fold adler_rfc (map unat (take n d @ drop n d)) (nats s)" unfolding block by (simp del: append_take_drop_id)
    finally show ?thesis by simp
  qed
qed

definition adler_parts :: "nat \<Rightarrow> nat \<times> nat" where
  "adler_parts a = (a mod 65536, a div 65536)"

lemma adler_rfc_valid: "adler_valid s \<Longrightarrow> adler_valid (fold adler_rfc d s)"
  by (metis reduce_sums reduced_valid)

lemma adler_join:
  assumes "adler_valid (nats (s1, s2))"
  shows "unat (ucast (push_bit 16 s2 + s1) :: u64) = unat s2 * 65536 + unat s1"
proof -
  have v: "unat s1 < 65521" "unat s2 < 65521" using assms by (simp_all add: adler_valid_def nats_def)
  have "unat (push_bit 16 s2) = unat s2 * 65536" using v by (simp add: push_bit_eq_mult unat_word_ariths)
  then have "unat (push_bit 16 s2 + s1) = unat s2 * 65536 + unat s1" using v by (intro fits) simp_all
  then show ?thesis using v by (simp add: unsigned_ucast_eq take_bit_eq_mod)
qed

lemma adler_split:
  assumes "adler_valid (adler_parts (unat (a :: u64)))"
  shows "nats (ucast (a AND 0xFFFF), ucast (drop_bit 16 a)) = adler_parts (unat a)"
proof -
  have v: "unat a mod 65536 < 65521" "unat a div 65536 < 65521" using assms by (simp_all add: adler_valid_def adler_parts_def)
  have "a AND 0xFFFF = take_bit 16 a" by (simp add: take_bit_eq_mask mask_eq_exp_minus_1)
  then have "unat (a AND 0xFFFF) = unat a mod 65536" by (simp add: take_bit_eq_mod unat_mod)
  moreover have "unat (drop_bit 16 a) = unat a div 65536" by (simp add: drop_bit_eq_div unat_div)
  ultimately show ?thesis using v by (simp add: nats_def adler_parts_def unsigned_ucast_eq take_bit_eq_mod)
qed

section \<open>The table is the bitwise CRC\<close>

definition crc_bit :: "u32 \<Rightarrow> u32" where
  "crc_bit c = drop_bit 1 c XOR (if bit c 0 then 0xEDB88320 else 0)"

definition crc_bits :: "u8 \<Rightarrow> u32 \<Rightarrow> u32" where
  "crc_bits b c = (crc_bit ^^ 8) (c XOR ucast b)"

lemma crc_bit_xor: "crc_bit (x XOR y) = crc_bit x XOR crc_bit y"
  by (auto simp: crc_bit_def drop_bit_xor bit_xor_iff ac_simps)

lemma crc_bit_pow_xor: "(crc_bit ^^ n) (x XOR y) = (crc_bit ^^ n) x XOR (crc_bit ^^ n) y"
  by (induction n) (simp_all add: crc_bit_xor)

lemma crc_bit_even: "take_bit n x = 0 \<Longrightarrow> (crc_bit ^^ n) x = drop_bit n x"
proof (induction n arbitrary: x)
  case (Suc n)
  have b: "\<not> bit x k" if "k < Suc n" for k using Suc.prems that by (metis bit_0_eq bit_take_bit_iff bot_apply bot_bool_def)
  have "take_bit n (drop_bit 1 x) = 0" by (rule bit_eqI) (use b in \<open>auto simp: bit_take_bit_iff bit_drop_bit_eq\<close>)
  moreover have "crc_bit x = drop_bit 1 x" using b [of 0] by (simp add: crc_bit_def)
  ultimately show ?case using Suc.IH [of "drop_bit 1 x"] by (simp add: funpow_Suc_right del: funpow.simps)
qed simp

lemma crc_table: "list_all (\<lambda>k. crc_bit (crc_bit (crc_bit (crc_bit (of_nat k)))) = s_crc32 ! k) [0..<16]"
  by code_simp

lemma crc_nibble_bits:
  assumes "n = take_bit 4 n"
  shows "crc_nibble n c = (crc_bit ^^ 4) (c XOR n)"
proof -
  let ?x = "c XOR n"
  define lo where "lo = take_bit 4 ?x"
  have lo: "(c AND 0xF) XOR n = lo" "unat lo < 16"
  proof -
    have "c AND 0xF = take_bit 4 c" by (simp add: take_bit_eq_mask mask_eq_exp_minus_1)
    then show "(c AND 0xF) XOR n = lo" unfolding lo_def using assms by (metis take_bit_xor)
    show "unat lo < 16" by (simp add: lo_def take_bit_eq_mod unat_mod)
  qed
  have "(crc_bit ^^ 4) lo = s_crc32 ! unat lo"
  proof -
    have "crc_bit (crc_bit (crc_bit (crc_bit (of_nat (unat lo))))) = s_crc32 ! unat lo"
      using crc_table lo(2) unfolding list_all_iff set_upt by (metis atLeastLessThan_iff le0)
    then show ?thesis by (simp add: numeral_eq_Suc)
  qed
  moreover have "(crc_bit ^^ 4) (?x XOR lo) = drop_bit 4 ?x"
  proof -
    have "take_bit 4 (?x XOR lo) = 0" by (simp add: lo_def)
    moreover have "drop_bit 4 (?x XOR lo) = drop_bit 4 ?x"
      by (rule bit_eqI) (simp add: bit_drop_bit_eq bit_xor_iff lo_def bit_take_bit_iff)
    ultimately show ?thesis using crc_bit_even [of 4 "?x XOR lo"] by simp
  qed
  moreover have "drop_bit 4 ?x = drop_bit 4 c"
    by (subst assms, rule bit_eqI) (auto simp: bit_drop_bit_eq bit_xor_iff bit_take_bit_iff)
  moreover have "(crc_bit ^^ 4) ?x = (crc_bit ^^ 4) (?x XOR lo) XOR (crc_bit ^^ 4) lo"
    unfolding crc_bit_pow_xor [symmetric] by (simp add: xor.assoc)
  ultimately show ?thesis by (simp add: crc_nibble_def lo(1))
qed

lemma crc_byte_bits: "crc_byte b c = crc_bits b c"
proof -
  define lo hi :: u32 where "lo = ucast (b AND 0xF)" and "hi = ucast (drop_bit 4 b)"
  have four: "b AND 0xF = take_bit 4 b" by (simp add: take_bit_eq_mask mask_eq_exp_minus_1)
  have small: "bit b n \<Longrightarrow> n < 8" for n using bit_imp_le_length [of b n] by simp
  have hi: "bit hi n \<Longrightarrow> n < 4" for n using small [of "4 + n"] by (auto simp: hi_def bit_ucast_iff bit_drop_bit_eq)
  have n: "lo = take_bit 4 lo" "hi = take_bit 4 hi"
    by (rule bit_eqI, auto simp: lo_def bit_take_bit_iff four bit_ucast_iff) (auto intro!: bit_eqI simp: bit_take_bit_iff hi)
  have "ucast b = lo XOR push_bit 4 hi"
    by (auto intro!: bit_eqI simp: lo_def hi_def bit_xor_iff bit_push_bit_iff bit_take_bit_iff four bit_ucast_iff bit_drop_bit_eq)
  moreover have "take_bit 4 (push_bit 4 hi) = 0" by (rule bit_eqI) (simp add: bit_take_bit_iff bit_push_bit_iff)
  moreover have "drop_bit 4 (push_bit 4 hi) = hi" by (rule bit_eqI) (auto simp: bit_push_bit_iff bit_drop_bit_eq dest: hi)
  ultimately have "(crc_bit ^^ 4) (c XOR ucast b) = (crc_bit ^^ 4) (c XOR lo) XOR hi"
    using crc_bit_even [of 4 "push_bit 4 hi"] by (simp add: crc_bit_pow_xor xor.assoc)
  moreover have "(crc_bit ^^ 8) x = (crc_bit ^^ 4) ((crc_bit ^^ 4) x)" for x using funpow_add [of 4 4 crc_bit] by simp
  ultimately show ?thesis
    using crc_nibble_bits [OF n(1)] crc_nibble_bits [OF n(2)] by (simp add: crc_byte_def crc_bits_def lo_def hi_def)
qed

lemma crc_bit_inj: "crc_bit x = crc_bit y \<Longrightarrow> x = y"
proof -
  assume e: "crc_bit x = crc_bit y"
  have top: "bit (crc_bit z) 31 = bit z 0" for z
  proof -
    have "\<not> bit z 32" using bit_imp_le_length [of z 32] by auto
    moreover have "bit (0xEDB88320 :: u32) 31" by code_simp
    ultimately show ?thesis by (simp add: crc_bit_def bit_xor_iff bit_drop_bit_eq)
  qed
  have b: "bit x 0 = bit y 0" using top [of x] top [of y] e by simp
  have "drop_bit 1 z = crc_bit z XOR (if bit z 0 then 0xEDB88320 else 0)" for z by (simp add: crc_bit_def xor.assoc)
  then have d: "drop_bit 1 x = drop_bit 1 y" using e b by metis
  show "x = y"
  proof (rule bit_eqI)
    fix n show "bit x n = bit y n"
      using b arg_cong [OF d, of "\<lambda>w. bit w (n - 1)"] by (cases n) (simp_all add: bit_drop_bit_eq)
  qed
qed

lemma xor_cancel: "x XOR u = y XOR u \<Longrightarrow> x = y" for x y u :: u32
proof -
  assume "x XOR u = y XOR u"
  then have "(x XOR u) XOR u = (y XOR u) XOR u" by (rule arg_cong)
  then show "x = y" unfolding xor.assoc by simp
qed

lemma crc_bits_inj: "crc_bits b x = crc_bits b y \<Longrightarrow> x = y" "crc_bits a x = crc_bits b x \<Longrightarrow> a = b"
proof -
  have "inj (crc_bit ^^ 8)" by (rule inj_fn) (use crc_bit_inj in \<open>auto intro!: injI\<close>)
  then have cancel: "crc_bits a x = crc_bits b y \<Longrightarrow> x XOR ucast a = y XOR ucast b" for a b x y
    by (auto simp: crc_bits_def dest: injD)
  show "crc_bits b x = crc_bits b y \<Longrightarrow> x = y" using cancel [of b x b y] by (auto dest: xor_cancel)
  assume "crc_bits a x = crc_bits b x"
  then have "(ucast a :: u32) = ucast b" using cancel [of a x b x] xor_cancel [of "ucast a" x "ucast b"] by (simp add: xor.commute)
  then show "a = b" by (metis byte_wide word_unat_eq_iff)
qed

lemma crc_fold_inj: "fold crc_bits d x = fold crc_bits d y \<Longrightarrow> x = y"
  by (induction d arbitrary: x y) (auto dest: crc_bits_inj(1))

section \<open>Properties\<close>

text \<open>
  C27: \<open>mz_adler32\<close> computes the Adler-32 checksum of RFC 1950.  Continuing from any checksum, the two halves of the result are the sums
  of the RFC, reduced modulo 65521 at every byte, although the code reduces them once in 5552 bytes: its 32-bit sums do not wrap in
  between.  Without a buffer it gives the initial value.
\<close>

theorem adler32_rfc1950:
  assumes "adler_valid (adler_parts (unat a))"
  shows "adler_parts (unat (mz_adler32 a (Some d))) = fold adler_rfc (map unat d) (adler_parts (unat a)) \<and> unat (mz_adler32 a None) = 1"
proof -
  obtain s1 s2 where s: "adler_blocks (length d mod 5552) d (ucast (a AND 0xFFFF), ucast (drop_bit 16 a)) = (s1, s2)" by fastforce
  have sums: "nats (s1, s2) = fold adler_rfc (map unat d) (adler_parts (unat a))"
    using adler_blocks_rfc [of "length d mod 5552" "(ucast (a AND 0xFFFF), ucast (drop_bit 16 a))" d] adler_split [OF assms] assms s by simp
  then have v: "adler_valid (nats (s1, s2))" using adler_rfc_valid [OF assms] by simp
  then have "adler_parts (unat s2 * 65536 + unat s1) = nats (s1, s2)" by (simp add: adler_parts_def nats_def adler_valid_def)
  then show ?thesis using sums adler_join [OF v] s by (simp add: mz_adler32_def)
qed

theorem adler32_rfc1950_witness:
  "adler_parts (unat (mz_adler32 1 (Some [0x61, 0x62, 0x63]))) = fold adler_rfc (map unat [0x61, 0x62, 0x63 :: u8]) (adler_parts (unat (1 :: u64)))
     \<and> unat (mz_adler32 1 None) = 1 \<and> fold adler_rfc (map unat [0x61, 0x62, 0x63 :: u8]) (adler_parts (unat (1 :: u64))) = (295, 589)"
proof -
  have one: "adler_parts (unat (1 :: u64)) = (1, 0)" by (simp add: adler_parts_def)
  have "fold adler_rfc (map unat [0x61, 0x62, 0x63 :: u8]) (1, 0) = (295, 589)" by (simp add: adler_rfc_def)
  then show ?thesis using adler32_rfc1950 [of 1 "[0x61, 0x62, 0x63]"] one by (simp add: adler_valid_def)
qed

text \<open>
  C26: \<open>mz_crc32\<close>, which looks up half bytes in a table of sixteen entries, is the CRC-32 with the reversed polynomial EDB88320 taken bit by bit.
  A checksum can be continued over a further buffer, and two buffers that differ in a single byte have different checksums.
\<close>

theorem crc32_bitwise:
  "mz_crc32 c (Some d) = ucast (NOT (fold crc_bits d (NOT (ucast c))))
   \<and> mz_crc32 (mz_crc32 c (Some x)) (Some y) = mz_crc32 c (Some (x @ y))
   \<and> (mz_crc32 c (Some (x @ a # y)) = mz_crc32 c (Some (x @ b # y)) \<longleftrightarrow> a = b)"
proof -
  have f: "fold crc_byte = fold crc_bits" by (rule ext) (simp add: crc_byte_bits [abs_def])
  have u: "(ucast (ucast (w :: u32) :: u64) :: u32) = w" for w by (rule bit_eqI) (auto simp: bit_ucast_iff)
  have "mz_crc32 c (Some (x @ a # y)) = mz_crc32 c (Some (x @ b # y)) \<Longrightarrow> a = b"
  proof -
    assume "mz_crc32 c (Some (x @ a # y)) = mz_crc32 c (Some (x @ b # y))"
    then have "fold crc_bits (x @ a # y) (NOT (ucast c)) = fold crc_bits (x @ b # y) (NOT (ucast c))"
      unfolding mz_crc32_def f option.case using u by (metis bit.double_compl)
    then show "a = b" by (auto dest!: crc_fold_inj crc_bits_inj(2))
  qed
  then show ?thesis by (auto simp: mz_crc32_def f u)
qed

end
