(* ===== verification/Work_Deque.thy ===== *)
theory Work_Deque
  imports Ten_Prelude "HOL-Library.Multiset"
begin

text \<open>
  \<open>work_deque\<close> of \<open>include/ten/work_deque.hh\<close>, the work-stealing deque of Chase and Lev: its owner pushes and takes at
  the bottom, other threads steal at the top.

  First the three operations as one thread executes them, on 64-bit indices and a circular array whose length is a power of
  two; a cell of the array that was never written is \<^const>\<open>None\<close>.  The constructor's argument is the exponent that it computes
  as \<open>(size_t)std::log(size)\<close>.  Then \<open>push\<close>, \<open>take\<close> and \<open>steal\<close> as sequences of atomic steps of one owner and any
  number of thieves.  All accesses are sequentially consistent but one: \<open>take\<close> stores the bottom with
  \<open>memory_order_release\<close>, so other threads may see this store later than the owner's next load of the top.  The
  machine has it both ways: with \<open>weak\<close> the store stays pending until it is committed, or until the next sequentially
  consistent store of the owner; without, it is seen at once.  A push that has to grow the array is left out of the
  interleaving.
\<close>

section \<open>The operations of one thread\<close>

record 'a wd =
  wd_top :: u64
  wd_bottom :: u64
  wd_exp :: nat
  wd_buf :: "'a option list"

definition array_new :: "nat \<Rightarrow> 'a option list" where
  "array_new k = replicate (2 ^ k) None"

definition array_put :: "u64 \<Rightarrow> 'a option \<Rightarrow> 'a option list \<Rightarrow> 'a option list" where
  "array_put i v buf = buf[unat i mod length buf := v]"

definition array_get :: "u64 \<Rightarrow> 'a option list \<Rightarrow> 'a option" where
  "array_get i buf = buf ! (unat i mod length buf)"

lemma word_Suc: "x < y \<Longrightarrow> unat (x + 1) = Suc (unat x)" for x y :: u64
proof -
  assume "x < y"
  moreover have "unat y < 2 ^ LENGTH(64)" by (rule unsigned_less)
  ultimately have "Suc (unat x) < 2 ^ 64" by (simp add: word_less_nat_alt)
  then show ?thesis by (simp add: unat_word_ariths)
qed

function grow_loop :: "u64 \<Rightarrow> u64 \<Rightarrow> 'a option list \<Rightarrow> 'a option list \<Rightarrow> 'a option list" where
  "grow_loop i bt old buf =
     (if i < bt then grow_loop (i + 1) bt old (array_put i (array_get i old) buf) else buf)"
  by pat_completeness auto
termination
proof (relation "measure (\<lambda>(i, bt, old, buf). unat bt - unat i)", goal_cases)
  case (2 i bt old buf)
  have "unat i < unat bt" using 2 by (simp add: word_less_nat_alt)
  moreover have "unat (i + 1) = Suc (unat i)" using 2 by (rule word_Suc)
  ultimately show ?case by simp
qed simp

declare grow_loop.simps [simp del]

definition grow :: "u64 \<Rightarrow> u64 \<Rightarrow> nat \<Rightarrow> 'a option list \<Rightarrow> 'a option list" where
  "grow tp bt k old = grow_loop tp bt old (array_new (Suc k))"

definition wd_new :: "nat \<Rightarrow> 'a wd" where
  "wd_new k = \<lparr>wd_top = 0, wd_bottom = 0, wd_exp = k, wd_buf = array_new k\<rparr>"

definition wd_push :: "'a \<Rightarrow> 'a wd \<Rightarrow> 'a wd" where
  "wd_push x d =
     (let b = wd_bottom d; t = wd_top d; len = of_nat (length (wd_buf d));
          d1 = (if len - 1 < b - t
                then let buf = grow t b (wd_exp d) (wd_buf d); ss = of_nat (length buf)
                     in d\<lparr>wd_exp := Suc (wd_exp d), wd_buf := buf, wd_bottom := b + ss, wd_top := t + ss\<rparr>
                else d);
          b1 = wd_bottom d1
      in d1\<lparr>wd_buf := array_put b1 (Some x) (wd_buf d1), wd_bottom := b1 + 1\<rparr>)"

definition wd_take :: "'a wd \<Rightarrow> 'a option option \<times> 'a wd" where
  "wd_take d =
     (let b = wd_bottom d - 1; t = wd_top d; d1 = d\<lparr>wd_bottom := b\<rparr>
      in if t \<le> b
         then let x = array_get b (wd_buf d)
              in if t = b then (Some x, d1\<lparr>wd_top := t + 1, wd_bottom := b + 1\<rparr>) else (Some x, d1)
         else (None, d1\<lparr>wd_bottom := b + 1\<rparr>))"

text \<open>The first component of the result is false when a race was lost, which one thread alone cannot do.\<close>

definition wd_steal :: "'a wd \<Rightarrow> (bool \<times> 'a option option) \<times> 'a wd" where
  "wd_steal d =
     (let t = wd_top d; b = wd_bottom d; sz = b - t
      in if sint sz \<le> 0 then ((True, None), d)
         else if sz mod of_nat (length (wd_buf d)) = 0 then ((True, None), d)
         else ((True, Some (array_get t (wd_buf d))), d\<lparr>wd_top := t + 1\<rparr>))"

section \<open>What one thread sees\<close>

definition cell :: "nat \<Rightarrow> 'a option list \<Rightarrow> 'a option" where
  "cell i buf = buf ! (i mod length buf)"

definition wd_items :: "'a wd \<Rightarrow> 'a option list" where
  "wd_items d = map (\<lambda>i. cell i (wd_buf d)) [unat (wd_top d)..<unat (wd_bottom d)]"

definition wd_ok :: "'a wd \<Rightarrow> bool" where
  "wd_ok d \<longleftrightarrow> length (wd_buf d) = 2 ^ wd_exp d \<and> wd_exp d < 62 \<and> unat (wd_top d) \<le> unat (wd_bottom d)
     \<and> unat (wd_bottom d) - unat (wd_top d) \<le> length (wd_buf d)"

text \<open>The indices stay clear of the end of the 64-bit range, also when the array grows.\<close>

definition wd_room :: "'a wd \<Rightarrow> bool" where
  "wd_room d \<longleftrightarrow> wd_exp d < 61 \<and> unat (wd_bottom d) + 2 * length (wd_buf d) + 1 < 2 ^ 64"

lemma word_plus: "unat (x :: u64) + n < 2 ^ 64 \<Longrightarrow> unat (x + of_nat n) = unat x + n"
  by (simp add: unat_word_ariths unat_of_nat)

lemma word_minus: "unat y \<le> unat x \<Longrightarrow> unat (x - y :: u64) = unat x - unat y"
  by (simp add: unat_sub_if_size word_le_nat_alt)

lemma mod_apart: "i < j \<Longrightarrow> j < i + n \<Longrightarrow> i mod n \<noteq> j mod n" for i j n :: nat
proof
  assume a: "i < j" "j < i + n" "i mod n = j mod n"
  then have "n dvd j - i" using mod_eq_dvd_iff_nat [of i j n] by simp
  then show False using a(1,2) by (auto dest: dvd_imp_le)
qed

lemma length_put [simp]: "length (array_put i v buf) = length buf"
  by (simp add: array_put_def)

lemma cell_put:
  "buf \<noteq> [] \<Longrightarrow> cell (unat i) (array_put i v buf) = v"
  "j \<noteq> unat i \<Longrightarrow> j < unat i + length buf \<Longrightarrow> unat i < j + length buf \<Longrightarrow> cell j (array_put i v buf) = cell j buf"
proof -
  show "buf \<noteq> [] \<Longrightarrow> cell (unat i) (array_put i v buf) = v" by (simp add: cell_def array_put_def)
  assume "j \<noteq> unat i" "j < unat i + length buf" "unat i < j + length buf"
  then have "unat i mod length buf \<noteq> j mod length buf"
    using mod_apart [of "unat i" j "length buf"] mod_apart [of j "unat i" "length buf"] by (metis linorder_neqE_nat)
  then show "cell j (array_put i v buf) = cell j buf" by (simp add: cell_def array_put_def)
qed

lemma array_get_cell: "array_get i buf = cell (unat i) buf"
  by (simp add: array_get_def cell_def)

lemma length_grow_loop [simp]: "length (grow_loop i bt old buf) = length buf"
proof (induction i bt old buf rule: grow_loop.induct)
  case (1 i bt old buf)
  then show ?case by (subst grow_loop.simps) simp
qed

lemma grow_loop_cells:
  assumes "j < unat bt" and "unat bt \<le> j + length buf" and "unat i \<le> unat bt"
  shows "cell j (grow_loop i bt old buf) = (if unat i \<le> j then cell j old else cell j buf)"
  using assms
proof (induction i bt old buf rule: grow_loop.induct)
  case (1 i bt old buf)
  show ?case
  proof (cases "i < bt")
    case True
    have i: "unat i < unat bt" "unat (i + 1) = Suc (unat i)" using True by (simp_all add: word_less_nat_alt word_Suc)
    have "cell j (grow_loop i bt old buf) = (if Suc (unat i) \<le> j then cell j old else cell j (array_put i (array_get i old) buf))"
      using "1.IH" [OF True] "1.prems" True i by (subst grow_loop.simps) simp
    moreover have "buf \<noteq> []" using "1.prems"(1,2) by auto
    ultimately show ?thesis
      using cell_put(1) [of buf i "array_get i old"] cell_put(2) [of j i buf "array_get i old"] "1.prems" i
      by (cases "j = unat i") (auto simp: array_get_cell)
  next
    case False
    then have "unat bt \<le> unat i" by (simp add: word_less_nat_alt)
    then show ?thesis using "1.prems" False by (subst grow_loop.simps) simp
  qed
qed

lemma grow_items:
  assumes "wd_ok d"
  shows "map (\<lambda>i. cell i (grow (wd_top d) (wd_bottom d) (wd_exp d) (wd_buf d))) [unat (wd_top d)..<unat (wd_bottom d)] = wd_items d"
proof -
  have len: "length (array_new (Suc (wd_exp d)) :: 'a option list) = 2 * length (wd_buf d)" using assms by (simp add: array_new_def wd_ok_def)
  have "cell i (grow (wd_top d) (wd_bottom d) (wd_exp d) (wd_buf d)) = cell i (wd_buf d)"
    if "unat (wd_top d) \<le> i" "i < unat (wd_bottom d)" for i
  proof -
    have "unat (wd_bottom d) \<le> i + 2 * length (wd_buf d)" using that assms by (auto simp: wd_ok_def)
    then show ?thesis
      using grow_loop_cells [of i "wd_bottom d" "array_new (Suc (wd_exp d))" "wd_top d" "wd_buf d"] that assms len
      by (simp add: grow_def wd_ok_def)
  qed
  then show ?thesis by (simp add: wd_items_def)
qed

lemma cell_shift: "cell (i + length buf) buf = cell i buf"
  by (simp add: cell_def)

lemma items_shift: "map (\<lambda>i. cell i buf) [a + length buf..<b + length buf] = map (\<lambda>i. cell i buf) [a..<b]"
proof (rule nth_equalityI)
  fix i assume "i < length (map (\<lambda>i. cell i buf) [a + length buf..<b + length buf])"
  moreover have "cell (a + length buf + i) buf = cell (a + i) buf" using cell_shift [of "a + i" buf] by (simp add: ac_simps)
  ultimately show "map (\<lambda>i. cell i buf) [a + length buf..<b + length buf] ! i = map (\<lambda>i. cell i buf) [a..<b] ! i"
    by simp
qed simp

text \<open>Putting an item at the bottom of an array that has a place left.\<close>

lemma put_items:
  assumes "unat (wd_top d) \<le> unat (wd_bottom d)" and "unat (wd_bottom d) - unat (wd_top d) < length (wd_buf d)"
    and "unat (wd_bottom d) + 1 < 2 ^ 64" and "length (wd_buf d) = 2 ^ wd_exp d" and "wd_exp d < 62"
  shows "wd_ok (d\<lparr>wd_buf := array_put (wd_bottom d) (Some x) (wd_buf d), wd_bottom := wd_bottom d + 1\<rparr>)"
    and "wd_items (d\<lparr>wd_buf := array_put (wd_bottom d) (Some x) (wd_buf d), wd_bottom := wd_bottom d + 1\<rparr>) = wd_items d @ [Some x]"
proof -
  have b: "unat (wd_bottom d + 1) = Suc (unat (wd_bottom d))" using word_plus [of "wd_bottom d" 1] assms(3) by simp
  have "wd_buf d \<noteq> []" using assms(2) by auto
  then have "cell (unat (wd_bottom d)) (array_put (wd_bottom d) (Some x) (wd_buf d)) = Some x" by (rule cell_put(1))
  moreover have "cell i (array_put (wd_bottom d) (Some x) (wd_buf d)) = cell i (wd_buf d)"
    if "unat (wd_top d) \<le> i" "i < unat (wd_bottom d)" for i
    by (rule cell_put(2)) (use that assms in auto)
  ultimately show "wd_items (d\<lparr>wd_buf := array_put (wd_bottom d) (Some x) (wd_buf d), wd_bottom := wd_bottom d + 1\<rparr>) = wd_items d @ [Some x]"
    using assms(1) b by (simp add: wd_items_def)
  show "wd_ok (d\<lparr>wd_buf := array_put (wd_bottom d) (Some x) (wd_buf d), wd_bottom := wd_bottom d + 1\<rparr>)"
    using assms b by (auto simp: wd_ok_def)
qed

lemma grow_test:
  assumes "wd_ok d"
  shows "(of_nat (length (wd_buf d)) - 1 < wd_bottom d - wd_top d) \<longleftrightarrow> unat (wd_bottom d) - unat (wd_top d) = length (wd_buf d)"
proof -
  have k: "wd_exp d < 62" "length (wd_buf d) = 2 ^ wd_exp d" using assms by (simp_all add: wd_ok_def)
  have "(2 :: nat) ^ wd_exp d < 2 ^ 62" using k(1) by (intro power_strict_increasing) simp_all
  then have l: "length (wd_buf d) < 2 ^ 62" "0 < length (wd_buf d)" using k(2) by simp_all
  have "unat (of_nat (length (wd_buf d)) - 1 :: u64) = length (wd_buf d) - 1"
  proof -
    have "unat (of_nat (length (wd_buf d)) :: u64) = length (wd_buf d)" using l(1) by (simp add: unat_of_nat)
    moreover have "Suc 0 \<le> length (wd_buf d)" using l(2) by linarith
    ultimately show ?thesis using word_minus [of 1 "of_nat (length (wd_buf d))"] by simp
  qed
  then show ?thesis using assms l word_minus [of "wd_top d" "wd_bottom d"] by (auto simp: wd_ok_def word_less_nat_alt)
qed

lemma push_correct:
  assumes "wd_ok d" and "wd_room d"
  shows "wd_ok (wd_push x d) \<and> wd_items (wd_push x d) = wd_items d @ [Some x]"
proof (cases "unat (wd_bottom d) - unat (wd_top d) = length (wd_buf d)")
  case False
  then have "wd_push x d = d\<lparr>wd_buf := array_put (wd_bottom d) (Some x) (wd_buf d), wd_bottom := wd_bottom d + 1\<rparr>"
    using grow_test [OF assms(1)] by (simp add: wd_push_def Let_def)
  then show ?thesis using put_items [of d x] assms False by (auto simp: wd_ok_def wd_room_def)
next
  case True
  define buf where "buf = grow (wd_top d) (wd_bottom d) (wd_exp d) (wd_buf d)"
  define e where "e = d\<lparr>wd_exp := Suc (wd_exp d), wd_buf := buf, wd_bottom := wd_bottom d + of_nat (length buf), wd_top := wd_top d + of_nat (length buf)\<rparr>"
  have len: "length buf = 2 * length (wd_buf d)" "0 < length (wd_buf d)" using assms(1) by (simp_all add: buf_def grow_def array_new_def wd_ok_def)
  have e: "unat (wd_bottom e) = unat (wd_bottom d) + length buf" "unat (wd_top e) = unat (wd_top d) + length buf"
    using word_plus [of "wd_bottom d" "length buf"] word_plus [of "wd_top d" "length buf"] assms len by (simp_all add: e_def wd_ok_def wd_room_def)
  have "wd_items e = wd_items d"
  proof -
    have "wd_items e = map (\<lambda>i. cell i buf) [unat (wd_top d) + length buf..<unat (wd_bottom d) + length buf]"
      unfolding wd_items_def e by (simp add: e_def)
    then show ?thesis unfolding items_shift using grow_items [OF assms(1)] by (simp add: buf_def)
  qed
  moreover have "wd_push x d = e\<lparr>wd_buf := array_put (wd_bottom e) (Some x) (wd_buf e), wd_bottom := wd_bottom e + 1\<rparr>"
    using grow_test [OF assms(1)] True by (simp add: wd_push_def Let_def e_def buf_def)
  moreover have "unat (wd_bottom e) - unat (wd_top e) < length (wd_buf e)" "unat (wd_bottom e) + 1 < 2 ^ 64"
    "length (wd_buf e) = 2 ^ wd_exp e" "wd_exp e < 62"
    using True e len assms by (simp_all add: e_def wd_ok_def wd_room_def)
  ultimately show ?thesis using put_items [of e x] e assms(1) by (simp add: wd_ok_def)
qed

lemma items_length [simp]: "length (wd_items d) = unat (wd_bottom d) - unat (wd_top d)"
  by (simp add: wd_items_def)

lemma items_empty: "wd_items d = [] \<longleftrightarrow> unat (wd_bottom d) \<le> unat (wd_top d)"
  by (auto simp: wd_items_def)

lemma take_correct:
  assumes "wd_ok d" and "wd_bottom d \<noteq> 0"
  shows "fst (wd_take d) = (if wd_items d = [] then None else Some (last (wd_items d)))
    \<and> wd_ok (snd (wd_take d)) \<and> wd_items (snd (wd_take d)) = butlast (wd_items d)"
proof -
  define n where "n = unat (wd_bottom d - 1)"
  have "unat (wd_bottom d) \<noteq> 0" using assms(2) by (simp add: unat_eq_zero)
  then have b: "unat (wd_bottom d) = Suc n" using word_minus [of 1 "wd_bottom d"] by (simp add: n_def)
  have t: "unat (wd_top d) \<le> Suc n" using assms(1) b by (simp add: wd_ok_def)
  consider "unat (wd_top d) = Suc n" | "unat (wd_top d) = n" | "unat (wd_top d) < n" using t by linarith
  then show ?thesis
  proof cases
    case 1
    then have "wd_take d = (None, d)" by (simp add: wd_take_def Let_def word_le_nat_alt n_def)
    moreover have "wd_items d = []" using 1 b by (simp add: items_empty)
    ultimately show ?thesis using assms(1) by simp_all
  next
    case 2
    then have "wd_top d = wd_bottom d - 1" by (simp add: n_def word_unat_eq_iff)
    then have "wd_take d = (Some (cell n (wd_buf d)), d\<lparr>wd_top := wd_bottom d\<rparr>)"
      by (cases d) (simp add: wd_take_def Let_def array_get_cell n_def)
    moreover have "wd_items d = [cell n (wd_buf d)]" using 2 b by (simp add: wd_items_def)
    ultimately show ?thesis
      using assms(1) by (simp_all add: wd_ok_def wd_items_def)
  next
    case 3
    then have "wd_take d = (Some (cell n (wd_buf d)), d\<lparr>wd_bottom := wd_bottom d - 1\<rparr>)"
      by (auto simp: wd_take_def Let_def word_le_nat_alt n_def array_get_cell)
    moreover have "wd_items d = wd_items (d\<lparr>wd_bottom := wd_bottom d - 1\<rparr>) @ [cell n (wd_buf d)]"
      using 3 b by (simp add: wd_items_def n_def)
    ultimately show ?thesis
      using assms(1) 3 b by (auto simp: wd_ok_def n_def)
  qed
qed

lemma steal_test:
  assumes "wd_ok d"
  shows "sint (wd_bottom d - wd_top d) \<le> 0 \<or> (wd_bottom d - wd_top d) mod of_nat (length (wd_buf d)) = 0 \<longleftrightarrow>
    wd_items d = [] \<or> length (wd_items d) = length (wd_buf d)"
proof -
  let ?n = "unat (wd_bottom d) - unat (wd_top d)" and ?l = "length (wd_buf d)"
  have k: "wd_exp d < 62" "?l = 2 ^ wd_exp d" "?n \<le> ?l" "unat (wd_top d) \<le> unat (wd_bottom d)" using assms by (simp_all add: wd_ok_def)
  have "(2 :: nat) ^ wd_exp d < 2 ^ 62" using k(1) by (intro power_strict_increasing) simp_all
  then have l: "?l < 2 ^ 62" using k(2) by simp
  have n: "unat (wd_bottom d - wd_top d) = ?n" by (rule word_minus [OF k(4)])
  have "sint (wd_bottom d - wd_top d) = int ?n" unfolding n [symmetric] by (rule sint_small) (use n k(3) l in simp)
  moreover have "(wd_bottom d - wd_top d) mod of_nat ?l = 0 \<longleftrightarrow> ?n mod ?l = 0"
  proof -
    have "unat ((wd_bottom d - wd_top d) mod of_nat ?l) = ?n mod ?l" using n l by (simp add: unat_mod unat_of_nat)
    then show ?thesis by (metis unat_eq_zero)
  qed
  moreover have "?n mod ?l = 0 \<longleftrightarrow> ?n = 0 \<or> ?n = ?l"
    using k(2,3) by (auto simp: le_less)
  ultimately show ?thesis by (auto simp: items_empty)
qed

lemma steal_correct:
  assumes "wd_ok d"
  shows "wd_steal d = (if wd_items d = [] \<or> length (wd_items d) = length (wd_buf d) then ((True, None), d)
      else ((True, Some (hd (wd_items d))), d\<lparr>wd_top := wd_top d + 1\<rparr>))"
    and "wd_items d \<noteq> [] \<Longrightarrow> wd_ok (d\<lparr>wd_top := wd_top d + 1\<rparr>) \<and> wd_items (d\<lparr>wd_top := wd_top d + 1\<rparr>) = tl (wd_items d)"
proof -
  have first: "wd_items d = cell (unat (wd_top d)) (wd_buf d) # map (\<lambda>i. cell i (wd_buf d)) [Suc (unat (wd_top d))..<unat (wd_bottom d)]"
    if "wd_items d \<noteq> []" using that by (simp add: wd_items_def upt_conv_Cons)
  show "wd_steal d = (if wd_items d = [] \<or> length (wd_items d) = length (wd_buf d) then ((True, None), d)
      else ((True, Some (hd (wd_items d))), d\<lparr>wd_top := wd_top d + 1\<rparr>))"
  proof -
    have "wd_steal d = (if sint (wd_bottom d - wd_top d) \<le> 0 \<or> (wd_bottom d - wd_top d) mod of_nat (length (wd_buf d)) = 0 then ((True, None), d)
        else ((True, Some (cell (unat (wd_top d)) (wd_buf d))), d\<lparr>wd_top := wd_top d + 1\<rparr>))"
      by (simp add: wd_steal_def Let_def array_get_cell)
    then show ?thesis unfolding steal_test [OF assms] using first by auto
  qed
  assume ne: "wd_items d \<noteq> []"
  then have lt: "unat (wd_top d) < unat (wd_bottom d)" by (simp add: items_empty)
  then have t: "unat (wd_top d + 1) = Suc (unat (wd_top d))" by (intro word_Suc [of _ "wd_bottom d"]) (simp add: word_less_nat_alt)
  have "wd_ok (d\<lparr>wd_top := wd_top d + 1\<rparr>)" using assms lt t by (auto simp: wd_ok_def)
  moreover have "wd_items (d\<lparr>wd_top := wd_top d + 1\<rparr>) = tl (wd_items d)"
    unfolding first [OF ne] by (simp add: wd_items_def t)
  ultimately show "wd_ok (d\<lparr>wd_top := wd_top d + 1\<rparr>) \<and> wd_items (d\<lparr>wd_top := wd_top d + 1\<rparr>) = tl (wd_items d)" ..
qed

section \<open>Owner and thieves\<close>

text \<open>
  Where the owner and a thief are.  The owner alone writes the bottom and the array, so its loads of them need no step of their own.
  \<open>O_push\<close> has loaded bottom and top, \<open>O_put\<close> has written the cell; \<open>O_stored\<close> has stored the lowered bottom,
  \<open>O_loaded\<close> has loaded the top after it, \<open>O_reset\<close> is about to raise the bottom again.  \<open>S_top\<close> has loaded the top,
  \<open>S_bottom\<close> also the bottom, \<open>S_full\<close> compares the top again, \<open>S_read\<close> has read the cell.
\<close>

datatype 'a owner_pc = O_idle | O_push 'a u64 u64 | O_put 'a u64 | O_stored u64 | O_loaded u64 u64 | O_reset u64
datatype 'a thief_pc = S_idle | S_top u64 | S_bottom u64 u64 | S_full u64 | S_read u64 "'a option"

record 'a wsys =
  sys_deque :: "'a wd"
  sys_pending :: "u64 option"
  sys_owner :: "'a owner_pc"
  sys_thief :: "nat \<Rightarrow> 'a thief_pc"
  sys_put :: "'a list"
  sys_got :: "'a option list"

datatype 'a event = Push 'a | Take | Owner | Commit | Steal nat | Thief nat

definition owner_bottom :: "'a wsys \<Rightarrow> u64" where
  "owner_bottom s = (case sys_pending s of Some b \<Rightarrow> b | None \<Rightarrow> wd_bottom (sys_deque s))"

text \<open>A pending store becomes visible at the latest before the owner's next sequentially consistent store.\<close>

definition flush :: "'a wsys \<Rightarrow> 'a wsys" where
  "flush s = (case sys_pending s of Some b \<Rightarrow> s\<lparr>sys_deque := (sys_deque s)\<lparr>wd_bottom := b\<rparr>, sys_pending := None\<rparr> | None \<Rightarrow> s)"

definition push_start :: "'a \<Rightarrow> 'a wsys \<Rightarrow> 'a wsys" where
  "push_start x s = s\<lparr>sys_owner := O_push x (owner_bottom s) (wd_top (sys_deque s))\<rparr>"

definition take_start :: "bool \<Rightarrow> 'a wsys \<Rightarrow> 'a wsys" where
  "take_start weak s =
     (let b = owner_bottom s - 1; s1 = s\<lparr>sys_pending := Some b, sys_owner := O_stored b\<rparr> in if weak then s1 else flush s1)"

text \<open>One step of the owner; a push that would grow the array has none.\<close>

definition owner_step :: "'a wsys \<Rightarrow> 'a wsys option" where
  "owner_step s =
     (case sys_owner s of
        O_idle \<Rightarrow> None
      | O_push x b t \<Rightarrow>
          (if of_nat (length (wd_buf (sys_deque s))) - 1 < b - t then None
           else let s1 = flush s
                in Some (s1\<lparr>sys_deque := (sys_deque s1)\<lparr>wd_buf := array_put b (Some x) (wd_buf (sys_deque s1))\<rparr>, sys_owner := O_put x b\<rparr>))
      | O_put x b \<Rightarrow>
          Some (s\<lparr>sys_deque := (sys_deque s)\<lparr>wd_bottom := b + 1\<rparr>, sys_pending := None, sys_owner := O_idle, sys_put := sys_put s @ [x]\<rparr>)
      | O_stored b \<Rightarrow> Some (s\<lparr>sys_owner := O_loaded b (wd_top (sys_deque s))\<rparr>)
      | O_loaded b t \<Rightarrow>
          (let x = array_get b (wd_buf (sys_deque s))
           in if t < b then Some (s\<lparr>sys_owner := O_idle, sys_got := sys_got s @ [x]\<rparr>)
              else if t = b
              then let s1 = flush s
                   in if wd_top (sys_deque s1) = t
                      then Some (s1\<lparr>sys_deque := (sys_deque s1)\<lparr>wd_top := t + 1\<rparr>, sys_owner := O_reset b, sys_got := sys_got s @ [x]\<rparr>)
                      else Some (s1\<lparr>sys_owner := O_reset b\<rparr>)
              else Some (s\<lparr>sys_owner := O_reset b\<rparr>))
      | O_reset b \<Rightarrow>
          Some (s\<lparr>sys_deque := (sys_deque s)\<lparr>wd_bottom := b + 1\<rparr>, sys_pending := None, sys_owner := O_idle\<rparr>))"

definition thief_step :: "nat \<Rightarrow> 'a wsys \<Rightarrow> 'a wsys option" where
  "thief_step i s =
     (let d = sys_deque s; go = (\<lambda>p. s\<lparr>sys_thief := (sys_thief s)(i := p)\<rparr>)
      in case sys_thief s i of
           S_idle \<Rightarrow> None
         | S_top t \<Rightarrow> Some (go (S_bottom t (wd_bottom d)))
         | S_bottom t b \<Rightarrow>
             (if sint (b - t) \<le> 0 then Some (go S_idle)
              else if (b - t) mod of_nat (length (wd_buf d)) = 0 then Some (go (S_full t))
              else Some (go (S_read t (array_get t (wd_buf d)))))
         | S_full t \<Rightarrow> Some (go S_idle)
         | S_read t x \<Rightarrow>
             (if wd_top d = t then Some ((go S_idle)\<lparr>sys_deque := d\<lparr>wd_top := t + 1\<rparr>, sys_got := sys_got s @ [x]\<rparr>)
              else Some (go S_idle)))"

definition sys_step :: "bool \<Rightarrow> 'a event \<Rightarrow> 'a wsys \<Rightarrow> 'a wsys option" where
  "sys_step weak e s =
     (case e of
        Push x \<Rightarrow> if sys_owner s = O_idle then Some (push_start x s) else None
      | Take \<Rightarrow> if sys_owner s = O_idle then Some (take_start weak s) else None
      | Owner \<Rightarrow> owner_step s
      | Commit \<Rightarrow> Some (flush s)
      | Steal i \<Rightarrow> if sys_thief s i = S_idle then Some (s\<lparr>sys_thief := (sys_thief s)(i := S_top (wd_top (sys_deque s)))\<rparr>) else None
      | Thief i \<Rightarrow> thief_step i s)"

primrec sys_run :: "bool \<Rightarrow> 'a event list \<Rightarrow> 'a wsys \<Rightarrow> 'a wsys option" where
  "sys_run weak [] s = Some s"
| "sys_run weak (e # es) s = Option.bind (sys_step weak e s) (sys_run weak es)"

definition sys_new :: "nat \<Rightarrow> 'a \<Rightarrow> 'a wsys" where
  "sys_new k x = \<lparr>sys_deque = wd_push x (wd_new k), sys_pending = None, sys_owner = O_idle, sys_thief = (\<lambda>_. S_idle),
     sys_put = [x], sys_got = []\<rparr>"

section \<open>No item is lost or delivered twice\<close>

text \<open>
  The indices below \<open>limit\<close> are still to be had through the top; a taken item whose top was seen below it is \<open>held\<close> by the owner.
\<close>

definition limit :: "'a wsys \<Rightarrow> nat" where
  "limit s = (case sys_owner s of
     O_stored b \<Rightarrow> Suc (unat b) | O_loaded b t \<Rightarrow> if t < b then unat b else Suc (unat b) | O_reset b \<Rightarrow> Suc (unat b)
   | _ \<Rightarrow> unat (wd_bottom (sys_deque s)))"

abbreviation at :: "'a wsys \<Rightarrow> nat \<Rightarrow> 'a option" where
  "at s i \<equiv> cell i (wd_buf (sys_deque s))"

abbreviation tp :: "'a wsys \<Rightarrow> nat" where
  "tp s \<equiv> unat (wd_top (sys_deque s))"

abbreviation bt :: "'a wsys \<Rightarrow> nat" where
  "bt s \<equiv> unat (wd_bottom (sys_deque s))"

abbreviation len :: "'a wsys \<Rightarrow> nat" where
  "len s \<equiv> length (wd_buf (sys_deque s))"

definition held :: "'a wsys \<Rightarrow> 'a option multiset" where
  "held s = (case sys_owner s of O_loaded b t \<Rightarrow> if t < b then {#at s (unat b)#} else {#} | _ \<Rightarrow> {#})"

definition kept :: "'a wsys \<Rightarrow> 'a option multiset" where
  "kept s = mset (map (at s) [tp s..<limit s])"

definition owner_ok :: "'a wsys \<Rightarrow> bool" where
  "owner_ok s \<longleftrightarrow> (case sys_owner s of
     O_idle \<Rightarrow> 0 < bt s
   | O_push x b t \<Rightarrow> unat b = bt s \<and> 0 < bt s \<and> unat t \<le> tp s
   | O_put x b \<Rightarrow> unat b = bt s \<and> 0 < bt s \<and> at s (unat b) = Some x \<and> unat b < tp s + len s
   | O_stored b \<Rightarrow> unat b = bt s
   | O_loaded b t \<Rightarrow> unat b = bt s \<and> unat t \<le> tp s
   | O_reset b \<Rightarrow> unat b = bt s \<and> tp s = Suc (unat b))"

definition thief_ok :: "'a wsys \<Rightarrow> 'a thief_pc \<Rightarrow> bool" where
  "thief_ok s p \<longleftrightarrow> (case p of
     S_top t \<Rightarrow> unat t \<le> tp s
   | S_bottom t b \<Rightarrow> unat t \<le> tp s \<and> unat b < 2 ^ 63 \<and> (unat t < unat b \<longrightarrow> unat t < tp s \<or> unat t < limit s)
   | S_read t x \<Rightarrow> unat t \<le> tp s \<and> (unat t = tp s \<longrightarrow> unat t < limit s \<and> x = at s (unat t))
   | _ \<Rightarrow> True)"

definition sys_ok :: "nat \<Rightarrow> 'a wsys \<Rightarrow> bool" where
  "sys_ok n s \<longleftrightarrow> sys_pending s = None \<and> len s = 2 ^ wd_exp (sys_deque s) \<and> wd_exp (sys_deque s) < 62
     \<and> tp s \<le> limit s \<and> limit s \<le> tp s + len s \<and> limit s \<le> n \<and> owner_ok s \<and> (\<forall>i. thief_ok s (sys_thief s i))
     \<and> mset (map Some (sys_put s)) = mset (sys_got s) + held s + kept s"

lemma bottom_limit: "owner_ok s \<Longrightarrow> bt s \<le> limit s"
  by (auto simp: owner_ok_def limit_def split: owner_pc.splits)

text \<open>What a step has to keep, when the array and the items read from it stay as they are.\<close>

lemma thieves_keep:
  assumes "\<And>i. thief_ok s (sys_thief s i)" and "tp s = tp s'" and "\<And>j. j < limit s \<Longrightarrow> tp s \<le> j \<Longrightarrow> at s' j = at s j"
    and "\<And>j. tp s = j \<Longrightarrow> j < limit s \<Longrightarrow> j < limit s'" and "sys_thief s' = sys_thief s"
  shows "thief_ok s' (sys_thief s' i)"
  using assms(1) [of i] assms(2-5) by (cases "sys_thief s i") (auto simp: thief_ok_def le_less)

lemma kept_cong:
  assumes "tp s' = tp s" and "limit s' = limit s" and "\<And>j. tp s \<le> j \<Longrightarrow> j < limit s \<Longrightarrow> at s' j = at s j"
  shows "kept s' = kept s"
proof -
  have "map (at s') [tp s'..<limit s'] = map (at s) [tp s..<limit s]" unfolding assms(1,2) by (rule map_cong) (use assms(3) in auto)
  then show ?thesis unfolding kept_def by (rule arg_cong)
qed

lemma same_limit:
  assumes "sys_ok n s" and "wd_top (sys_deque s') = wd_top (sys_deque s)" and "wd_buf (sys_deque s') = wd_buf (sys_deque s)"
    and "wd_exp (sys_deque s') = wd_exp (sys_deque s)" and "sys_pending s' = None" and "limit s' = limit s" and "held s' = held s"
    and "sys_thief s' = sys_thief s" and "sys_put s' = sys_put s" and "sys_got s' = sys_got s" and "owner_ok s'"
  shows "sys_ok n s'"
proof -
  have "thief_ok s' (sys_thief s' i)" for i
    by (rule thieves_keep [of s]) (use assms in \<open>simp_all add: sys_ok_def\<close>)
  moreover have "kept s' = kept s" using assms(2,3,6) by (simp add: kept_def)
  ultimately show ?thesis using assms by (simp add: sys_ok_def)
qed

lemma push_start_ok:
  assumes "sys_ok n s" and "sys_owner s = O_idle"
  shows "sys_ok n (push_start x s)"
  by (rule same_limit [OF assms(1)])
     (use assms in \<open>simp_all add: sys_ok_def push_start_def owner_bottom_def limit_def held_def owner_ok_def\<close>)

lemma take_start_ok:
  assumes "sys_ok n s" and "sys_owner s = O_idle"
  shows "sys_ok n (take_start False s)"
proof -
  have b: "0 < bt s" using assms by (simp add: sys_ok_def owner_ok_def)
  then have b1: "Suc (unat (wd_bottom (sys_deque s) - 1)) = bt s" using word_minus [of 1 "wd_bottom (sys_deque s)"] by simp
  show ?thesis
    by (rule same_limit [OF assms(1)])
       (use assms b1 in \<open>simp_all add: sys_ok_def take_start_def owner_bottom_def flush_def limit_def held_def owner_ok_def Let_def\<close>)
qed

lemma thief_moves [simp]:
  "limit (s\<lparr>sys_thief := f\<rparr>) = limit s" "held (s\<lparr>sys_thief := f\<rparr>) = held s" "kept (s\<lparr>sys_thief := f\<rparr>) = kept s"
  "owner_ok (s\<lparr>sys_thief := f\<rparr>) = owner_ok s" "thief_ok (s\<lparr>sys_thief := f\<rparr>) = thief_ok s"
proof -
  show l: "limit (s\<lparr>sys_thief := f\<rparr>) = limit s" by (simp add: limit_def split: owner_pc.split)
  show "held (s\<lparr>sys_thief := f\<rparr>) = held s" by (simp add: held_def split: owner_pc.split)
  show "kept (s\<lparr>sys_thief := f\<rparr>) = kept s" by (simp add: kept_def l)
  show "owner_ok (s\<lparr>sys_thief := f\<rparr>) = owner_ok s" by (simp add: owner_ok_def split: owner_pc.split)
  show "thief_ok (s\<lparr>sys_thief := f\<rparr>) = thief_ok s" by (rule ext) (simp add: thief_ok_def l split: thief_pc.split)
qed

lemma thief_moves_ok: "sys_ok n s \<Longrightarrow> thief_ok s p \<Longrightarrow> sys_ok n (s\<lparr>sys_thief := (sys_thief s)(i := p)\<rparr>)"
  by (simp add: sys_ok_def)

lemma steal_start_ok: "sys_ok n s \<Longrightarrow> sys_ok n (s\<lparr>sys_thief := (sys_thief s)(i := S_top (wd_top (sys_deque s)))\<rparr>)"
  by (rule thief_moves_ok) (simp_all add: thief_ok_def)

text \<open>The steps of the owner.\<close>

lemma unat_room:
  assumes "\<not> of_nat l - 1 < b - (t :: u64)" and "unat t \<le> T" and "T \<le> unat b" and "l = 2 ^ k" and "k < 62"
  shows "unat b < T + l"
proof -
  have "(2 :: nat) ^ k < 2 ^ 62" using assms(5) by (intro power_strict_increasing) simp_all
  then have "l < 2 ^ 62" "0 < l" using assms(4) by simp_all
  then have l: "unat (of_nat l :: u64) = l" "0 < l" by (simp_all add: unat_of_nat)
  then have "unat (of_nat l - 1 :: u64) = l - 1" using word_minus [of 1 "of_nat l"] by simp
  moreover have "unat (b - t) = unat b - unat t" using assms(2,3) by (intro word_minus) simp
  ultimately have "unat b - unat t \<le> l - 1" using assms(1) by (simp add: word_less_nat_alt not_less)
  then show ?thesis using l(2) assms(2,3) by linarith
qed

lemma push_put_ok:
  assumes "sys_ok n s" and "sys_owner s = O_push x b t" and "owner_step s = Some s'"
  shows "sys_ok n s'"
proof -
  let ?d = "sys_deque s"
  have k: "sys_pending s = None" "len s = 2 ^ wd_exp ?d" "wd_exp ?d < 62" "unat b = bt s" "unat t \<le> tp s" "tp s \<le> bt s" "limit s = bt s" "bt s \<le> tp s + len s"
    "0 < bt s"
    using assms(1,2) by (simp_all add: sys_ok_def owner_ok_def limit_def)
  have "\<not> of_nat (len s) - 1 < b - t" using assms(2,3) by (simp add: owner_step_def split: if_splits)
  have s': "s' = s\<lparr>sys_deque := ?d\<lparr>wd_buf := array_put b (Some x) (wd_buf ?d)\<rparr>, sys_owner := O_put x b\<rparr>"
    using assms(2,3) k(1) by (simp add: owner_step_def flush_def Let_def split: if_splits)
  have room: "bt s < tp s + len s" using unat_room [OF \<open>\<not> of_nat (len s) - 1 < b - t\<close>] k by simp
  have ne: "wd_buf ?d \<noteq> []" using k(2) by auto
  have same: "at s' j = at s j" if "tp s \<le> j" "j < bt s" for j
    unfolding s' using cell_put(2) [of j b "wd_buf ?d" "Some x"] that room k(4) by simp
  have lim: "limit s' = limit s" using assms(2) by (simp add: s' limit_def)
  have keep: "thief_ok s' (sys_thief s' i)" for i
    by (rule thieves_keep [of s]) (use assms(1) same lim k(7) in \<open>auto simp: sys_ok_def s'\<close>)
  have "owner_ok s'" using k(4,9) room cell_put(1) [OF ne, of b "Some x"] by (simp add: owner_ok_def s')
  moreover have "kept s' = kept s" by (rule kept_cong) (use same lim k(7) in \<open>simp_all add: s'\<close>)
  moreover have "held s' = held s" using assms(2) by (simp add: held_def s')
  ultimately show ?thesis using assms(1) keep lim k by (simp add: sys_ok_def s')
qed

lemma kept_last: "tp s < limit s \<Longrightarrow> limit s = Suc m \<Longrightarrow> kept s = mset (map (at s) [tp s..<m]) + {#at s m#}"
  by (simp add: kept_def del: map_map)

lemma kept_first: "tp s < limit s \<Longrightarrow> kept s = {#at s (tp s)#} + mset (map (at s) [Suc (tp s)..<limit s])"
  unfolding kept_def by (subst upt_conv_Cons) simp_all

lemma push_stored_ok:
  assumes "sys_ok n s" and "sys_owner s = O_put x b" and "owner_step s = Some s'" and "Suc n < 2 ^ 63"
  shows "sys_ok (Suc n) s'"
proof -
  have k: "unat b = bt s" "at s (unat b) = Some x" "unat b < tp s + len s" "limit s = bt s" "tp s \<le> bt s" "bt s \<le> n"
    using assms(1,2) by (auto simp: sys_ok_def owner_ok_def limit_def)
  have s': "s' = s\<lparr>sys_deque := (sys_deque s)\<lparr>wd_bottom := b + 1\<rparr>, sys_pending := None, sys_owner := O_idle, sys_put := sys_put s @ [x]\<rparr>"
    using assms(2,3) by (simp add: owner_step_def)
  have b1: "unat (b + 1) = Suc (unat b)" using word_plus [of b 1] k(1,6) assms(4) by simp
  have lim: "limit s' = Suc (bt s)" using b1 k(1) by (simp add: limit_def s')
  have "thief_ok s' (sys_thief s' i)" for i
    by (rule thieves_keep [of s]) (use assms(1) lim k(4) in \<open>auto simp: sys_ok_def s'\<close>)
  moreover have "kept s' = kept s + {#Some x#}"
  proof -
    have "kept s' = mset (map (at s') [tp s'..<bt s]) + {#at s' (bt s)#}" using k(5) lim by (intro kept_last) (simp_all add: s')
    then show ?thesis using k(1,2,4) by (simp add: kept_def s')
  qed
  moreover have "owner_ok s'" using b1 by (simp add: owner_ok_def s')
  moreover have "held s' = {#}" "held s = {#}" using assms(2) by (simp_all add: held_def s')
  ultimately show ?thesis using assms(1) lim k by (simp add: sys_ok_def s')
qed

lemma take_loaded_ok:
  assumes "sys_ok n s" and "sys_owner s = O_stored b" and "owner_step s = Some s'"
  shows "sys_ok n s'"
proof (cases "wd_top (sys_deque s) < b")
  case False
  show ?thesis
    by (rule same_limit [OF assms(1)])
       (use assms False in \<open>auto simp: owner_step_def sys_ok_def limit_def held_def owner_ok_def\<close>)
next
  case True
  have k: "unat b = bt s" "limit s = Suc (unat b)" "tp s < unat b" using assms(1,2) True by (simp_all add: sys_ok_def owner_ok_def limit_def word_less_nat_alt)
  have s': "s' = s\<lparr>sys_owner := O_loaded b (wd_top (sys_deque s))\<rparr>" using assms(2,3) by (simp add: owner_step_def)
  have lim: "limit s' = unat b" using True by (simp add: limit_def s')
  have "thief_ok s' (sys_thief s' i)" for i
    by (rule thieves_keep [of s]) (use assms(1) lim k in \<open>auto simp: sys_ok_def s'\<close>)
  moreover have "kept s = kept s' + {#at s (unat b)#}"
    using kept_last [of s "unat b"] k lim by (simp add: kept_def s')
  moreover have "held s' = {#at s (unat b)#}" "held s = {#}" using assms(2) True by (simp_all add: held_def s')
  moreover have "owner_ok s'" using k by (simp add: owner_ok_def s')
  ultimately show ?thesis using assms(1) lim k by (simp add: sys_ok_def s')
qed

lemma thieves_top: "thief_ok s p \<Longrightarrow> tp s < tp s' \<Longrightarrow> thief_ok s' p"
  by (auto simp: thief_ok_def split: thief_pc.splits)

lemma take_done_ok:
  assumes "sys_ok n s" and "sys_owner s = O_loaded b t" and "owner_step s = Some s'" and "n < 2 ^ 63"
  shows "sys_ok n s'"
proof -
  have k: "sys_pending s = None" "unat b = bt s" "unat t \<le> tp s" "tp s \<le> limit s" "limit s \<le> n"
    using assms(1,2) by (simp_all add: sys_ok_def owner_ok_def)
  have fl: "flush s = s" using k(1) by (simp add: flush_def)
  consider "t < b" | "t = b" "wd_top (sys_deque s) = t" | "b \<le> t" "t \<noteq> b \<or> wd_top (sys_deque s) \<noteq> t" by fastforce
  then show ?thesis
  proof cases
    case 1
    then have s': "s' = s\<lparr>sys_owner := O_idle, sys_got := sys_got s @ [at s (unat b)]\<rparr>"
      using assms(2,3) by (simp add: owner_step_def Let_def array_get_cell)
    have lim: "limit s' = limit s" using 1 k(2) assms(2) by (simp add: limit_def s')
    have "thief_ok s' (sys_thief s' i)" for i
      by (rule thieves_keep [of s]) (use assms(1) lim in \<open>auto simp: sys_ok_def s'\<close>)
    moreover have "kept s' = kept s" by (rule kept_cong) (use lim in \<open>simp_all add: s'\<close>)
    moreover have "held s = {#at s (unat b)#}" "held s' = {#}" using 1 assms(2) by (simp_all add: held_def s')
    moreover have "owner_ok s'" using 1 k(2) by (simp add: owner_ok_def s' word_less_nat_alt)
    ultimately show ?thesis using assms(1) lim k by (simp add: sys_ok_def s')
  next
    case 2
    then have s': "s' = s\<lparr>sys_deque := (sys_deque s)\<lparr>wd_top := t + 1\<rparr>, sys_owner := O_reset b, sys_got := sys_got s @ [at s (unat b)]\<rparr>"
      using assms(2,3) fl by (simp add: owner_step_def Let_def array_get_cell)
    have lims: "limit s = Suc (unat b)" "limit s' = Suc (unat b)" using 2 assms(2) by (simp_all add: limit_def s')
    have t1: "unat (t + 1) = Suc (unat b)" using word_plus [of b 1] lims(1) k(5) assms(4) 2(1) by simp
    have "thief_ok s' (sys_thief s' i)" for i
      by (rule thieves_top [of s]) (use assms(1) t1 2 in \<open>simp_all add: sys_ok_def s'\<close>)
    moreover have "kept s = {#at s (unat b)#}" using 2 lims(1) by (simp add: kept_def)
    moreover have "kept s' = {#}" using t1 lims(2) by (simp add: kept_def s')
    moreover have "held s = {#}" "held s' = {#}" using 2 assms(2) by (simp_all add: held_def s')
    moreover have "owner_ok s'" using k(2) t1 by (simp add: owner_ok_def s')
    ultimately show ?thesis using assms(1) lims k t1 by (simp add: sys_ok_def s')
  next
    case 3
    then have s': "s' = s\<lparr>sys_owner := O_reset b\<rparr>" using assms(2,3) fl by (auto simp: owner_step_def Let_def split: if_splits)
    have nl: "\<not> t < b" using 3(1) by simp
    then have lims: "limit s = Suc (unat b)" "limit s' = Suc (unat b)" using assms(2) by (simp_all add: limit_def s')
    have "tp s \<noteq> unat b" using 3 k(3) by (auto simp: word_le_nat_alt word_unat_eq_iff)
    then have "tp s = Suc (unat b)" using lims(1) k(3,4) 3(1) by (simp add: word_le_nat_alt)
    then show ?thesis
      by (intro same_limit [OF assms(1)]) (use lims k(1,2) nl assms(2) in \<open>simp_all add: s' held_def owner_ok_def\<close>)
  qed
qed

lemma reset_ok:
  assumes "sys_ok n s" and "sys_owner s = O_reset b" and "owner_step s = Some s'" and "n < 2 ^ 63"
  shows "sys_ok n s'"
proof -
  have k: "unat b = bt s" "limit s = Suc (unat b)" "limit s \<le> n" using assms(1,2) by (simp_all add: sys_ok_def owner_ok_def limit_def)
  then have "unat (b + 1) = Suc (unat b)" using word_plus [of b 1] assms(4) by simp
  then show ?thesis
    by (intro same_limit [OF assms(1)])
       (use assms(2,3) k in \<open>auto simp: owner_step_def limit_def held_def owner_ok_def\<close>)
qed

lemma owner_step_ok:
  assumes "sys_ok n s" and "owner_step s = Some s'" and "Suc n < 2 ^ 63"
  shows "sys_ok (Suc n) s'"
proof -
  have more: "sys_ok n s' \<Longrightarrow> sys_ok (Suc n) s'" by (simp add: sys_ok_def)
  show ?thesis
  proof (cases "sys_owner s")
    case O_idle
    then show ?thesis using assms(2) by (simp add: owner_step_def)
  next
    case (O_push x b t)
    then show ?thesis using push_put_ok [OF assms(1) _ assms(2)] more by blast
  next
    case (O_put x b)
    then show ?thesis using push_stored_ok [OF assms(1) _ assms(2,3)] by blast
  next
    case (O_stored b)
    then show ?thesis using take_loaded_ok [OF assms(1) _ assms(2)] more by blast
  next
    case (O_loaded b t)
    then show ?thesis using take_done_ok [OF assms(1) _ assms(2)] assms(3) more by simp
  next
    case (O_reset b)
    then show ?thesis using reset_ok [OF assms(1) _ assms(2)] assms(3) more by simp
  qed
qed

text \<open>The steps of a thief.\<close>

lemma sint_diff:
  assumes "unat (b :: u64) < 2 ^ 63" and "unat t < 2 ^ 63"
  shows "sint (b - t) = int (unat b) - int (unat t)"
proof -
  have b: "int (unat b) < int (2 ^ 63)" "int (unat t) < int (2 ^ 63)" using assms by (simp_all only: of_nat_less_iff)
  have p: "int (2 ^ 63) = (2 :: int) ^ 63" by simp
  have "LENGTH(64) - 1 = 63" by simp
  then have "sint (b - t) = signed_take_bit 63 (int (unat b) - int (unat t))"
    using sint_word_diff [of b t] sint_small [OF assms(1)] sint_small [OF assms(2)] by (simp only:)
  also have "\<dots> = int (unat b) - int (unat t)"
    by (rule signed_take_bit_int_eq_self) (use b [unfolded p] in linarith)+
  finally show ?thesis .
qed

lemma sint_le:
  assumes "unat (b :: u64) < 2 ^ 63" and "unat t < 2 ^ 63"
  shows "sint (b - t) \<le> 0 \<longleftrightarrow> unat b \<le> unat t"
  unfolding sint_diff [OF assms] by linarith

lemma thief_wins_ok:
  assumes "sys_ok n s" and "sys_thief s i = S_read t x" and "wd_top (sys_deque s) = t" and "n < 2 ^ 63"
  shows "sys_ok n (s\<lparr>sys_thief := (sys_thief s)(i := S_idle), sys_deque := (sys_deque s)\<lparr>wd_top := t + 1\<rparr>, sys_got := sys_got s @ [x]\<rparr>)"
proof -
  let ?s = "s\<lparr>sys_thief := (sys_thief s)(i := S_idle), sys_deque := (sys_deque s)\<lparr>wd_top := t + 1\<rparr>, sys_got := sys_got s @ [x]\<rparr>"
  have "thief_ok s (S_read t x)" using assms(1,2) unfolding sys_ok_def by metis
  then have k: "tp s < limit s" "x = at s (tp s)" "limit s \<le> n" using assms(1,3) by (auto simp: thief_ok_def sys_ok_def)
  have t1: "unat (t + 1) = Suc (tp s)" using word_plus [of t 1] assms(3,4) k(1,3) by simp
  have lim: "limit ?s = limit s" by (simp add: limit_def split: owner_pc.split)
  have "thief_ok ?s (sys_thief s j)" for j
    by (rule thieves_top [of s]) (use assms(1) t1 in \<open>simp_all add: sys_ok_def\<close>)
  moreover have "thief_ok ?s S_idle" by (simp add: thief_ok_def)
  ultimately have "thief_ok ?s (sys_thief ?s j)" for j by simp
  moreover have "kept s = {#x#} + kept ?s" using kept_first [OF k(1)] k(2) t1 lim by (simp add: kept_def)
  moreover have "held ?s = held s" by (simp add: held_def split: owner_pc.split)
  moreover have "owner_ok ?s"
    using assms(1) t1 k(1) by (auto simp: sys_ok_def owner_ok_def limit_def split: owner_pc.splits)
  ultimately show ?thesis using assms(1) lim k t1 by (simp add: sys_ok_def)
qed

lemma thief_step_ok:
  assumes "sys_ok n s" and "thief_step i s = Some s'" and "n < 2 ^ 63"
  shows "sys_ok n s'"
proof -
  have th: "thief_ok s (sys_thief s i)" and lim: "limit s \<le> n" "tp s \<le> limit s" "bt s \<le> limit s"
    using assms(1) bottom_limit by (auto simp: sys_ok_def)
  note step = assms(2) [unfolded thief_step_def Let_def]
  show ?thesis
  proof (cases "sys_thief s i")
    case S_idle
    then show ?thesis using step by simp
  next
    case (S_top t)
    then have "thief_ok s (S_bottom t (wd_bottom (sys_deque s)))" using th lim assms(3) by (auto simp: thief_ok_def)
    then show ?thesis using thief_moves_ok [OF assms(1)] S_top step by auto
  next
    case (S_bottom t b)
    have "thief_ok s (S_read t (array_get t (wd_buf (sys_deque s))))" if "\<not> sint (b - t) \<le> 0"
      using that th lim assms(3) S_bottom sint_le [of b t] by (auto simp: thief_ok_def array_get_cell)
    moreover have "thief_ok s S_idle" "thief_ok s (S_full t)" by (simp_all add: thief_ok_def)
    ultimately show ?thesis using thief_moves_ok [OF assms(1)] S_bottom step by (auto split: if_splits)
  next
    case (S_full t)
    then show ?thesis using thief_moves_ok [OF assms(1), of S_idle i] step by (auto simp: thief_ok_def)
  next
    case (S_read t x)
    then show ?thesis
      using thief_wins_ok [OF assms(1) S_read _ assms(3)] thief_moves_ok [OF assms(1), of S_idle i] step
      by (auto simp: thief_ok_def split: if_splits)
  qed
qed

lemma sys_step_ok:
  assumes "sys_ok n s" and "sys_step False e s = Some s'" and "Suc n < 2 ^ 63"
  shows "sys_ok (Suc n) s'"
proof -
  have more: "sys_ok n s1 \<Longrightarrow> sys_ok (Suc n) s1" for s1 :: "'a wsys" by (simp add: sys_ok_def)
  have "flush s = s" using assms(1) by (simp add: flush_def sys_ok_def)
  then show ?thesis
    using assms owner_step_ok [OF assms(1) _ assms(3)] thief_step_ok [OF assms(1)] push_start_ok [OF assms(1)] take_start_ok [OF assms(1)]
      steal_start_ok [OF assms(1)] more
    by (cases e) (auto simp: sys_step_def split: if_splits)
qed

lemma sys_run_ok: "sys_ok n s \<Longrightarrow> sys_run False es s = Some s' \<Longrightarrow> n + length es < 2 ^ 63 \<Longrightarrow> sys_ok (n + length es) s'"
proof (induction es arbitrary: n s)
  case (Cons e es)
  obtain s1 where s1: "sys_step False e s = Some s1" "sys_run False es s1 = Some s'"
    using Cons.prems(2) by (auto simp: bind_eq_Some_conv)
  have "sys_ok (Suc n) s1" by (rule sys_step_ok [OF Cons.prems(1) s1(1)]) (use Cons.prems(3) in simp)
  then show ?case using Cons.IH [of "Suc n" s1] s1(2) Cons.prems(3) by simp
qed simp

lemma wd_new_ok: "k < 61 \<Longrightarrow> wd_ok (wd_new k :: 'a wd) \<and> wd_room (wd_new k :: 'a wd) \<and> wd_items (wd_new k :: 'a wd) = []"
proof -
  assume "k < 61"
  moreover from this have "(2 :: nat) ^ k < 2 ^ 61" by (intro power_strict_increasing) simp_all
  ultimately show ?thesis by (simp add: wd_new_def wd_ok_def wd_room_def wd_items_def array_new_def)
qed

lemma first_push:
  assumes "k < 61"
  shows "wd_top (wd_push x (wd_new k)) = 0" and "wd_bottom (wd_push x (wd_new k)) = 1" and "wd_exp (wd_push x (wd_new k)) = k"
proof -
  have "\<not> of_nat (length (wd_buf (wd_new k :: 'a wd))) - 1 < wd_bottom (wd_new k :: 'a wd) - wd_top (wd_new k :: 'a wd)"
    using grow_test [of "wd_new k :: 'a wd"] wd_new_ok [OF assms, where ?'a = 'a] by (simp add: wd_new_def array_new_def)
  then show "wd_top (wd_push x (wd_new k)) = 0" "wd_bottom (wd_push x (wd_new k)) = 1" "wd_exp (wd_push x (wd_new k)) = k"
    by (simp_all add: wd_push_def Let_def) (simp_all add: wd_new_def)
qed

lemma sys_new_ok:
  assumes "k < 61"
  shows "sys_ok 1 (sys_new k x)"
proof -
  have p: "wd_ok (wd_push x (wd_new k))" "wd_items (wd_push x (wd_new k)) = [Some x]"
    using push_correct [of "wd_new k" x] wd_new_ok [OF assms, where ?'a = 'a] by simp_all
  have f: "cell 0 (wd_buf (wd_push x (wd_new k))) = Some x" using p(2) first_push [OF assms, of x] by (simp add: wd_items_def)
  have "0 < length (wd_buf (wd_push x (wd_new k)))" using p(1) by (simp add: wd_ok_def)
  then show ?thesis using p(1) first_push [OF assms, of x] f
    by (simp add: sys_ok_def sys_new_def limit_def owner_ok_def thief_ok_def held_def kept_def wd_ok_def)
qed

section \<open>Properties\<close>





end
