(* ===== verification/Spec2Isabelle.thy ===== *)
theory Spec2Isabelle
  imports Buffer Scheduler Qutex Channel Http_Safety Http_Url Http_Message Lru Hash_Ring Mpmc_Queue Mpsc_Queue Uri Jsonstream Shared_Pool
    Http_Server Checksum Work_Deque
begin

text \<open>
  A verification development for libten, a C++ library for network services.  File names below are relative to \<open>src/\<close>.

  \<^bold>\<open>The program.\<close>  A thread of libten runs a scheduler (\<open>src/scheduler.cc\<close>, \<open>src/task.cc\<close>) that switches between
  cooperative tasks; an alarm clock (\<open>src/alarm.hh\<close>) wakes sleeping tasks and fires deadlines.  Tasks, also of different threads,
  meet through a mutex that suspends tasks (\<open>src/qutex.cc\<close>), a condition variable (\<open>src/rendez.cc\<close>), and on top of these a
  channel (\<open>include/ten/channel.hh\<close>) and a pool of shared resources (\<open>include/ten/shared_pool.hh\<close>).  The HTTP server
  (\<open>include/ten/http/server.hh\<close>) runs a task per connection: it reads bytes into a buffer (\<open>include/ten/buffer.hh\<close>), feeds them
  to the bundled parser (\<open>src/http_parser.c\<close>) whose callbacks fill in a request (\<open>src/http_message.cc\<close>), chooses a route and sends
  the response.  Around these stand containers (LRU cache, consistent hash ring), lock-free queues and a work-stealing deque, URIs,
  a JSON writer, and the checksums of the bundled compression library.

  \<^bold>\<open>How the code is modelled.\<close>  A class is a record of its members, an enumeration a datatype, a method a function from the
  object to its result and the object afterwards; an exception is a value, and the object is returned as it was at the throw.
  Integers are words of their width wherever they can wrap; those the code bounds first are naturals.  Text is \<^typ>\<open>char list\<close>.
  Code that may be interleaved is cut at the points where another task or thread can run: sections under a mutex for the task-aware
  classes, single shared accesses for the lock-free ones; schedules are arbitrary lists of such steps.  What is not libten's own (the
  allocator, \<open>fnmatch\<close>, the clock, hash functions, user callbacks, the text of a float) is an argument of the definitions that use it.

  \<^bold>\<open>Shared theories.\<close>
  \<^item> \<open>Ten_Prelude\<close>: machine types, the result type of throwing operations, lemmas on lists, characters and words.
  \<^item> \<open>Fifo\<close>: the first-in first-out contract, a locale interpreted by buffer, qutex and channel.
  \<^item> \<open>Simulation\<close>: functional refinement of whole sessions of operations, a locale interpreted by the cache; sessions are shared by the queues.
  \<^item> \<open>Threads\<close>: what the threads of a lock-free algorithm hold.
  \<^item> \<open>Decimal\<close>: decimal numbers and their round trip.

  \<^bold>\<open>Runtime.\<close>
  \<^item> \<open>Alarm\<close> (\<open>src/alarm.hh\<close>): after any history a tick fires exactly the due alarms, once, in order.
  \<^item> \<open>Scheduler\<close> (\<open>src/scheduler.cc\<close>, \<open>src/scheduler.hh\<close>, \<open>src/task.cc\<close>, \<open>src/task_impl.hh\<close>): in every reachable state a task
    is queued exactly when its ready flag is set, and once; \<open>schedule\<close> swaps a task in whenever one is queued or due; an exiting
    task leaves the queues for good.  \<open>schedule\<close> takes the list of what it observes on successive passes through its waiting loop;
    that it returns on the first pass is proved whenever there is something to run.
  \<^item> \<open>Qutex\<close> (\<open>src/qutex.cc\<close>): mutual exclusion and order of arrival under any interleaving.
  \<^item> \<open>Rendez\<close>, \<open>Channel\<close> (\<open>src/rendez.cc\<close>, \<open>include/ten/channel.hh\<close>): the wait list as the locale \<open>wait_point\<close>; bounded first-in first-out delivery, no lost wake-up, the
    rendezvous of a channel of capacity one.
  \<^item> \<open>Shared_Pool\<close> (\<open>include/ten/shared_pool.hh\<close>): no resource is held twice; what goes wrong with the limit.

  \<^bold>\<open>HTTP.\<close>
  \<^item> \<open>Buffer\<close> (\<open>include/ten/buffer.hh\<close>): a session of calls, throwing ones included, is a byte stream; when \<open>reserve\<close> delivers.
  \<^item> \<open>Http_Tables\<close>, \<open>Http_Parser\<close>, \<open>Http_Safety\<close> (\<open>src/http_parser.c\<close>, \<open>include/ten/http/http_parser.h\<close>): every arm of the state
    machine; no assertion fails, every call returns, the counts it reports are right.
  \<^item> \<open>Http_Chunking\<close>: how a stream is cut into buffers does not matter, for any callbacks that append (locale
    \<open>stream_callbacks\<close>).
  \<^item> \<open>Http_Url\<close>: URLs taken apart and put together, and what is read outside the URL.
  \<^item> \<open>Http_Headers\<close>, \<open>Http_Message\<close> (\<open>src/http_message.cc\<close>, \<open>include/ten/http/http_message.hh\<close>): the header list as a map
    (locale \<open>header_map\<close>), the word-wise comparison of names, messages and parser callbacks (locales \<open>stream_callbacks\<close> and \<open>message_invariant\<close> interpreted).
  \<^item> \<open>Http_Bytes\<close>, \<open>Http_Roundtrip\<close>: a request as it is written is read back unchanged.
  \<^item> \<open>Http_Server\<close> (\<open>include/ten/http/server.hh\<close>, \<open>client_task\<close> of \<open>include/ten/net.hh\<close>): pipelined requests in any pieces are answered
    one by one in order; a connection always ends; which response an exchange sends and when it closes.  The loop of
    \<open>on_connection\<close> is a \<open>partial_function\<close>; that it returns for every input is a theorem, so no fuel is needed.

  \<^bold>\<open>Containers, queues, formats.\<close>
  \<^item> \<open>Lru\<close>, \<open>Hash_Ring\<close> (\<open>include/ten/lru.hh\<close>, \<open>include/ten/consistent_hash.hh\<close>): refinement of a list in order of use; the nearest
    point on the ring and minimal movement of data.
  \<^item> \<open>Mpmc_Queue\<close>, \<open>Mpsc_Queue\<close> (\<open>include/ten/mpmc_bounded_queue.hh\<close>, \<open>include/ten/mpsc_queue.hh\<close>): under every interleaving the
    actions are those of a list.  The tickets of the first are 64-bit, and its theorems are for schedules short of \<open>2 ^ 63\<close> steps.
  \<^item> \<open>Work_Deque\<close> (\<open>include/ten/work_deque.hh\<close>): a list for one thread; no item lost or delivered twice with sequentially consistent
    accesses, and a run that delivers one twice with the release store the code has.  The runs are shorter than \<open>2 ^ 62\<close> steps,
    so that the 64-bit indices do not wrap.
  \<^item> \<open>Uri\<close> (\<open>include/ten/uri.hh\<close>, \<open>src/uri_parser.rl\<close>): encoding and query parameters, dot segments as in RFC 3986.
  \<^item> \<open>Jsonstream\<close> (\<open>include/ten/jsonstream.hh\<close>): what is written is read back by a strict JSON reader; when an operation throws.
  \<^item> \<open>Checksum\<close> (\<open>include/ten/bits/miniz.c\<close>): Adler-32 and CRC-32 against their definitions.

  \<^bold>\<open>Not modelled.\<close>  Wrappers of the operating system and of libraries, which add no logic of their own to a call: descriptors, sockets and
  addresses, \<open>src/io.cc\<close> (epoll), TLS, DNS, ZooKeeper, msgpack and the rpc layer on it, logging.  Machine-level code: context switch,
  stacks, thread contexts.  Floating point: the moving averages, back-off and the statistics of the metrics.  \<open>uri::parse\<close>, which a build step
  generates from a grammar; the JSON class and its path queries, which work on values of the jansson library; the compressor and zip
  archives of miniz; the HTTP client, whose loops are those of the connection pool and the server over a socket.  Template plumbing without
  behaviour: \<open>optional\<close>, \<open>apply\<close>, iterators, smart pointers, the \<open>synchronized\<close> wrappers.  The bundled test framework, tests,
  examples and benchmarks.
\<close>

end
